(* ===== verification/Prelude.thy ===== *)
theory Prelude
  imports Main "HOL-Library.Word" "HOL-Library.Multiset"
begin

text \<open>
  Shared vocabulary of the development: the machine integer types of the Rust sources as
  words of their width, the result type of fallible operations, Rust's saturating
  arithmetic, and the generic lemmas on lists, words and natural numbers that the
  components use.  Arithmetic on words wraps: this is the release profile, the one the
  README builds (the workspace sets no \<open>overflow-checks\<close>).
\<close>

named_theorems bunzo_simps \<open>definitions a component unfolds freely\<close>
named_theorems inv_intros \<open>preservation of component invariants\<close>

type_synonym u8 = "8 word"
type_synonym u32 = "32 word"
type_synonym u64 = "64 word"
type_synonym u128 = "128 word"
type_synonym u256 = "256 word"
type_synonym address = "160 word"
type_synonym b256 = "256 word"
type_synonym bytes = "u8 list"

text \<open>
  \<open>Result<T, E>\<close> is the sum \<open>'e + 'a\<close> with the error on the left; the question mark
  operator is \<open>bind_result\<close>.
\<close>

definition bind_result :: "'e + 'a \<Rightarrow> ('a \<Rightarrow> 'e + 'b) \<Rightarrow> 'e + 'b" where
  "bind_result r f = (case r of Inl e \<Rightarrow> Inl e | Inr a \<Rightarrow> f a)"

lemma bind_result_simps [simp]:
  "bind_result (Inl e) f = Inl e" "bind_result (Inr a) f = f a"
  by (simp_all add: bind_result_def)

lemma bind_result_Inr_iff:
  "bind_result r f = Inr b \<longleftrightarrow> (\<exists>a. r = Inr a \<and> f a = Inr b)"
  by (cases r) simp_all

text \<open>
  A computation that can panic (an index out of bounds, \<open>unreachable!\<close>, \<open>todo!\<close>,
  division by zero) returns a \<open>run\<close>; the panic is a value, so its absence can be proved.
\<close>

datatype 'a run = Returns 'a | Panics

text \<open>
  An \<open>Instant\<close> or \<open>Duration\<close> is a natural number of nanoseconds, and the difference of two
  instants saturates at zero, as subtraction of natural numbers does.
\<close>

definition from_secs :: "nat \<Rightarrow> nat" where
  "from_secs s = s * 1000000000"

text \<open>\<open>u64::saturating_add\<close> and \<open>saturating_sub\<close>, at every width.\<close>

definition saturating_add :: "'a::len word \<Rightarrow> 'a word \<Rightarrow> 'a word" where
  "saturating_add a b = (if unat a + unat b < 2 ^ LENGTH('a) then a + b else - 1)"

definition saturating_sub :: "'a::len word \<Rightarrow> 'a word \<Rightarrow> 'a word" where
  "saturating_sub a b = (if b \<le> a then a - b else 0)"

lemma unat_saturating_sub: "unat (saturating_sub a b) = unat a - unat b"
  by (simp add: saturating_sub_def unat_sub word_le_nat_alt not_le)

lemma unat_max_word: "unat (- 1 :: 'a::len word) = 2 ^ LENGTH('a) - 1"
  by (simp add: unsigned_minus_1_eq_mask mask_eq_exp_minus_1)

lemma unat_saturating_add:
  fixes a b :: "'a::len word"
  shows "unat (saturating_add a b) = min (unat a + unat b) (2 ^ LENGTH('a) - 1)"
proof (cases "unat a + unat b < 2 ^ LENGTH('a)")
  case True
  then show ?thesis by (simp add: saturating_add_def unat_word_ariths)
next
  case False
  then show ?thesis by (simp add: saturating_add_def unat_max_word)
qed

lemma saturating_add_ge:
  fixes a b :: "'a::len word"
  shows "a \<le> saturating_add a b"
proof -
  have "unat a \<le> 2 ^ LENGTH('a) - 1"
    using unsigned_less [of a] by (metis One_nat_def Suc_pred less_Suc_eq_le zero_less_numeral zero_less_power)
  then show ?thesis by (simp add: word_le_nat_alt unat_saturating_add)
qed

text \<open>Sums and products that fit are the sums and products of the values.\<close>

lemma unat_add_fits:
  fixes a b :: "'a::len word"
  shows "unat a + unat b < 2 ^ LENGTH('a) \<Longrightarrow> unat (a + b) = unat a + unat b"
  by (simp add: unat_word_ariths)

lemma unat_mult_fits:
  fixes a b :: "'a::len word"
  shows "unat a * unat b < 2 ^ LENGTH('a) \<Longrightarrow> unat (a * b) = unat a * unat b"
  by (simp add: unat_word_ariths)

lemma not_max_less:
  fixes x :: "'a::len word"
  assumes "x \<noteq> - 1"
  shows "unat x + 1 < 2 ^ LENGTH('a)"
proof -
  have "unat x \<noteq> 2 ^ LENGTH('a) - 1"
    using assms by (metis unat_max_word word_unat_eq_iff)
  moreover have "unat x < 2 ^ LENGTH('a)"
    by (rule unsigned_less)
  ultimately show ?thesis by linarith
qed

lemma unat_inc: "x \<noteq> - 1 \<Longrightarrow> unat (x + 1) = Suc (unat x)"
  using unat_add_fits [of x 1] not_max_less [of x] by simp

lemma saturating_inc_greater: "x \<noteq> - 1 \<Longrightarrow> x < saturating_add x 1"
  using not_max_less [of x] by (simp add: saturating_add_def word_less_nat_alt unat_inc)

lemma unat_ucast_up:
  fixes a :: "'a::len word"
  assumes "LENGTH('a) \<le> LENGTH('b::len)"
  shows "unat (ucast a :: 'b word) = unat a"
proof -
  have "unat a < 2 ^ LENGTH('a)" by (rule unsigned_less)
  also have "\<dots> \<le> 2 ^ LENGTH('b)" using assms by simp
  finally show ?thesis by (simp add: unsigned_ucast_eq take_bit_nat_eq_self)
qed

text \<open>Prefixes.\<close>

lemma sorted_wrt_take: "sorted_wrt R xs \<Longrightarrow> sorted_wrt R (take n xs)"
  by (metis append_take_drop_id sorted_wrt_append)

text \<open>
  The loop \<open>while history.len() > n { history.pop_front(); }\<close> that bounds a queue.
\<close>

fun trim_front :: "nat \<Rightarrow> 'a list \<Rightarrow> 'a list" where
  "trim_front n xs = (if n < length xs then trim_front n (tl xs) else xs)"

declare trim_front.simps [simp del]

lemma trim_front_drop: "trim_front n xs = drop (length xs - n) xs"
proof (induction n xs rule: trim_front.induct)
  case (1 n xs)
  have "trim_front n xs = (if n < length xs then drop (length (tl xs) - n) (tl xs) else xs)"
    using 1 by (simp add: trim_front.simps [of n xs])
  then show ?case
    by (cases xs) (auto simp: Suc_diff_le less_Suc_eq_le)
qed

lemma length_trim_front: "length (trim_front n xs) = min n (length xs)"
  by (simp add: trim_front_drop)

lemma trim_front_short [simp]: "length xs \<le> n \<Longrightarrow> trim_front n xs = xs"
  by (simp add: trim_front_drop)

lemma trim_front_snoc: "0 < n \<Longrightarrow> trim_front n (xs @ [x]) = trim_front (n - 1) xs @ [x]"
  by (simp add: trim_front_drop)

lemma set_trim_front: "set (trim_front n xs) \<subseteq> set xs"
  by (simp add: trim_front_drop set_drop_subset)

lemma sorted_wrt_trim_front: "sorted_wrt R xs \<Longrightarrow> sorted_wrt R (trim_front n xs)"
  by (metis append_take_drop_id sorted_wrt_append trim_front_drop)

end
