(* ===== verification/Hash_Map.thy ===== *)
theory Hash_Map
  imports Prelude "HOL-Library.AList"
begin

text \<open>
  The part of \<open>std::collections::HashMap\<close> the program uses.  A map is an association
  list whose keys are distinct; the order of the list stands for the iteration order,
  which Rust leaves unspecified, so a theorem about every such list holds for every
  iteration order.  The locale \<open>hash_map\<close> states the contract the components rely on;
  it is interpreted on the association lists.
\<close>

type_synonym ('k, 'v) hmap = "('k \<times> 'v) list"

definition hm_empty :: "('k, 'v) hmap" where
  "hm_empty = []"

definition hm_get :: "('k, 'v) hmap \<Rightarrow> 'k \<Rightarrow> 'v option" where
  "hm_get m k = map_of m k"

definition hm_insert :: "'k \<Rightarrow> 'v \<Rightarrow> ('k, 'v) hmap \<Rightarrow> ('k, 'v) hmap" where
  "hm_insert k v m = AList.update k v m"

definition hm_remove :: "'k \<Rightarrow> ('k, 'v) hmap \<Rightarrow> ('k, 'v) hmap" where
  "hm_remove k m = AList.delete k m"

definition hm_entries :: "('k, 'v) hmap \<Rightarrow> ('k \<times> 'v) list" where
  "hm_entries m = m"

definition hm_len :: "('k, 'v) hmap \<Rightarrow> nat" where
  "hm_len m = length m"

definition hm_inv :: "('k, 'v) hmap \<Rightarrow> bool" where
  "hm_inv m \<longleftrightarrow> distinct (map fst m)"

text \<open>\<open>contains_key\<close>, \<open>keys\<close> and \<open>values\<close>.\<close>

definition hm_contains :: "('k, 'v) hmap \<Rightarrow> 'k \<Rightarrow> bool" where
  "hm_contains m k \<longleftrightarrow> hm_get m k \<noteq> None"

definition hm_keys :: "('k, 'v) hmap \<Rightarrow> 'k list" where
  "hm_keys m = map fst (hm_entries m)"

definition hm_values :: "('k, 'v) hmap \<Rightarrow> 'v list" where
  "hm_values m = map snd (hm_entries m)"

text \<open>
  \<open>entry(k).or_insert(d)\<close> followed by an update of the slot in place, and \<open>retain\<close>
  with a closure that may change the value: the closure returns the value to keep, or
  \<open>None\<close> to drop the entry.
\<close>

definition hm_upsert :: "'k \<Rightarrow> 'v \<Rightarrow> ('v \<Rightarrow> 'v) \<Rightarrow> ('k, 'v) hmap \<Rightarrow> ('k, 'v) hmap" where
  "hm_upsert k d f m = hm_insert k (f (case hm_get m k of None \<Rightarrow> d | Some v \<Rightarrow> v)) m"

fun hm_retain :: "('k \<Rightarrow> 'v \<Rightarrow> 'v option) \<Rightarrow> ('k, 'v) hmap \<Rightarrow> ('k, 'v) hmap" where
  "hm_retain f [] = []"
| "hm_retain f ((k, v) # m) =
     (case f k v of None \<Rightarrow> hm_retain f m | Some v' \<Rightarrow> (k, v') # hm_retain f m)"

lemmas hm_defs = hm_empty_def hm_get_def hm_insert_def hm_remove_def hm_entries_def
  hm_len_def hm_inv_def hm_contains_def hm_keys_def hm_values_def hm_upsert_def

locale hash_map =
  fixes empty :: "'m"
    and get :: "'m \<Rightarrow> 'k \<Rightarrow> 'v option"
    and insert_kv :: "'k \<Rightarrow> 'v \<Rightarrow> 'm \<Rightarrow> 'm"
    and remove_k :: "'k \<Rightarrow> 'm \<Rightarrow> 'm"
    and entries :: "'m \<Rightarrow> ('k \<times> 'v) list"
    and inv_m :: "'m \<Rightarrow> bool"
  assumes inv_empty: "inv_m empty"
    and get_empty: "get empty k = None"
    and inv_insert: "inv_m m \<Longrightarrow> inv_m (insert_kv k v m)"
    and inv_remove: "inv_m m \<Longrightarrow> inv_m (remove_k k m)"
    and get_insert: "inv_m m \<Longrightarrow> get (insert_kv k v m) = (get m)(k \<mapsto> v)"
    and get_remove: "inv_m m \<Longrightarrow> get (remove_k k m) = (get m)(k := None)"
    and entries_get: "inv_m m \<Longrightarrow> map_of (entries m) = get m"
    and entries_distinct: "inv_m m \<Longrightarrow> distinct (map fst (entries m))"
begin

text \<open>The iteration order never matters: the entries are the graph of the lookup.\<close>

lemma set_entries: "inv_m m \<Longrightarrow> set (entries m) = {(k, v). get m k = Some v}"
  using entries_get [of m] entries_distinct [of m] by (auto simp: map_of_eq_Some_iff [symmetric])

lemma entries_mset: "inv_m m \<Longrightarrow> mset (entries m) = mset_set {(k, v). get m k = Some v}"
  using set_entries [of m] entries_distinct [of m]
  by (simp add: distinct_map mset_set_set flip: set_entries)

lemma entries_insert_fresh:
  assumes "inv_m m" "get m k = None"
  shows "mset (entries (insert_kv k v m)) = add_mset (k, v) (mset (entries m))"
proof -
  have "{(k', v'). get (insert_kv k v m) k' = Some v'} = insert (k, v) (set (entries m))"
    using assms by (auto simp: get_insert set_entries split: if_splits)
  moreover have "(k, v) \<notin> set (entries m)"
    using assms by (simp add: set_entries)
  ultimately show ?thesis
    using assms by (simp add: entries_mset inv_insert set_entries [symmetric])
qed

lemma entries_remove:
  assumes "inv_m m" "get m k = Some v"
  shows "mset (entries m) = add_mset (k, v) (mset (entries (remove_k k m)))"
proof -
  have "set (entries m) = insert (k, v) {(k', v'). get (remove_k k m) k' = Some v'}"
    using assms by (auto simp: get_remove set_entries split: if_splits)
  moreover have "(k, v) \<notin> {(k', v'). get (remove_k k m) k' = Some v'}"
    using assms by (simp add: get_remove)
  moreover have "finite {(k', v'). get (remove_k k m) k' = Some v'}"
    using assms by (metis List.finite_set inv_remove set_entries)
  ultimately show ?thesis
    using assms by (simp add: entries_mset inv_remove set_entries [symmetric])
qed

lemma length_insert_fresh:
  "inv_m m \<Longrightarrow> get m k = None \<Longrightarrow> length (entries (insert_kv k v m)) = Suc (length (entries m))"
  by (metis entries_insert_fresh size_add_mset size_mset)

lemma length_remove:
  "inv_m m \<Longrightarrow> get m k = Some v \<Longrightarrow> length (entries m) = Suc (length (entries (remove_k k m)))"
  by (metis entries_remove size_add_mset size_mset)

lemma empty_entries: "entries empty = []"
  using set_entries [OF inv_empty] by (simp add: get_empty)

end

locale hash_map_retain = hash_map +
  fixes retain :: "('b \<Rightarrow> 'c \<Rightarrow> 'c option) \<Rightarrow> 'a \<Rightarrow> 'a"
  assumes inv_retain: "inv_m m \<Longrightarrow> inv_m (retain f m)"
    and get_retain:
      "inv_m m \<Longrightarrow> get (retain f m) k = (case get m k of None \<Rightarrow> None | Some v \<Rightarrow> f k v)"
begin

text \<open>Retaining in two passes is retaining with the composed closure.\<close>

lemma get_retain_retain:
  "inv_m m \<Longrightarrow> get (retain g (retain f m)) k =
     (case get m k of None \<Rightarrow> None
      | Some v \<Rightarrow> (case f k v of None \<Rightarrow> None | Some v' \<Rightarrow> g k v'))"
  by (simp add: get_retain inv_retain split: option.splits)

end

lemma hm_retain_keys: "set (map fst (hm_retain f m)) \<subseteq> set (map fst m)"
proof (induction m)
  case (Cons kv m)
  then show ?case by (cases kv) (force split: option.splits)
qed simp

lemma hm_retain_distinct: "distinct (map fst m) \<Longrightarrow> distinct (map fst (hm_retain f m))"
proof (induction m)
  case (Cons kv m)
  then show ?case
    using hm_retain_keys [of f m] by (cases kv) (force split: option.splits)
qed simp

lemma hm_retain_map_of:
  "distinct (map fst m) \<Longrightarrow>
   map_of (hm_retain f m) k = (case map_of m k of None \<Rightarrow> None | Some v \<Rightarrow> f k v)"
proof (induction m)
  case Nil
  then show ?case by simp
next
  case (Cons kv m)
  obtain k' v where kv: "kv = (k', v)" by (cases kv)
  have "k' \<notin> fst ` set (hm_retain f m)"
    using Cons.prems hm_retain_keys [of f m] by (auto simp: kv)
  then have "map_of (hm_retain f m) k' = None" by (simp add: map_of_eq_None_iff)
  with Cons show ?case by (auto simp: kv split: option.splits)
qed

interpretation hm: hash_map_retain hm_empty hm_get hm_insert hm_remove hm_entries hm_inv hm_retain
  by unfold_locales
    (auto simp: hm_defs update_conv' delete_conv' distinct_update distinct_delete fun_eq_iff
       hm_retain_distinct hm_retain_map_of)

lemmas hm_get_simps [simp] = hm.get_empty hm.get_insert hm.get_remove
lemmas hm_inv_rules [simp, inv_intros] = hm.inv_empty hm.inv_insert hm.inv_remove hm.inv_retain

lemma hm_empty_iff: "hm_inv m \<Longrightarrow> m = hm_empty \<longleftrightarrow> (\<forall>k. hm_get m k = None)"
  by (cases m) (auto simp: hm_defs)

lemma hm_len_entries: "hm_len m = length (hm_entries m)"
  by (simp add: hm_defs)

lemma hm_len_insert_fresh:
  "hm_inv m \<Longrightarrow> hm_get m k = None \<Longrightarrow> hm_len (hm_insert k v m) = Suc (hm_len m)"
  by (simp add: hm_len_entries hm.length_insert_fresh)

lemma hm_len_remove:
  "hm_inv m \<Longrightarrow> hm_get m k = Some v \<Longrightarrow> hm_len m = Suc (hm_len (hm_remove k m))"
  by (simp add: hm_len_entries hm.length_remove)

lemma hm_upsert_inv [simp, inv_intros]: "hm_inv m \<Longrightarrow> hm_inv (hm_upsert k d f m)"
  by (simp add: hm_upsert_def)

lemma hm_get_upsert:
  "hm_inv m \<Longrightarrow> hm_get (hm_upsert k d f m) =
     (hm_get m)(k \<mapsto> f (case hm_get m k of None \<Rightarrow> d | Some v \<Rightarrow> v))"
  by (simp add: hm_upsert_def)

lemma hm_values_insert_fresh:
  "hm_inv m \<Longrightarrow> hm_get m k = None \<Longrightarrow>
   mset (hm_values (hm_insert k v m)) = add_mset v (mset (hm_values m))"
  by (simp add: hm_values_def hm.entries_insert_fresh del: hm_get_simps)

lemma hm_values_remove:
  "hm_inv m \<Longrightarrow> hm_get m k = Some v \<Longrightarrow>
   mset (hm_values m) = add_mset v (mset (hm_values (hm_remove k m)))"
  using hm.entries_remove [of m k v] by (simp add: hm_values_def del: hm_get_simps)

lemma set_hm_values: "hm_inv m \<Longrightarrow> set (hm_values m) = ran (hm_get m)"
  by (auto simp: hm_values_def hm.set_entries ran_def image_iff)

lemma set_hm_keys: "hm_inv m \<Longrightarrow> set (hm_keys m) = dom (hm_get m)"
  by (force simp: hm_keys_def hm.set_entries)

text \<open>Counting values is counting keys.\<close>

lemma hm_count_values:
  assumes "hm_inv m"
  shows "size (filter_mset P (mset (hm_values m))) = card {k. \<exists>v. hm_get m k = Some v \<and> P v}"
proof -
  let ?es = "filter (\<lambda>kv. P (snd kv)) (hm_entries m)"
  have dist: "distinct (map fst ?es)"
    using hm.entries_distinct [OF assms] by (simp add: distinct_map_filter)
  have "size (filter_mset P (mset (hm_values m))) = length ?es"
    by (simp add: hm_values_def filter_mset_image_mset flip: mset_filter)
  also have "\<dots> = card (set (map fst ?es))"
    using dist by (metis distinct_card length_map)
  also have "set (map fst ?es) = {k. \<exists>v. hm_get m k = Some v \<and> P v}"
    using assms by (auto simp: hm.set_entries image_iff)
  finally show ?thesis .
qed

end
