(* ===== verification/F64.thy ===== *)
theory F64
  imports Prelude Complex_Main "HOL-Library.Log_Nat"
begin

text \<open>
  The part of Rust's \<open>f64\<close> the reputation code uses: converting a \<open>u64\<close>, dividing one
  such value by a non-zero one, and comparing with \<open><\<close>.  The quotients lie between
  2^-64 and 2^64, so no overflow, subnormal or signed zero arises and IEEE binary64
  rounding is rounding to 53 significant bits, ties to even.  Finite values are exact
  rationals; infinities and NaN can only enter through a configured threshold.
\<close>

section \<open>Rounding\<close>

definition pow2 :: "int \<Rightarrow> rat" where
  "pow2 e = (if 0 \<le> e then 2 ^ nat e else 1 / 2 ^ nat (- e))"

definition round_half_even :: "rat \<Rightarrow> int" where
  "round_half_even x =
     (let n = \<lfloor>x\<rfloor>; d = x - of_int n
      in if d < 1 / 2 then n else if 1 / 2 < d then n + 1 else if even n then n else n + 1)"

definition bin_exponent :: "rat \<Rightarrow> int" where
  "bin_exponent x =
     (let (p, q) = quotient_of x; e = bitlen p - bitlen q
      in if pow2 e \<le> x then e else e - 1)"

definition f64_round :: "rat \<Rightarrow> rat" where
  "f64_round x =
     (if x \<le> 0 then 0
      else let e = bin_exponent x
           in of_int (round_half_even (x * pow2 (52 - e))) * pow2 (e - 52))"

section \<open>The values and operations\<close>

datatype f64 = Finite rat | PosInf | NegInf | NaN

fun f64_lt :: "f64 \<Rightarrow> f64 \<Rightarrow> bool" where
  "f64_lt NaN _ = False"
| "f64_lt _ NaN = False"
| "f64_lt (Finite a) (Finite b) = (a < b)"
| "f64_lt NegInf b = (b \<noteq> NegInf)"
| "f64_lt (Finite a) b = (b = PosInf)"
| "f64_lt PosInf b = False"

text \<open>A decimal literal, and \<open>a as f64 / b as f64\<close> for a non-zero \<open>b\<close>.\<close>

definition f64_lit :: "rat \<Rightarrow> f64" where
  "f64_lit q = Finite (f64_round q)"

definition f64_of_u64 :: "u64 \<Rightarrow> rat" where
  "f64_of_u64 n = f64_round (of_nat (unat n))"

definition f64_ratio :: "u64 \<Rightarrow> u64 \<Rightarrow> f64" where
  "f64_ratio a b = Finite (f64_round (f64_of_u64 a / f64_of_u64 b))"

section \<open>Powers of two\<close>

lemma pow2_pos [simp]: "0 < pow2 e"
  by (simp add: pow2_def)

lemma pow2_nonzero [simp]: "pow2 e \<noteq> 0"
  using pow2_pos [of e] by linarith

lemma pow2_powi: "pow2 e = 2 powi e"
  by (simp add: pow2_def power_int_def power_one_over)

lemma pow2_add: "pow2 (a + b) = pow2 a * pow2 b"
  by (simp add: pow2_powi power_int_add)

lemma pow2_diff: "pow2 (a - b) = pow2 a / pow2 b"
  by (simp add: pow2_powi power_int_diff)

lemma pow2_0 [simp]: "pow2 0 = 1"
  by (simp add: pow2_def)

lemma pow2_mono: "a \<le> b \<Longrightarrow> pow2 a \<le> pow2 b"
  by (simp add: pow2_powi power_int_increasing)

lemma pow2_strict_mono: "a < b \<Longrightarrow> pow2 a < pow2 b"
  by (simp add: pow2_powi power_int_strict_increasing)

lemma pow2_less_iff: "pow2 a < pow2 b \<longleftrightarrow> a < b"
  using pow2_mono pow2_strict_mono by (metis not_less)

lemma pow2_Suc: "pow2 (e + 1) = 2 * pow2 e"
  by (simp add: pow2_add) (simp add: pow2_def)

lemma pow2_inverse: "pow2 (52 - e) * pow2 (e - 52) = 1"
  by (simp flip: pow2_add)

lemma pow2_nat: "pow2 (int n) = of_int (2 ^ n)"
  by (simp add: pow2_def)

section \<open>Rounding to an integer\<close>

lemma round_half_even_cases:
  "round_half_even x = \<lfloor>x\<rfloor> \<and> x - of_int \<lfloor>x\<rfloor> \<le> 1 / 2 \<or>
   round_half_even x = \<lfloor>x\<rfloor> + 1 \<and> 1 / 2 \<le> x - of_int \<lfloor>x\<rfloor>"
  by (auto simp: round_half_even_def Let_def not_less)

lemma round_half_even_error: "\<bar>of_int (round_half_even x) - x\<bar> \<le> 1 / 2"
  using round_half_even_cases [of x] floor_correct [of x] by auto

lemma round_half_even_mono: "x \<le> y \<Longrightarrow> round_half_even x \<le> round_half_even y"
proof -
  assume le: "x \<le> y"
  then have "\<lfloor>x\<rfloor> \<le> \<lfloor>y\<rfloor>" by (rule floor_mono)
  then consider "\<lfloor>x\<rfloor> < \<lfloor>y\<rfloor>" | "\<lfloor>x\<rfloor> = \<lfloor>y\<rfloor>" by linarith
  then show ?thesis
  proof cases
    case 1
    then show ?thesis
      using round_half_even_cases [of x] round_half_even_cases [of y] by auto
  next
    case 2
    with le show ?thesis by (auto simp: round_half_even_def Let_def)
  qed
qed

lemma round_half_even_of_int [simp]: "round_half_even (of_int n) = n"
  by (simp add: round_half_even_def)

section \<open>The binary exponent\<close>

lemma bitlen_rat:
  assumes "0 < p"
  shows "pow2 (bitlen p - 1) \<le> of_int p \<and> of_int p < pow2 (bitlen p)"
proof -
  have nn: "pow2 e = of_int (2 ^ nat e)" if "0 \<le> e" for e
    using that by (simp add: pow2_def)
  have "1 \<le> bitlen p"
    using assms bitlen_nonneg [of p] bitlen_eq_zero_iff [of p] by linarith
  then show ?thesis
    using bitlen_bounds [OF assms] by (simp add: nn bitlen_nonneg del: of_int_power)
qed

lemma bin_exponent_bounds:
  assumes "0 < x"
  shows "pow2 (bin_exponent x) \<le> x" "x < pow2 (bin_exponent x + 1)"
proof -
  obtain p q where pq: "quotient_of x = (p, q)" by (cases "quotient_of x")
  then have q: "0 < q" by (rule quotient_of_denom_pos)
  have x: "x = of_int p / of_int q" using pq by (rule quotient_of_div)
  with assms q have p: "0 < p" by (simp add: zero_less_divide_iff)
  have bp: "pow2 (bitlen p - 1) \<le> of_int p" "of_int p < pow2 (bitlen p)"
    and bq: "pow2 (bitlen q - 1) \<le> of_int q" "of_int q < pow2 (bitlen q)"
    using bitlen_rat [OF p] bitlen_rat [OF q] by simp_all
  have "x < pow2 (bitlen p) / pow2 (bitlen q - 1)"
    unfolding x using bp bq p q by (intro frac_less) auto
  then have upper: "x < pow2 (bitlen p - bitlen q + 1)"
    by (simp add: algebra_simps flip: pow2_diff)
  have "pow2 (bitlen p - 1) / pow2 (bitlen q) \<le> x"
    unfolding x using bp bq p q by (intro frac_le) auto
  then have lower: "pow2 (bitlen p - bitlen q - 1) \<le> x"
    by (simp add: algebra_simps flip: pow2_diff)
  show "pow2 (bin_exponent x) \<le> x" "x < pow2 (bin_exponent x + 1)"
    using upper lower by (simp_all add: bin_exponent_def pq Let_def)
qed

lemma bin_exponent_mono: "0 < x \<Longrightarrow> x \<le> y \<Longrightarrow> bin_exponent x \<le> bin_exponent y"
  using bin_exponent_bounds(1) [of x] bin_exponent_bounds(2) [of y]
  by (metis less_le_trans not_le order.trans pow2_less_iff zless_add1_eq order_less_le)

section \<open>Rounding to 53 bits\<close>

lemma f64_round_0 [simp]: "f64_round 0 = 0"
  by (simp add: f64_round_def)

lemma f64_round_pos:
  "0 < x \<Longrightarrow> f64_round x =
     of_int (round_half_even (x * pow2 (52 - bin_exponent x))) * pow2 (bin_exponent x - 52)"
  by (simp add: f64_round_def Let_def)

lemma scaled_bounds:
  assumes "0 < x"
  shows "2 ^ 52 \<le> x * pow2 (52 - bin_exponent x)" "x * pow2 (52 - bin_exponent x) \<le> 2 ^ 53"
proof -
  let ?e = "bin_exponent x"
  have "pow2 ?e * pow2 (52 - ?e) \<le> x * pow2 (52 - ?e)"
    and "x * pow2 (52 - ?e) \<le> pow2 (?e + 1) * pow2 (52 - ?e)"
    using bin_exponent_bounds [OF assms] by (auto intro!: mult_right_mono)
  moreover have "pow2 ?e * pow2 (52 - ?e) = 2 ^ 52" "pow2 (?e + 1) * pow2 (52 - ?e) = 2 ^ 53"
    by (simp_all flip: pow2_add) (simp_all add: pow2_def)
  ultimately show "2 ^ 52 \<le> x * pow2 (52 - ?e)" "x * pow2 (52 - ?e) \<le> 2 ^ 53" by simp_all
qed

lemma f64_round_error:
  assumes "0 < x"
  shows "\<bar>f64_round x - x\<bar> \<le> x / 2 ^ 53"
proof -
  let ?e = "bin_exponent x" and ?m = "x * pow2 (52 - bin_exponent x)"
  have "x = ?m * pow2 (?e - 52)" by (simp add: mult.assoc pow2_inverse)
  then have "f64_round x - x = (of_int (round_half_even ?m) - ?m) * pow2 (?e - 52)"
    by (metis f64_round_pos [OF assms] left_diff_distrib)
  then have "\<bar>f64_round x - x\<bar> = \<bar>of_int (round_half_even ?m) - ?m\<bar> * pow2 (?e - 52)"
    by (simp add: abs_mult less_imp_le)
  also have "\<dots> \<le> 1 / 2 * pow2 (?e - 52)"
    by (intro mult_right_mono round_half_even_error) (simp add: less_imp_le)
  also have "\<dots> = pow2 ?e / 2 ^ 53"
    by (simp add: pow2_diff) (simp add: pow2_def)
  also have "\<dots> \<le> x / 2 ^ 53"
    using bin_exponent_bounds(1) [OF assms] by (simp add: divide_right_mono)
  finally show ?thesis .
qed

lemma f64_round_positive: "0 < x \<Longrightarrow> 0 < f64_round x"
proof -
  assume x: "0 < x"
  have "x / 2 ^ 53 < x" using x by (simp add: field_simps)
  then show ?thesis using f64_round_error [OF x] by linarith
qed

lemma f64_round_binade:
  assumes "0 < x"
  shows "pow2 (bin_exponent x) \<le> f64_round x" "f64_round x \<le> pow2 (bin_exponent x + 1)"
proof -
  let ?e = "bin_exponent x" and ?m = "x * pow2 (52 - bin_exponent x)"
  have "round_half_even (of_int (2 ^ 52)) \<le> round_half_even ?m"
    and "round_half_even ?m \<le> round_half_even (of_int (2 ^ 53))"
    using scaled_bounds [OF assms] by (auto intro!: round_half_even_mono)
  then have m: "2 ^ 52 \<le> round_half_even ?m" "round_half_even ?m \<le> 2 ^ 53"
    unfolding round_half_even_of_int .
  have "of_int (2 ^ 52) * pow2 (?e - 52) \<le> f64_round x"
    unfolding f64_round_pos [OF assms] using m(1)
    by (intro mult_right_mono) (simp_all add: less_imp_le del: of_int_power)
  moreover have "f64_round x \<le> of_int (2 ^ 53) * pow2 (?e - 52)"
    unfolding f64_round_pos [OF assms] using m(2)
    by (intro mult_right_mono) (simp_all add: less_imp_le del: of_int_power)
  moreover have "of_int (2 ^ 52) * pow2 (?e - 52) = pow2 ?e"
    "of_int (2 ^ 53) * pow2 (?e - 52) = pow2 (?e + 1)"
    unfolding pow2_Suc by (simp_all add: pow2_diff) (simp_all add: pow2_def)
  ultimately show "pow2 ?e \<le> f64_round x" "f64_round x \<le> pow2 (?e + 1)" by simp_all
qed

lemma f64_round_mono:
  assumes "x \<le> y"
  shows "f64_round x \<le> f64_round y"
proof (cases "0 < x")
  case False
  then show ?thesis
    using f64_round_positive [of y] by (cases "0 < y") (auto simp: f64_round_def)
next
  case True
  with assms have y: "0 < y" by simp
  have "bin_exponent x \<le> bin_exponent y" using True assms by (rule bin_exponent_mono)
  then consider "bin_exponent x = bin_exponent y" | "bin_exponent x + 1 \<le> bin_exponent y"
    by linarith
  then show ?thesis
  proof cases
    case 1
    with assms show ?thesis
      by (auto simp: f64_round_pos [OF True] f64_round_pos [OF y] less_imp_le
          intro!: mult_right_mono round_half_even_mono)
  next
    case 2
    then have "pow2 (bin_exponent x + 1) \<le> pow2 (bin_exponent y)" by (rule pow2_mono)
    with f64_round_binade(2) [OF True] f64_round_binade(1) [OF y] show ?thesis by linarith
  qed
qed

text \<open>Integers below 2^53 are exact.\<close>

lemma f64_round_of_nat:
  assumes "n < 2 ^ 53"
  shows "f64_round (of_nat n) = of_nat n"
proof (cases "n = 0")
  case False
  let ?x = "of_nat n :: rat"
  let ?e = "bin_exponent ?x"
  have pos: "0 < ?x" using False by simp
  have "?x < of_nat (2 ^ 53)" using assms by (simp only: of_nat_less_iff)
  also have "\<dots> = pow2 53" by (simp add: pow2_def)
  finally have "pow2 ?e < pow2 53" using bin_exponent_bounds(1) [OF pos] by linarith
  then have "?e < 53" by (simp add: pow2_less_iff)
  then have "?x * pow2 (52 - ?e) = of_int (int n * 2 ^ nat (52 - ?e))"
    by (simp add: pow2_def)
  then have "round_half_even (?x * pow2 (52 - ?e)) = int n * 2 ^ nat (52 - ?e)"
    by (simp only: round_half_even_of_int)
  moreover have "of_int (int n * 2 ^ nat (52 - ?e)) = ?x * pow2 (52 - ?e)"
    using \<open>?e < 53\<close> by (simp add: pow2_def)
  ultimately have "f64_round ?x = ?x * pow2 (52 - ?e) * pow2 (?e - 52)"
    by (metis f64_round_pos [OF pos])
  then show ?thesis by (simp only: mult.assoc pow2_inverse mult_1_right)
qed simp

section \<open>Comparisons\<close>

lemma f64_lt_down: "f64_lt (Finite y) t \<Longrightarrow> x \<le> y \<Longrightarrow> f64_lt (Finite x) t"
  by (cases t) auto

lemma f64_lit_tenth: "f64_round (1 / 10) = 3602879701896397 / 36028797018963968"
  by code_simp

lemma f64_lit_hundredth: "f64_round (1 / 100) = 5764607523034235 / 576460752303423488"
  by code_simp

text \<open>
  Comparing the rounded quotient of two exact integers with the rounded literal 1/c is
  comparing the integers, when the literal is rounded up.
\<close>

lemma f64_ratio_lt_literal:
  assumes "0 < b" "b < 2 ^ 53" "0 < c" and up: "1 / of_nat c \<le> f64_round (1 / of_nat c)"
  shows "f64_round (of_nat a / of_nat b) < f64_round (1 / of_nat c) \<longleftrightarrow> c * a < b"
proof
  assume lt: "f64_round (of_nat a / of_nat b) < f64_round (1 / of_nat c)"
  show "c * a < b"
  proof (rule ccontr)
    assume "\<not> c * a < b"
    then have "(of_nat b :: rat) \<le> of_nat (c * a)" by (simp only: of_nat_le_iff)
    then have "1 / of_nat c \<le> (of_nat a / of_nat b :: rat)"
      using assms by (simp add: field_simps)
    with lt show False using f64_round_mono by (simp add: not_less [symmetric])
  qed
next
  assume lt: "c * a < b"
  let ?x = "of_nat a / of_nat b :: rat"
  have x: "?x < 1 / of_nat c"
  proof -
    have "of_nat (c * a) < (of_nat b :: rat)" using lt by (simp only: of_nat_less_iff)
    then show ?thesis using assms by (simp add: field_simps)
  qed
  show "f64_round ?x < f64_round (1 / of_nat c)"
  proof (cases "a = 0")
    case True
    then show ?thesis using assms by (simp add: f64_round_positive)
  next
    case False
    have "(c * a) * (2 ^ 53 + 1) < b * 2 ^ 53"
    proof -
      have "(c * a) * (2 ^ 53 + 1) \<le> (b - 1) * (2 ^ 53 + 1)"
        using lt by (intro mult_right_mono) auto
      also have "\<dots> < b * 2 ^ 53"
        using assms(1,2) by (simp add: diff_mult_distrib algebra_simps)
      finally show ?thesis .
    qed
    then have "of_nat ((c * a) * (2 ^ 53 + 1)) < (of_nat (b * 2 ^ 53) :: rat)"
      by (simp only: of_nat_less_iff)
    then have "?x + ?x / 2 ^ 53 < 1 / of_nat c"
      using assms by (simp add: field_simps)
    moreover have "f64_round ?x \<le> ?x + ?x / 2 ^ 53"
      using f64_round_error [of ?x] False assms by simp
    ultimately show ?thesis using up by linarith
  qed
qed

end
