(* ===== verification/Chain_Types.thy ===== *)
theory Chain_Types
  imports Prelude
begin

text \<open>
  The data of \<open>crates/types\<close>: gas fees (\<open>gas.rs\<close>), entities (\<open>entity.rs\<close>), the
  chain specification (\<open>chain.rs\<close>), the chain events (\<open>event.rs\<close>) and the error
  enums (\<open>error.rs\<close>).  A \<open>String\<close> payload that the code builds with \<open>format!\<close> is
  modelled by a datatype of its arguments, so that no claim depends on how a library
  prints an address.
\<close>

section \<open>Gas fees\<close>

record gas_fees =
  gf_max_fee :: u128
  gf_max_priority :: u128

definition gas_fees_new :: "u128 \<Rightarrow> u128 \<Rightarrow> gas_fees" where
  "gas_fees_new max_fee priority = \<lparr>gf_max_fee = max_fee, gf_max_priority = priority\<rparr>"

definition effective_gas_price :: "gas_fees \<Rightarrow> u128 \<Rightarrow> u128" where
  "effective_gas_price f base_fee = min (gf_max_fee f) (base_fee + gf_max_priority f)"

definition covers :: "gas_fees \<Rightarrow> u128 \<Rightarrow> u128 \<Rightarrow> bool" where
  "covers f base_fee min_priority \<longleftrightarrow>
     gf_max_fee f \<ge> base_fee + min_priority \<and> gf_max_priority f \<ge> min_priority"

definition increase_by_percent :: "gas_fees \<Rightarrow> u32 \<Rightarrow> gas_fees" where
  "increase_by_percent f basis_points =
     (let multiplier = 10000 + ucast basis_points :: u128 in
      \<lparr>gf_max_fee = gf_max_fee f * multiplier div 10000,
       gf_max_priority = gf_max_priority f * multiplier div 10000\<rparr>)"

record gas_estimate =
  ge_pre_verification_gas :: u128
  ge_call_gas_limit :: u128
  ge_verification_gas_limit :: u128
  ge_paymaster_verification_gas_limit :: "u128 option"

lemma gas_fees_new_simps [simp]:
  "gf_max_fee (gas_fees_new a b) = a" "gf_max_priority (gas_fees_new a b) = b"
  by (simp_all add: gas_fees_new_def)

lemma effective_le_max: "effective_gas_price f b \<le> gf_max_fee f"
  by (simp add: effective_gas_price_def)

text \<open>Without overflow the two comparisons are those of the mathematical values.\<close>

lemma unat_effective_gas_price:
  assumes "unat b + unat (gf_max_priority f) < 2 ^ 128"
  shows "unat (effective_gas_price f b) =
    min (unat (gf_max_fee f)) (unat b + unat (gf_max_priority f))"
  using assms by (simp add: effective_gas_price_def min_def word_le_nat_alt unat_add_fits)

lemma covers_iff:
  assumes "unat b + unat p < 2 ^ 128"
  shows "covers f b p \<longleftrightarrow>
    unat b + unat p \<le> unat (gf_max_fee f) \<and> unat p \<le> unat (gf_max_priority f)"
  using assms by (simp add: covers_def word_le_nat_alt unat_add_fits)

text \<open>Multiplying by basis points, the shape shared by every fee bump of the program.\<close>

definition mul_bps :: "u128 \<Rightarrow> u32 \<Rightarrow> u128" where
  "mul_bps fee bps = fee * (10000 + ucast bps) div 10000"

lemma unat_bps_multiplier: "unat (10000 + ucast (bps :: u32) :: u128) = 10000 + unat bps"
proof -
  have "unat (ucast bps :: u128) = unat bps" by (simp add: unat_ucast_up)
  moreover have "unat bps < 2 ^ 32" using unsigned_less [of bps] by simp
  ultimately show ?thesis by (subst unat_add_fits) auto
qed

lemma unat_mul_bps:
  assumes "unat fee * (10000 + unat bps) < 2 ^ 128"
  shows "unat (mul_bps fee bps) = unat fee * (10000 + unat bps) div 10000"
  using assms unat_mult_fits [of fee "10000 + ucast bps"]
  by (simp add: mul_bps_def unat_div_distrib unat_bps_multiplier)

lemma mul_bps_ge:
  assumes "unat fee * (10000 + unat bps) < 2 ^ 128"
  shows "fee \<le> mul_bps fee bps"
proof -
  have "unat fee * 10000 \<le> unat fee * (10000 + unat bps)" by simp
  then have "unat fee \<le> unat fee * (10000 + unat bps) div 10000"
    by (metis div_le_mono nonzero_mult_div_cancel_right zero_neq_numeral)
  then show ?thesis by (simp add: word_le_nat_alt unat_mul_bps [OF assms])
qed

lemma increase_by_percent_mul_bps:
  "increase_by_percent f bps =
     \<lparr>gf_max_fee = mul_bps (gf_max_fee f) bps, gf_max_priority = mul_bps (gf_max_priority f) bps\<rparr>"
  by (simp add: increase_by_percent_def mul_bps_def Let_def)

section \<open>Entities\<close>

datatype entity_type = Account | Paymaster | Factory | Aggregator

record entity =
  en_kind :: entity_type
  en_address :: address

definition entity_new :: "entity_type \<Rightarrow> address \<Rightarrow> entity" where
  "entity_new k a = \<lparr>en_kind = k, en_address = a\<rparr>"

definition entity_account :: "address \<Rightarrow> entity" where
  "entity_account a = entity_new Account a"

definition entity_paymaster :: "address \<Rightarrow> entity" where
  "entity_paymaster a = entity_new Paymaster a"

definition entity_factory :: "address \<Rightarrow> entity" where
  "entity_factory a = entity_new Factory a"

definition entity_aggregator :: "address \<Rightarrow> entity" where
  "entity_aggregator a = entity_new Aggregator a"

lemmas entity_defs = entity_account_def entity_paymaster_def entity_factory_def
  entity_aggregator_def entity_new_def

record entity_info =
  ei_entity :: entity
  ei_is_staked :: bool

record entity_infos =
  eis_sender :: entity_info
  eis_factory :: "entity_info option"
  eis_paymaster :: "entity_info option"
  eis_aggregator :: "entity_info option"

text \<open>\<open>Option::iter\<close> as a list of at most one element.\<close>

definition opt_iter :: "'a option \<Rightarrow> 'a list" where
  "opt_iter x = (case x of None \<Rightarrow> [] | Some a \<Rightarrow> [a])"

definition entity_infos_entities :: "entity_infos \<Rightarrow> entity_info list" where
  "entity_infos_entities i =
     [eis_sender i] @ opt_iter (eis_factory i) @ opt_iter (eis_paymaster i)
       @ opt_iter (eis_aggregator i)"

datatype entity_update_type = UnstakedInvalidation | StakedInvalidation

record entity_update =
  eu_entity :: entity
  eu_update_type :: entity_update_type

section \<open>Chain specification\<close>

record chain_spec =
  cs_name :: string
  cs_id :: u64
  cs_entry_point_v0_7 :: address
  cs_eip1559_enabled :: bool
  cs_deposit_transfer_overhead :: u64
  cs_max_transaction_size_bytes :: nat
  cs_block_gas_limit :: u64
  cs_transaction_intrinsic_gas :: u64
  cs_per_user_op_v0_7_gas :: u64
  cs_per_user_op_deploy_overhead_gas :: u64
  cs_per_user_op_word_gas :: u64
  cs_calldata_zero_byte_gas :: u64
  cs_calldata_non_zero_byte_gas :: u64
  cs_bundle_max_send_interval_millis :: u64
  cs_required_confirmations :: u64
  cs_max_bundle_size :: nat
  cs_max_pool_size :: nat
  cs_max_ops_per_sender :: nat
  cs_chain_history_size :: u64
  cs_nonce_gap_limit :: u64
  cs_min_max_priority_fee_per_gas :: u128
  cs_max_max_priority_fee_per_gas :: u128
  cs_replacement_fee_bump_bps :: u32

definition entry_points :: "chain_spec \<Rightarrow> address list" where
  "entry_points cs = [cs_entry_point_v0_7 cs]"

definition is_entry_point :: "chain_spec \<Rightarrow> address \<Rightarrow> bool" where
  "is_entry_point cs a \<longleftrightarrow> a = cs_entry_point_v0_7 cs"

definition chain_spec_mainnet :: chain_spec where
  "chain_spec_mainnet =
    \<lparr>cs_name = ''mainnet'',
     cs_id = 1,
     cs_entry_point_v0_7 = 0x0000000071727De22E5E9d8BAf0edAc6f37da032,
     cs_eip1559_enabled = True,
     cs_deposit_transfer_overhead = 30000,
     cs_max_transaction_size_bytes = 131072,
     cs_block_gas_limit = 30000000,
     cs_transaction_intrinsic_gas = 21000,
     cs_per_user_op_v0_7_gas = 19500,
     cs_per_user_op_deploy_overhead_gas = 10000,
     cs_per_user_op_word_gas = 4,
     cs_calldata_zero_byte_gas = 4,
     cs_calldata_non_zero_byte_gas = 16,
     cs_bundle_max_send_interval_millis = 1000,
     cs_required_confirmations = 3,
     cs_max_bundle_size = 16,
     cs_max_pool_size = 4096,
     cs_max_ops_per_sender = 4,
     cs_chain_history_size = 128,
     cs_nonce_gap_limit = 20,
     cs_min_max_priority_fee_per_gas = 100000000,
     cs_max_max_priority_fee_per_gas = 50000000000000,
     cs_replacement_fee_bump_bps = 1000\<rparr>"

definition chain_spec_dev :: chain_spec where
  "chain_spec_dev =
    \<lparr>cs_name = ''dev'',
     cs_id = 31337,
     cs_entry_point_v0_7 = 0,
     cs_eip1559_enabled = True,
     cs_deposit_transfer_overhead = 30000,
     cs_max_transaction_size_bytes = 131072,
     cs_block_gas_limit = 30000000,
     cs_transaction_intrinsic_gas = 21000,
     cs_per_user_op_v0_7_gas = 19500,
     cs_per_user_op_deploy_overhead_gas = 10000,
     cs_per_user_op_word_gas = 4,
     cs_calldata_zero_byte_gas = 4,
     cs_calldata_non_zero_byte_gas = 16,
     cs_bundle_max_send_interval_millis = 100,
     cs_required_confirmations = 1,
     cs_max_bundle_size = 16,
     cs_max_pool_size = 4096,
     cs_max_ops_per_sender = 4,
     cs_chain_history_size = 64,
     cs_nonce_gap_limit = 20,
     cs_min_max_priority_fee_per_gas = 0,
     cs_max_max_priority_fee_per_gas = 50000000000000,
     cs_replacement_fee_bump_bps = 1000\<rparr>"

text \<open>\<open>Default for ChainSpec\<close>.\<close>

definition chain_spec_default :: chain_spec where
  "chain_spec_default = chain_spec_mainnet"

section \<open>Events\<close>

datatype op_removal_reason = Mined | Replaced | Evicted | Reorged | Expired | Dropped

datatype pool_event =
    OpAdded b256 address u256
  | OpRemoved b256 op_removal_reason
  | Cleared

datatype builder_event =
    BundleProposed nat u64
  | BundleSubmitted b256 nat u64
  | BundleMined b256 u64 u64
  | BundleDropped b256 string
  | FeeEscalated b256 b256 u32

text \<open>\<open>NewBlock number hash base_fee timestamp\<close> and \<open>Reorg depth new_head\<close>.\<close>

datatype chain_event =
    NewBlock u64 b256 u128 u64
  | Reorg u64 u64

section \<open>Errors\<close>

text \<open>The messages that validation and the pool put into their \<open>Other\<close> variants.\<close>

datatype validation_msg =
    InvalidNonceSequence u64 address u256 u64  \<comment> \<open>expected, sender, key, got\<close>
  | EntityIsThrottled entity
  | EntityIsBanned entity

datatype validation_error =
    InvalidSender address
  | InvalidNonce u128 u128
  | GasTooLow string u128 u128
  | GasTooHigh string u128 u128
  | MaxFeeTooLow u128 u128
  | PriorityFeeExceedsMaxFee u128 u128
  | PaymasterDepositTooLow address
  | CallDataTooLarge nat nat
  | SimulationReverted string
  | InvalidSignature string
  | ForbiddenOpcode string
  | ForbiddenStorageAccess string
  | ExpiredOrNotDue u64 u64
  | ValidationOther validation_msg

datatype provider_error =
    Transport string
  | ContractRevert string
  | EntryPointError string
  | SimulationFailed string
  | InvalidResponse string
  | ProviderOther string

text \<open>The \<open>Display\<close> text of a provider error, from its \<open>#[error]\<close> attributes.\<close>

fun display_provider_error :: "provider_error \<Rightarrow> string" where
  "display_provider_error (Transport m) = ''rpc transport error: '' @ m"
| "display_provider_error (ContractRevert m) = ''contract revert: '' @ m"
| "display_provider_error (EntryPointError m) = ''entry point error: '' @ m"
| "display_provider_error (SimulationFailed m) = ''simulation failed: '' @ m"
| "display_provider_error (InvalidResponse m) = ''invalid response: '' @ m"
| "display_provider_error (ProviderOther m) = m"

datatype signer_error =
    NoSigner
  | SigningFailed string
  | SignerOther string

text \<open>A fee that covers the market pays at least the requested tip on top of the base fee.\<close>

lemma covers_effective:
  assumes "covers f b p" "unat b + unat p < 2 ^ 128"
    and "unat b + unat (gf_max_priority f) < 2 ^ 128"
  shows "unat b + unat p \<le> unat (effective_gas_price f b)"
  using assms by (simp add: covers_iff unat_effective_gas_price)

end
