(* ===== verification/Reputation.thy ===== *)
theory Reputation
  imports Hash_Map F64 Chain_Types
begin

text \<open>
  \<open>crates/pool/src/reputation.rs\<close>: the inclusion counters of every entity address, the
  status computed from their ratio, and the hourly decay.  The manager's lock is taken
  once per operation, so each operation is one function on the state.
\<close>

section \<open>State and operations\<close>

datatype reputation_status = Ok | Throttled | Banned

record reputation_entry =
  re_ops_seen :: u64
  re_ops_included :: u64

record reputation_config =
  rc_min_ops_for_throttle :: u64
  rc_throttle_threshold :: f64
  rc_ban_threshold :: f64

definition reputation_config_default :: reputation_config where
  "reputation_config_default =
     \<lparr>rc_min_ops_for_throttle = 10,
      rc_throttle_threshold = f64_lit (1 / 10),
      rc_ban_threshold = f64_lit (1 / 100)\<rparr>"

record reputation_manager =
  rm_entries :: "(address, reputation_entry) hmap"
  rm_config :: reputation_config

definition reputation_entry_new :: reputation_entry where
  "reputation_entry_new = \<lparr>re_ops_seen = 0, re_ops_included = 0\<rparr>"

definition entry_status :: "reputation_config \<Rightarrow> reputation_entry \<Rightarrow> reputation_status" where
  "entry_status cfg e =
     (if re_ops_seen e = 0 then Ok
      else if rc_min_ops_for_throttle cfg < re_ops_seen e then
        (let ratio = f64_ratio (re_ops_included e) (re_ops_seen e)
         in if f64_lt ratio (rc_ban_threshold cfg) then Banned
            else if f64_lt ratio (rc_throttle_threshold cfg) then Throttled
            else Ok)
      else Ok)"

definition rm_new :: "reputation_config \<Rightarrow> reputation_manager" where
  "rm_new cfg = \<lparr>rm_entries = hm_empty, rm_config = cfg\<rparr>"

definition rm_default :: reputation_manager where
  "rm_default = rm_new reputation_config_default"

definition rm_status :: "reputation_manager \<Rightarrow> address \<Rightarrow> reputation_status" where
  "rm_status m a =
     (case hm_get (rm_entries m) a of
        Some e \<Rightarrow> entry_status (rm_config m) e
      | None \<Rightarrow> Ok)"

definition check_entity :: "reputation_manager \<Rightarrow> entity \<Rightarrow> reputation_status + unit" where
  "check_entity m en =
     (case rm_status m (en_address en) of Ok \<Rightarrow> Inr () | status \<Rightarrow> Inl status)"

definition record_seen :: "address \<Rightarrow> reputation_manager \<Rightarrow> reputation_manager" where
  "record_seen a m =
     m\<lparr>rm_entries := hm_upsert a reputation_entry_new
         (\<lambda>e. e\<lparr>re_ops_seen := re_ops_seen e + 1\<rparr>) (rm_entries m)\<rparr>"

definition record_included :: "address \<Rightarrow> reputation_manager \<Rightarrow> reputation_manager" where
  "record_included a m =
     m\<lparr>rm_entries := hm_upsert a reputation_entry_new
         (\<lambda>e. e\<lparr>re_ops_included := re_ops_included e + 1\<rparr>) (rm_entries m)\<rparr>"

definition decay_entry :: "reputation_entry \<Rightarrow> reputation_entry option" where
  "decay_entry e =
     (let e' = \<lparr>re_ops_seen = re_ops_seen e * 23 div 24,
                re_ops_included = re_ops_included e * 23 div 24\<rparr>
      in if 0 < re_ops_seen e' \<or> 0 < re_ops_included e' then Some e' else None)"

definition hourly_decay :: "reputation_manager \<Rightarrow> reputation_manager" where
  "hourly_decay m = m\<lparr>rm_entries := hm_retain (\<lambda>_. decay_entry) (rm_entries m)\<rparr>"

definition rm_clear :: "reputation_manager \<Rightarrow> reputation_manager" where
  "rm_clear m = m\<lparr>rm_entries := hm_empty\<rparr>"

definition rm_dump :: "reputation_manager \<Rightarrow> (address \<times> reputation_status) list" where
  "rm_dump m = map (\<lambda>(a, e). (a, entry_status (rm_config m) e)) (hm_entries (rm_entries m))"

definition rm_inv :: "reputation_manager \<Rightarrow> bool" where
  "rm_inv m \<longleftrightarrow> hm_inv (rm_entries m)"

section \<open>Preservation and frame\<close>

lemma rm_inv_ops [inv_intros, simp]:
  "rm_inv (rm_new cfg)"
  "rm_inv m \<Longrightarrow> rm_inv (record_seen a m)"
  "rm_inv m \<Longrightarrow> rm_inv (record_included a m)"
  "rm_inv m \<Longrightarrow> rm_inv (hourly_decay m)"
  "rm_inv (rm_clear m)"
  by (simp_all add: rm_inv_def rm_new_def record_seen_def record_included_def hourly_decay_def
      rm_clear_def)

lemma rm_config_ops [simp]:
  "rm_config (rm_new cfg) = cfg"
  "rm_config (record_seen a m) = rm_config m"
  "rm_config (record_included a m) = rm_config m"
  "rm_config (hourly_decay m) = rm_config m"
  "rm_config (rm_clear m) = rm_config m"
  by (simp_all add: rm_new_def record_seen_def record_included_def hourly_decay_def rm_clear_def)

text \<open>The counters of an address, zero when it has no entry.\<close>

definition seen :: "reputation_manager \<Rightarrow> address \<Rightarrow> u64" where
  "seen m a = (case hm_get (rm_entries m) a of Some e \<Rightarrow> re_ops_seen e | None \<Rightarrow> 0)"

definition included :: "reputation_manager \<Rightarrow> address \<Rightarrow> u64" where
  "included m a = (case hm_get (rm_entries m) a of Some e \<Rightarrow> re_ops_included e | None \<Rightarrow> 0)"

lemma counters_new [simp]: "seen (rm_new cfg) a = 0" "included (rm_new cfg) a = 0"
  by (simp_all add: seen_def included_def rm_new_def)

lemma counters_record_seen:
  "rm_inv m \<Longrightarrow> seen (record_seen a m) b = (if b = a then seen m a + 1 else seen m b)"
  "rm_inv m \<Longrightarrow> included (record_seen a m) b = included m b"
  by (auto simp: seen_def included_def record_seen_def rm_inv_def hm_get_upsert
      reputation_entry_new_def split: option.split)

lemma counters_record_included:
  "rm_inv m \<Longrightarrow> included (record_included a m) b = (if b = a then included m a + 1 else included m b)"
  "rm_inv m \<Longrightarrow> seen (record_included a m) b = seen m b"
  by (auto simp: seen_def included_def record_included_def rm_inv_def hm_get_upsert
      reputation_entry_new_def split: option.split)

lemma counters_hourly_decay:
  "rm_inv m \<Longrightarrow> seen (hourly_decay m) a = seen m a * 23 div 24"
  "rm_inv m \<Longrightarrow> included (hourly_decay m) a = included m a * 23 div 24"
  by (auto simp: seen_def included_def hourly_decay_def rm_inv_def hm.get_retain decay_entry_def
      Let_def word_neq_0_conv [symmetric] split: option.split)

text \<open>The status is a function of the two counters.\<close>

lemma rm_status_counters:
  "rm_status m a =
     entry_status (rm_config m) \<lparr>re_ops_seen = seen m a, re_ops_included = included m a\<rparr>"
  by (auto simp: rm_status_def seen_def included_def entry_status_def split: option.split)

lemma rm_status_new [simp]: "rm_status (rm_new cfg) a = Ok"
  by (simp add: rm_status_counters entry_status_def)

lemma check_entity_Inr: "check_entity m en = Inr () \<longleftrightarrow> rm_status m (en_address en) = Ok"
  by (simp add: check_entity_def split: reputation_status.split)

lemma check_entity_Inl: "check_entity m en = Inl st \<longleftrightarrow> st = rm_status m (en_address en) \<and> st \<noteq> Ok"
  by (auto simp: check_entity_def split: reputation_status.split)

lemma default_status_cases:
  assumes "unat (re_ops_seen e) < 2 ^ 53" "unat (re_ops_included e) < 2 ^ 53"
  shows "entry_status reputation_config_default e =
    (if unat (re_ops_seen e) \<le> 10 then Ok
     else if 100 * unat (re_ops_included e) < unat (re_ops_seen e) then Banned
     else if 10 * unat (re_ops_included e) < unat (re_ops_seen e) then Throttled
     else Ok)"
proof (cases "unat (re_ops_seen e) \<le> 10")
  case True
  then show ?thesis
    by (simp add: entry_status_def reputation_config_default_def word_less_nat_alt)
next
  case False
  let ?s = "unat (re_ops_seen e)" and ?i = "unat (re_ops_included e)"
  have s: "0 < ?s" using False by simp
  have lt: "f64_lt (f64_ratio (re_ops_included e) (re_ops_seen e)) (f64_lit (1 / of_nat c)) \<longleftrightarrow> c * ?i < ?s"
    if "0 < c" "1 / of_nat c \<le> f64_round (1 / of_nat c)" for c
    using f64_ratio_lt_literal [OF s assms(1) that, of ?i] assms
    by (simp add: f64_ratio_def f64_lit_def f64_of_u64_def f64_round_of_nat
        del: of_nat_unat)
  have "f64_lt (f64_ratio (re_ops_included e) (re_ops_seen e)) (f64_lit (1 / 100)) \<longleftrightarrow> 100 * ?i < ?s"
    using lt [of 100] f64_lit_hundredth by simp
  moreover have "f64_lt (f64_ratio (re_ops_included e) (re_ops_seen e)) (f64_lit (1 / 10)) \<longleftrightarrow> 10 * ?i < ?s"
    using lt [of 10] f64_lit_tenth by simp
  moreover have "re_ops_seen e \<noteq> 0" using s by (metis less_irrefl unsigned_0)
  ultimately show ?thesis
    using False by (simp add: entry_status_def reputation_config_default_def word_less_nat_alt)
qed

section \<open>Properties\<close>

text \<open>
  Claim C18.  With the default configuration the floating-point status is the exact integer
  comparison as long as both counters are below 2^53: no throttling up to ten operations,
  then banned below one inclusion in a hundred, throttled below one in ten.
\<close>

theorem default_status_exact:
  assumes "unat (re_ops_seen e) < 2 ^ 53" "unat (re_ops_included e) < 2 ^ 53"
  shows "entry_status reputation_config_default e =
    (if unat (re_ops_seen e) \<le> 10 then Ok
     else if 100 * unat (re_ops_included e) < unat (re_ops_seen e) then Banned
     else if 10 * unat (re_ops_included e) < unat (re_ops_seen e) then Throttled
     else Ok)"
  using assms by (rule default_status_cases)

theorem default_status_exact_witness:
  "entry_status reputation_config_default \<lparr>re_ops_seen = 101, re_ops_included = 1\<rparr> = Banned \<and>
   entry_status reputation_config_default \<lparr>re_ops_seen = 100, re_ops_included = 1\<rparr> = Throttled \<and>
   entry_status reputation_config_default \<lparr>re_ops_seen = 20, re_ops_included = 2\<rparr> = Ok"
  by (simp add: default_status_exact)

text \<open>The statuses in the order of their consequences: \<open>Ok\<close> below \<open>Throttled\<close> below \<open>Banned\<close>.\<close>

fun severity :: "reputation_status \<Rightarrow> nat" where
  "severity Ok = 0"
| "severity Throttled = 1"
| "severity Banned = 2"

lemma severity_inject: "severity s = severity s' \<longleftrightarrow> s = s'"
  by (cases s; cases s') simp_all

instantiation reputation_status :: linorder
begin

definition less_eq_reputation_status :: "reputation_status \<Rightarrow> reputation_status \<Rightarrow> bool" where
  "less_eq_reputation_status s s' \<longleftrightarrow> severity s \<le> severity s'"

definition less_reputation_status :: "reputation_status \<Rightarrow> reputation_status \<Rightarrow> bool" where
  "less_reputation_status s s' \<longleftrightarrow> severity s < severity s'"

instance
  by intro_classes (auto simp: less_eq_reputation_status_def less_reputation_status_def severity_inject)

end

lemma status_le_simps [simp]:
  "Ok \<le> s" "s \<le> Banned" "Throttled \<le> Ok \<longleftrightarrow> False" "Banned \<le> Ok \<longleftrightarrow> False" "Banned \<le> Throttled \<longleftrightarrow> False"
  by (cases s; simp add: less_eq_reputation_status_def)+

lemma f64_of_u64_mono: "a \<le> b \<Longrightarrow> f64_of_u64 a \<le> f64_of_u64 b"
  unfolding f64_of_u64_def by (intro f64_round_mono) (simp only: of_nat_le_iff word_le_nat_alt)

lemma f64_of_u64_nonneg: "0 \<le> f64_of_u64 a"
  using f64_of_u64_mono [of 0 a] by (simp add: f64_of_u64_def)

lemma f64_ratio_mono:
  assumes "a \<le> b"
  shows "\<exists>x y. f64_ratio a s = Finite x \<and> f64_ratio b s = Finite y \<and> x \<le> y"
  using f64_of_u64_mono [OF assms] f64_of_u64_nonneg [of s]
  by (simp add: f64_ratio_def f64_round_mono divide_right_mono)

lemma entry_status_mono:
  assumes "i \<le> j"
  shows "entry_status cfg \<lparr>re_ops_seen = s, re_ops_included = j\<rparr>
       \<le> entry_status cfg \<lparr>re_ops_seen = s, re_ops_included = i\<rparr>"
proof -
  obtain x y where "f64_ratio i s = Finite x" "f64_ratio j s = Finite y" "x \<le> y"
    using f64_ratio_mono [OF assms] by blast
  then show ?thesis
    by (auto simp: entry_status_def Let_def dest: f64_lt_down)
qed

text \<open>
  Recording an inclusion never makes any status worse, for every configuration
  (thresholds that are infinite or NaN included), unless the inclusion counter of the
  address wraps.
\<close>

theorem record_included_never_worse:
  assumes "rm_inv m" "included m a \<noteq> - 1"
  shows "rm_status (record_included a m) b \<le> rm_status m b"
proof -
  have "included m a \<le> included m a + 1"
    using assms(2) by (simp add: word_le_nat_alt unat_inc)
  then show ?thesis
    using assms(1) by (auto simp: rm_status_counters counters_record_included intro!: entry_status_mono)
qed

theorem record_included_never_worse_witness:
  "rm_status (record_included 7 (record_seen 7 rm_default)) 7 \<le> rm_status (record_seen 7 rm_default) 7"
  by (rule record_included_never_worse)
    (simp_all add: rm_default_def counters_record_seen)

lemma unat_decay:
  fixes c :: u64
  assumes "unat c < 2 ^ 59"
  shows "unat (c * 23 div 24) = unat c * 23 div 24"
  using assms unat_mult_fits [of c 23] by (simp add: unat_div_distrib)

lemma decay_decreases:
  fixes c :: u64
  assumes "unat c \<le> Suc n" "Suc n < 2 ^ 59"
  shows "unat (c * 23 div 24) \<le> n"
  using assms by (subst unat_decay) auto

lemma hourly_decay_absent:
  "rm_inv m \<Longrightarrow> seen m a = 0 \<Longrightarrow> included m a = 0 \<Longrightarrow> hm_get (rm_entries (hourly_decay m)) a = None"
  by (auto simp: hourly_decay_def rm_inv_def hm.get_retain seen_def included_def decay_entry_def
      split: option.split)

text \<open>
  Hourly decay forgets everyone: when no counter exceeds n (below 2^59, so the
  multiplication by 23 does not wrap), n + 1 decays with no new operation leave the tracker
  empty.
\<close>

theorem decay_forgets:
  assumes "rm_inv m" "n < 2 ^ 59"
    and "\<And>a. unat (seen m a) \<le> n" "\<And>a. unat (included m a) \<le> n"
  shows "rm_entries ((hourly_decay ^^ Suc n) m) = hm_empty"
  using assms
proof (induction n arbitrary: m)
  case 0
  then have "hm_get (rm_entries (hourly_decay m)) a = None" for a
    by (simp add: hourly_decay_absent unat_eq_0)
  moreover have "hm_inv (rm_entries (hourly_decay m))"
    using 0 rm_inv_ops(4) by (simp add: rm_inv_def)
  ultimately show ?case by (simp add: hm_empty_iff)
next
  case (Suc n)
  have "rm_entries ((hourly_decay ^^ Suc n) (hourly_decay m)) = hm_empty"
    using Suc.prems
    by (intro Suc.IH) (simp_all add: counters_hourly_decay decay_decreases)
  then show ?case by (simp only: funpow_Suc_right o_apply)
qed

theorem decay_forgets_witness:
  "rm_entries ((hourly_decay ^^ Suc 1) (record_seen 7 rm_default)) = hm_empty"
  by (rule decay_forgets) (simp_all add: rm_default_def counters_record_seen)

end
