(* ===== verification/BTree_Set.thy ===== *)
theory BTree_Set
  imports Prelude
begin

text \<open>
  \<open>std::collections::BTreeSet\<close> over a type with a hand-written \<open>Ord::cmp\<close>: the set is
  the list of its elements in iteration order, and every operation uses only the
  comparison, as the B-tree does.  Inserting an element that compares \<open>Equal\<close> to one
  in the set changes nothing; removing looks the element up by \<open>cmp\<close> alone.  The
  locale \<open>total_cmp\<close> is the contract of \<open>Ord\<close>: its laws are what the std
  documentation asks of an implementation.
\<close>

datatype ordering = Less | Equal | Greater

text \<open>\<open>Ord::cmp\<close> of the built-in integers, and \<open>Ordering::then_with\<close>.\<close>

definition cmp_of :: "'a::linorder \<Rightarrow> 'a \<Rightarrow> ordering" where
  "cmp_of a b = (if a < b then Less else if a = b then Equal else Greater)"

definition then_with :: "ordering \<Rightarrow> ordering \<Rightarrow> ordering" where
  "then_with o1 o2 = (case o1 of Equal \<Rightarrow> o2 | _ \<Rightarrow> o1)"

fun bts_insert :: "('a \<Rightarrow> 'a \<Rightarrow> ordering) \<Rightarrow> 'a \<Rightarrow> 'a list \<Rightarrow> 'a list" where
  "bts_insert cmp x [] = [x]"
| "bts_insert cmp x (y # ys) =
     (case cmp x y of
        Less \<Rightarrow> x # y # ys
      | Equal \<Rightarrow> y # ys
      | Greater \<Rightarrow> y # bts_insert cmp x ys)"

fun bts_remove :: "('a \<Rightarrow> 'a \<Rightarrow> ordering) \<Rightarrow> 'a \<Rightarrow> 'a list \<Rightarrow> 'a list" where
  "bts_remove cmp x [] = []"
| "bts_remove cmp x (y # ys) =
     (case cmp x y of
        Less \<Rightarrow> y # ys
      | Equal \<Rightarrow> ys
      | Greater \<Rightarrow> y # bts_remove cmp x ys)"

definition bts_sorted :: "('a \<Rightarrow> 'a \<Rightarrow> ordering) \<Rightarrow> 'a list \<Rightarrow> bool" where
  "bts_sorted cmp = sorted_wrt (\<lambda>x y. cmp x y = Less)"

lemma bts_sorted_simps [simp]:
  "bts_sorted cmp []"
  "bts_sorted cmp (x # xs) \<longleftrightarrow> (\<forall>y\<in>set xs. cmp x y = Less) \<and> bts_sorted cmp xs"
  by (simp_all add: bts_sorted_def)

lemma bts_insert_subset: "set (bts_insert cmp x xs) \<subseteq> insert x (set xs)"
  by (induction xs) (auto split: ordering.splits)

lemma bts_remove_subset: "set (bts_remove cmp x xs) \<subseteq> set xs"
  by (induction xs) (auto split: ordering.splits)

locale total_cmp =
  fixes cmp :: "'a \<Rightarrow> 'a \<Rightarrow> ordering"
  assumes cmp_refl: "cmp x x = Equal"
    and cmp_swap: "cmp x y = Less \<longleftrightarrow> cmp y x = Greater"
    and cmp_trans: "cmp x y = Less \<Longrightarrow> cmp y z = Less \<Longrightarrow> cmp x z = Less"
    and cmp_equal: "cmp x y = Equal \<Longrightarrow> cmp x z = cmp y z"
begin

lemma cmp_equal_sym: "cmp x y = Equal \<longleftrightarrow> cmp y x = Equal"
  by (metis cmp_equal cmp_refl)

lemma cmp_less_irrefl: "cmp x y = Less \<Longrightarrow> cmp y x \<noteq> Less"
  by (metis cmp_swap ordering.distinct(3))

lemma sorted_insert: "bts_sorted cmp xs \<Longrightarrow> bts_sorted cmp (bts_insert cmp x xs)"
proof (induction xs)
  case (Cons y ys)
  show ?case
  proof (cases "cmp x y")
    case Less
    with Cons.prems show ?thesis by (auto intro: cmp_trans)
  next
    case Equal
    with Cons.prems show ?thesis by simp
  next
    case Greater
    then have "cmp y x = Less" by (simp add: cmp_swap)
    with Greater Cons show ?thesis
      using bts_insert_subset [of cmp x ys] by auto
  qed
qed simp

lemma sorted_remove: "bts_sorted cmp xs \<Longrightarrow> bts_sorted cmp (bts_remove cmp x xs)"
proof (induction xs)
  case (Cons y ys)
  then show ?case
    using bts_remove_subset [of cmp x ys] by (auto split: ordering.split)
qed simp

lemma insert_fresh:
  "\<forall>y\<in>set xs. cmp x y \<noteq> Equal \<Longrightarrow> mset (bts_insert cmp x xs) = add_mset x (mset xs)"
  by (induction xs) (auto split: ordering.splits)

lemma insert_present:
  "bts_sorted cmp xs \<Longrightarrow> y \<in> set xs \<Longrightarrow> cmp x y = Equal \<Longrightarrow> bts_insert cmp x xs = xs"
proof (induction xs)
  case (Cons z zs)
  have "cmp x z = Greater" if "y \<in> set zs"
  proof -
    have "cmp z y = Less" using Cons.prems that by simp
    then have "cmp y z = Greater" by (simp add: cmp_swap)
    then show ?thesis using Cons.prems(3) cmp_equal by metis
  qed
  with Cons show ?case by (auto split: ordering.splits)
qed simp

text \<open>On a sorted set the search by \<open>cmp\<close> finds the element if it is there.\<close>

lemma remove_present:
  "bts_sorted cmp xs \<Longrightarrow> y \<in> set xs \<Longrightarrow> cmp x y = Equal \<Longrightarrow>
   mset xs = add_mset y (mset (bts_remove cmp x xs))"
proof (induction xs)
  case (Cons z zs)
  show ?case
  proof (cases "y \<in> set zs")
    case True
    then have "cmp z y = Less" using Cons.prems by simp
    then have "cmp y z = Greater" by (simp add: cmp_swap)
    then have "cmp x z = Greater" using Cons.prems(3) cmp_equal by metis
    with Cons True show ?thesis by simp
  next
    case False
    with Cons.prems show ?thesis by auto
  qed
qed simp

lemma remove_absent:
  "\<forall>y\<in>set xs. cmp x y \<noteq> Equal \<Longrightarrow> bts_remove cmp x xs = xs"
  by (induction xs) (auto split: ordering.splits)

lemma sorted_distinct: "bts_sorted cmp xs \<Longrightarrow> distinct xs"
  by (induction xs) (auto simp: cmp_refl dest: bspec)

text \<open>A sorted set is determined by its elements when equal elements are identical.\<close>

lemma sorted_nth_less:
  "bts_sorted cmp xs \<Longrightarrow> i < j \<Longrightarrow> j < length xs \<Longrightarrow> cmp (xs ! i) (xs ! j) = Less"
  by (simp add: bts_sorted_def sorted_wrt_iff_nth_less)

end

lemma cmp_of_simps:
  "cmp_of a b = Less \<longleftrightarrow> a < b" "cmp_of a b = Equal \<longleftrightarrow> a = b" "cmp_of a b = Greater \<longleftrightarrow> b < a"
  by (auto simp: cmp_of_def)

lemma then_with_simps:
  "then_with o1 o2 = Less \<longleftrightarrow> o1 = Less \<or> o1 = Equal \<and> o2 = Less"
  "then_with o1 o2 = Equal \<longleftrightarrow> o1 = Equal \<and> o2 = Equal"
  "then_with o1 o2 = Greater \<longleftrightarrow> o1 = Greater \<or> o1 = Equal \<and> o2 = Greater"
  by (cases o1; simp add: then_with_def)+

text \<open>The built-in integers meet the contract.\<close>

interpretation cmp_of: total_cmp "cmp_of :: 'a::linorder \<Rightarrow> 'a \<Rightarrow> ordering"
  by unfold_locales (auto simp: cmp_of_def split: if_splits)

end
