(* ===== verification/Machine_Bytes.thy ===== *)
theory Machine_Bytes
  imports Prelude
begin

text \<open>
  The big-endian byte codecs of the standard library (\<open>to_be_bytes\<close>, \<open>from_be_bytes\<close>,
  \<open>copy_from_slice\<close>) at every width that is a whole number of bytes, and the
  locale \<open>codec\<close> that states what a fixed-length encoding promises.
\<close>

fun be_bytes :: "nat \<Rightarrow> nat \<Rightarrow> bytes" where
  "be_bytes 0 v = []"
| "be_bytes (Suc n) v = be_bytes n (v div 256) @ [word_of_nat v]"

definition be_value :: "bytes \<Rightarrow> nat" where
  "be_value bs = foldl (\<lambda>acc b. acc * 256 + unat b) 0 bs"

definition to_be_bytes :: "'a::len word \<Rightarrow> bytes" where
  "to_be_bytes w = be_bytes (LENGTH('a) div 8) (unat w)"

definition from_be_bytes :: "bytes \<Rightarrow> 'a::len word" where
  "from_be_bytes bs = word_of_nat (be_value bs)"

lemma length_be_bytes [simp]: "length (be_bytes n v) = n"
  by (induction n arbitrary: v) simp_all

lemma length_to_be_bytes [simp]: "length (to_be_bytes (w :: 'a::len word)) = LENGTH('a) div 8"
  by (simp add: to_be_bytes_def)

lemma be_value_Nil [simp]: "be_value [] = 0"
  by (simp add: be_value_def)

lemma be_value_snoc [simp]: "be_value (bs @ [b]) = be_value bs * 256 + unat b"
  by (simp add: be_value_def)

lemma unat_byte_of_nat: "unat (word_of_nat v :: u8) = v mod 256"
  by (simp add: unat_of_nat)

lemma be_value_be_bytes: "be_value (be_bytes n v) = v mod 256 ^ n"
proof (induction n arbitrary: v)
  case (Suc n)
  have "v mod (256 * 256 ^ n) = 256 * (v div 256 mod 256 ^ n) + v mod 256"
    by (rule mod_mult2_eq)
  with Suc show ?case by (simp add: unat_byte_of_nat)
qed simp

lemma be_value_bound: "be_value bs < 256 ^ length bs"
proof (induction bs rule: rev_induct)
  case (snoc b bs)
  have "unat b < 256" using unsigned_less [of b] by simp
  with snoc show ?case by simp
qed simp

lemma be_bytes_be_value: "be_bytes (length bs) (be_value bs) = bs"
proof (induction bs rule: rev_induct)
  case (snoc b bs)
  have b: "unat b < 256" using unsigned_less [of b] by simp
  then have "(be_value bs * 256 + unat b) div 256 = be_value bs" by simp
  moreover have "(word_of_nat (be_value bs * 256 + unat b) :: u8) = b"
  proof (rule word_unat_eq_iff [THEN iffD2])
    show "unat (word_of_nat (be_value bs * 256 + unat b) :: u8) = unat b"
      unfolding unat_byte_of_nat using b by simp
  qed
  ultimately show ?case using snoc by simp
qed simp

lemma pow256: "256 ^ (n div 8) = (2 :: nat) ^ n" if "8 dvd n"
proof -
  have "(256 :: nat) = 2 ^ 8" by simp
  then have "(256 :: nat) ^ (n div 8) = 2 ^ (8 * (n div 8))" by (metis power_mult)
  with that show ?thesis by simp
qed

lemma from_to_be_bytes:
  fixes w :: "'a::len word"
  assumes "8 dvd LENGTH('a)"
  shows "from_be_bytes (to_be_bytes w) = w"
proof -
  have "unat w mod 256 ^ (LENGTH('a) div 8) = unat w"
    using unsigned_less [of w] by (simp add: pow256 [OF assms])
  then show ?thesis by (simp add: from_be_bytes_def to_be_bytes_def be_value_be_bytes)
qed

lemma to_from_be_bytes:
  assumes "8 dvd LENGTH('a)" "length bs = LENGTH('a) div 8"
  shows "to_be_bytes (from_be_bytes bs :: 'a::len word) = bs"
proof -
  have "be_value bs < 2 ^ LENGTH('a)"
    using be_value_bound [of bs] assms by (simp add: pow256)
  then have "unat (from_be_bytes bs :: 'a word) = be_value bs"
    by (simp add: from_be_bytes_def unat_of_nat)
  then show ?thesis
    using be_bytes_be_value [of bs] assms(2) by (simp add: to_be_bytes_def)
qed

text \<open>
  A fixed-length codec: decoding an encoding gives the value back, and an encoding of
  the right length is the encoding of what it decodes to.  Encodings that follow one
  another in a buffer are read back at their offsets.
\<close>

locale codec =
  fixes enc :: "'v \<Rightarrow> bytes"
    and dec :: "bytes \<Rightarrow> 'v"
    and width :: nat
  assumes length_enc: "length (enc v) = width"
    and dec_enc: "dec (enc v) = v"
    and enc_dec: "length bs = width \<Longrightarrow> enc (dec bs) = bs"
begin

lemma enc_inject: "enc v = enc w \<longleftrightarrow> v = w"
  by (metis dec_enc)

lemma dec_prefix: "dec (take width (enc v @ rest)) = v"
  by (simp add: length_enc dec_enc)

lemma rest_prefix: "drop width (enc v @ rest) = rest"
  by (simp add: length_enc)

lemma dec_at: "length pre = k \<Longrightarrow> dec (take width (drop k (pre @ enc v @ rest))) = v"
  by (simp add: length_enc dec_enc)

lemma enc_dec_prefix: "width \<le> length bs \<Longrightarrow> enc (dec (take width bs)) @ drop width bs = bs"
  by (simp add: enc_dec)

end

interpretation be64: codec "to_be_bytes :: u64 \<Rightarrow> bytes" from_be_bytes 8
  by unfold_locales (simp_all add: from_to_be_bytes to_from_be_bytes)

interpretation be128: codec "to_be_bytes :: u128 \<Rightarrow> bytes" from_be_bytes 16
  by unfold_locales (simp_all add: from_to_be_bytes to_from_be_bytes)

interpretation be160: codec "to_be_bytes :: address \<Rightarrow> bytes" from_be_bytes 20
  by unfold_locales (simp_all add: from_to_be_bytes to_from_be_bytes)

interpretation be256: codec "to_be_bytes :: u256 \<Rightarrow> bytes" from_be_bytes 32
  by unfold_locales (simp_all add: from_to_be_bytes to_from_be_bytes)

section \<open>Numbers and bytes as text\<close>

text \<open>\<open>Display\<close> of an unsigned integer.\<close>

fun decimal :: "nat \<Rightarrow> string" where
  "decimal n =
     (if n < 10 then [''0123456789'' ! n] else decimal (n div 10) @ [''0123456789'' ! (n mod 10)])"

declare decimal.simps [simp del]

definition hex_digit :: "nat \<Rightarrow> char" where
  "hex_digit d = ''0123456789abcdef'' ! d"

text \<open>Two lower-case digits for each byte, the text form of byte strings.\<close>

definition hex_byte :: "u8 \<Rightarrow> string" where
  "hex_byte b = [hex_digit (unat b div 16), hex_digit (unat b mod 16)]"

definition hex_bytes :: "bytes \<Rightarrow> string" where
  "hex_bytes bs = concat (map hex_byte bs)"

lemma hex_bytes_simps [simp]: "hex_bytes [] = []" "hex_bytes (b # bs) = hex_byte b @ hex_bytes bs"
  by (simp_all add: hex_bytes_def)

lemma hex_digit_in: "d < 16 \<Longrightarrow> hex_digit d \<in> set ''0123456789abcdef''"
  unfolding hex_digit_def by (rule nth_mem) simp

lemma length_hex_bytes [simp]: "length (hex_bytes bs) = 2 * length bs"
  by (induction bs) (simp_all add: hex_byte_def)

lemma set_hex_bytes: "set (hex_bytes bs) \<subseteq> set ''0123456789abcdef''"
proof (induction bs)
  case (Cons b bs)
  have "unat b < 256" using unsigned_less [of b] by simp
  then have "unat b div 16 < 16" by simp
  then have "hex_digit (unat b div 16) \<in> set ''0123456789abcdef''" "hex_digit (unat b mod 16) \<in> set ''0123456789abcdef''"
    by (simp_all only: hex_digit_in mod_less_divisor zero_less_numeral)
  then have "set (hex_byte b) \<subseteq> set ''0123456789abcdef''"
    unfolding hex_byte_def by (simp only: set_simps empty_subsetI insert_subset simp_thms)
  with Cons show ?case by simp
qed simp

end
