(* ===== verification/User_Operation.thy ===== *)
theory User_Operation
  imports Machine_Bytes Chain_Types
begin

unbundle bit_operations_syntax

text \<open>
  \<open>crates/types/src/user_operation\<close>: the off-chain user operation of EntryPoint v0.7,
  its packed on-chain form, the codec between them, the operation hash and id, and the
  accessors of the \<open>UserOperation\<close> trait.  The hash function and the ABI encoder are
  library code (\<open>alloy\<close>): they are the two fields of the parameter \<open>hashing\<close>.
\<close>

section \<open>Data\<close>

datatype entry_point_version = V0_7

record user_operation_id =
  id_sender :: address
  id_nonce :: u256

record packed_uo =
  pk_sender :: address
  pk_nonce :: u256
  pk_init_code :: bytes
  pk_call_data :: bytes
  pk_account_gas_limits :: bytes  \<comment> \<open>\<open>bytes32\<close>\<close>
  pk_pre_verification_gas :: u256
  pk_gas_fees :: bytes  \<comment> \<open>\<open>bytes32\<close>\<close>
  pk_paymaster_and_data :: bytes
  pk_signature :: bytes

record user_operation =
  uo_sender :: address
  uo_nonce :: u256
  uo_call_data :: bytes
  uo_call_gas_limit :: u128
  uo_verification_gas_limit :: u128
  uo_pre_verification_gas :: u128
  uo_max_fee_per_gas :: u128
  uo_max_priority_fee_per_gas :: u128
  uo_signature :: bytes
  uo_factory :: "address option"
  uo_factory_data :: bytes
  uo_paymaster :: "address option"
  uo_paymaster_verification_gas_limit :: u128
  uo_paymaster_post_op_gas_limit :: u128
  uo_paymaster_data :: bytes
  uo_entry_point :: address
  uo_chain_id :: u64
  uo_cached_hash :: "b256 option"

record hashing =
  keccak256 :: "bytes \<Rightarrow> b256"
  abi_encode :: "packed_uo \<Rightarrow> bytes"

section \<open>Identity and the two-dimensional nonce\<close>

definition id_new :: "address \<Rightarrow> u256 \<Rightarrow> user_operation_id" where
  "id_new s n = \<lparr>id_sender = s, id_nonce = n\<rparr>"

definition nonce_key :: "user_operation_id \<Rightarrow> u256" where
  "nonce_key i = drop_bit 64 (id_nonce i)"

definition nonce_sequence :: "user_operation_id \<Rightarrow> u64" where
  "nonce_sequence i = (let mask = ucast (- 1 :: u64) :: u256 in ucast (id_nonce i AND mask))"

definition uo_id :: "user_operation \<Rightarrow> user_operation_id" where
  "uo_id u = id_new (uo_sender u) (uo_nonce u)"

section \<open>Packing\<close>

definition pack_u128_pair :: "u128 \<Rightarrow> u128 \<Rightarrow> bytes" where
  "pack_u128_pair high low = to_be_bytes high @ to_be_bytes low"

definition unpack_u128_pair :: "bytes \<Rightarrow> u128 \<times> u128" where
  "unpack_u128_pair bs = (from_be_bytes (take 16 bs), from_be_bytes (drop 16 bs))"

definition pack :: "user_operation \<Rightarrow> packed_uo" where
  "pack u =
     (let account_gas_limits =
            pack_u128_pair (uo_verification_gas_limit u) (uo_call_gas_limit u);
          gas_fees = pack_u128_pair (uo_max_priority_fee_per_gas u) (uo_max_fee_per_gas u);
          init_code =
            (case uo_factory u of
               Some factory \<Rightarrow> to_be_bytes factory @ uo_factory_data u
             | None \<Rightarrow> []);
          paymaster_and_data =
            (case uo_paymaster u of
               Some paymaster \<Rightarrow>
                 to_be_bytes paymaster
                   @ to_be_bytes (uo_paymaster_verification_gas_limit u)
                   @ to_be_bytes (uo_paymaster_post_op_gas_limit u)
                   @ uo_paymaster_data u
             | None \<Rightarrow> [])
      in \<lparr>pk_sender = uo_sender u,
          pk_nonce = uo_nonce u,
          pk_init_code = init_code,
          pk_call_data = uo_call_data u,
          pk_account_gas_limits = account_gas_limits,
          pk_pre_verification_gas = ucast (uo_pre_verification_gas u),
          pk_gas_fees = gas_fees,
          pk_paymaster_and_data = paymaster_and_data,
          pk_signature = uo_signature u\<rparr>)"

section \<open>Hashing and construction\<close>

definition compute_hash :: "hashing \<Rightarrow> user_operation \<Rightarrow> b256" where
  "compute_hash H u =
     (let hash_packed = (pack u)\<lparr>pk_signature := []\<rparr>;
          inner_hash = keccak256 H (abi_encode H hash_packed)
      in keccak256 H
           (to_be_bytes inner_hash @ to_be_bytes (uo_entry_point u)
              @ to_be_bytes (ucast (uo_chain_id u) :: u256)))"

definition uo_hash :: "hashing \<Rightarrow> user_operation \<Rightarrow> b256" where
  "uo_hash H u = (case uo_cached_hash u of Some h \<Rightarrow> h | None \<Rightarrow> compute_hash H u)"

definition uo_new ::
  "hashing \<Rightarrow> address \<Rightarrow> u256 \<Rightarrow> bytes \<Rightarrow> u128 \<Rightarrow> u128 \<Rightarrow> u128 \<Rightarrow> u128 \<Rightarrow> u128 \<Rightarrow> bytes \<Rightarrow>
   address option \<Rightarrow> bytes \<Rightarrow> address option \<Rightarrow> u128 \<Rightarrow> u128 \<Rightarrow> bytes \<Rightarrow> address \<Rightarrow> u64 \<Rightarrow>
   user_operation" where
  "uo_new H snd_addr nonce call_data call_gas verif_gas pre_verif_gas max_fee max_priority sig
     factory factory_data paymaster pm_verif_gas pm_post_op_gas pm_data entry_point chain_id =
     (let u = \<lparr>uo_sender = snd_addr,
               uo_nonce = nonce,
               uo_call_data = call_data,
               uo_call_gas_limit = call_gas,
               uo_verification_gas_limit = verif_gas,
               uo_pre_verification_gas = pre_verif_gas,
               uo_max_fee_per_gas = max_fee,
               uo_max_priority_fee_per_gas = max_priority,
               uo_signature = sig,
               uo_factory = factory,
               uo_factory_data = factory_data,
               uo_paymaster = paymaster,
               uo_paymaster_verification_gas_limit = pm_verif_gas,
               uo_paymaster_post_op_gas_limit = pm_post_op_gas,
               uo_paymaster_data = pm_data,
               uo_entry_point = entry_point,
               uo_chain_id = chain_id,
               uo_cached_hash = None\<rparr>
      in u\<lparr>uo_cached_hash := Some (compute_hash H u)\<rparr>)"

definition set_context :: "hashing \<Rightarrow> address \<Rightarrow> u64 \<Rightarrow> user_operation \<Rightarrow> user_operation" where
  "set_context H entry_point chain_id u =
     (let u' = u\<lparr>uo_entry_point := entry_point, uo_chain_id := chain_id\<rparr>
      in u'\<lparr>uo_cached_hash := Some (compute_hash H u')\<rparr>)"

definition unpack :: "hashing \<Rightarrow> packed_uo \<Rightarrow> address \<Rightarrow> u64 \<Rightarrow> user_operation" where
  "unpack H p entry_point chain_id =
     (let (verification_gas_limit, call_gas_limit) = unpack_u128_pair (pk_account_gas_limits p);
          (max_priority_fee_per_gas, max_fee_per_gas) = unpack_u128_pair (pk_gas_fees p);
          (factory, factory_data) =
            (if 20 \<le> length (pk_init_code p)
             then (Some (from_be_bytes (take 20 (pk_init_code p))), drop 20 (pk_init_code p))
             else (None, []));
          (paymaster, pm_verification_gas, pm_post_op_gas, paymaster_data) =
            (if 52 \<le> length (pk_paymaster_and_data p)
             then (Some (from_be_bytes (take 20 (pk_paymaster_and_data p))),
                   from_be_bytes (take 16 (drop 20 (pk_paymaster_and_data p))),
                   from_be_bytes (take 16 (drop 36 (pk_paymaster_and_data p))),
                   drop 52 (pk_paymaster_and_data p))
             else (None, 0, 0, []))
      in uo_new H (pk_sender p) (pk_nonce p) (pk_call_data p) call_gas_limit
           verification_gas_limit
           (if unat (pk_pre_verification_gas p) < 2 ^ 128
            then ucast (pk_pre_verification_gas p) else - 1)
           max_fee_per_gas max_priority_fee_per_gas (pk_signature p)
           factory factory_data paymaster pm_verification_gas pm_post_op_gas paymaster_data
           entry_point chain_id)"

section \<open>The trait's derived accessors\<close>

definition uo_gas_fees :: "user_operation \<Rightarrow> gas_fees" where
  "uo_gas_fees u = gas_fees_new (uo_max_fee_per_gas u) (uo_max_priority_fee_per_gas u)"

definition uo_effective_gas_price :: "user_operation \<Rightarrow> u128 \<Rightarrow> u128" where
  "uo_effective_gas_price u base_fee = effective_gas_price (uo_gas_fees u) base_fee"

definition total_gas_limit :: "user_operation \<Rightarrow> u128" where
  "total_gas_limit u =
     uo_pre_verification_gas u + uo_verification_gas_limit u + uo_call_gas_limit u
       + uo_paymaster_verification_gas_limit u + uo_paymaster_post_op_gas_limit u"

definition max_gas_cost :: "user_operation \<Rightarrow> u128" where
  "max_gas_cost u = total_gas_limit u * uo_max_fee_per_gas u"

definition uo_entities :: "user_operation \<Rightarrow> entity list" where
  "uo_entities u =
     [entity_account (uo_sender u)]
       @ (case uo_factory u of Some f \<Rightarrow> [entity_factory f] | None \<Rightarrow> [])
       @ (case uo_paymaster u of Some p \<Rightarrow> [entity_paymaster p] | None \<Rightarrow> [])"

fun uo_entity :: "user_operation \<Rightarrow> entity_type \<Rightarrow> entity option" where
  "uo_entity u Account = Some (entity_account (uo_sender u))"
| "uo_entity u Factory = map_option entity_factory (uo_factory u)"
| "uo_entity u Paymaster = map_option entity_paymaster (uo_paymaster u)"
| "uo_entity u Aggregator = None"

definition abi_encoded_size :: "hashing \<Rightarrow> user_operation \<Rightarrow> nat" where
  "abi_encoded_size H u = length (abi_encode H (pack u))"

definition calldata_gas_cost :: "hashing \<Rightarrow> user_operation \<Rightarrow> u64 \<Rightarrow> u64 \<Rightarrow> u128" where
  "calldata_gas_cost H u zero_byte_cost non_zero_byte_cost =
     (let cost = foldl (\<lambda>acc b. if b = 0 then acc + zero_byte_cost else acc + non_zero_byte_cost)
                   (0 :: u64) (abi_encode H (pack u))
      in ucast cost)"

section \<open>Version variants and the operation with optional gas\<close>

datatype user_operation_variant = UO_V0_7 user_operation

fun uov_entry_point_version :: "user_operation_variant \<Rightarrow> entry_point_version" where
  "uov_entry_point_version (UO_V0_7 u) = V0_7"

fun uov_hash :: "hashing \<Rightarrow> user_operation_variant \<Rightarrow> b256" where
  "uov_hash H (UO_V0_7 u) = uo_hash H u"

fun uov_id :: "user_operation_variant \<Rightarrow> user_operation_id" where
  "uov_id (UO_V0_7 u) = uo_id u"

fun uov_sender :: "user_operation_variant \<Rightarrow> address" where
  "uov_sender (UO_V0_7 u) = uo_sender u"

fun uov_nonce :: "user_operation_variant \<Rightarrow> u256" where
  "uov_nonce (UO_V0_7 u) = uo_nonce u"

fun uov_max_fee_per_gas :: "user_operation_variant \<Rightarrow> u128" where
  "uov_max_fee_per_gas (UO_V0_7 u) = uo_max_fee_per_gas u"

fun uov_max_priority_fee_per_gas :: "user_operation_variant \<Rightarrow> u128" where
  "uov_max_priority_fee_per_gas (UO_V0_7 u) = uo_max_priority_fee_per_gas u"

definition uov_from :: "user_operation \<Rightarrow> user_operation_variant" where
  "uov_from u = UO_V0_7 u"

record uo_optional_gas =
  og_sender :: address
  og_nonce :: u256
  og_call_data :: bytes
  og_signature :: bytes
  og_factory :: "address option"
  og_factory_data :: bytes
  og_paymaster :: "address option"
  og_paymaster_data :: bytes
  og_call_gas_limit :: "u128 option"
  og_verification_gas_limit :: "u128 option"
  og_pre_verification_gas :: "u128 option"
  og_max_fee_per_gas :: "u128 option"
  og_max_priority_fee_per_gas :: "u128 option"
  og_paymaster_verification_gas_limit :: "u128 option"
  og_paymaster_post_op_gas_limit :: "u128 option"

definition unwrap_or :: "'a option \<Rightarrow> 'a \<Rightarrow> 'a" where
  "unwrap_or x d = (case x of None \<Rightarrow> d | Some a \<Rightarrow> a)"

definition into_user_operation ::
  "hashing \<Rightarrow> uo_optional_gas \<Rightarrow> address \<Rightarrow> u64 \<Rightarrow> u128 \<Rightarrow> u128 \<Rightarrow> user_operation" where
  "into_user_operation H g entry_point chain_id max_verification_gas max_call_gas =
     uo_new H (og_sender g) (og_nonce g) (og_call_data g)
       (unwrap_or (og_call_gas_limit g) max_call_gas)
       (unwrap_or (og_verification_gas_limit g) max_verification_gas)
       (unwrap_or (og_pre_verification_gas g) 0)
       (unwrap_or (og_max_fee_per_gas g) 0)
       (unwrap_or (og_max_priority_fee_per_gas g) 0)
       (og_signature g) (og_factory g) (og_factory_data g) (og_paymaster g)
       (unwrap_or (og_paymaster_verification_gas_limit g) 0)
       (unwrap_or (og_paymaster_post_op_gas_limit g) 0)
       (og_paymaster_data g) entry_point chain_id"

section \<open>The codec\<close>

lemma unpack_pack_u128_pair [simp]: "unpack_u128_pair (pack_u128_pair h l) = (h, l)"
  using be128.dec_prefix [of h "to_be_bytes l"] be128.dec_enc [of l]
  by (simp add: unpack_u128_pair_def pack_u128_pair_def)

lemma pack_unpack_u128_pair:
  "length bs = 32 \<Longrightarrow> (case unpack_u128_pair bs of (h, l) \<Rightarrow> pack_u128_pair h l) = bs"
  by (simp add: unpack_u128_pair_def pack_u128_pair_def be128.enc_dec)

lemma length_pack_u128_pair [simp]: "length (pack_u128_pair h l) = 32"
  by (simp add: pack_u128_pair_def)

lemma pack_cached_hash [simp]: "pack (u\<lparr>uo_cached_hash := h\<rparr>) = pack u"
  by (simp add: pack_def cong: option.case_cong)

lemma compute_hash_cached_hash [simp]:
  "compute_hash H (u\<lparr>uo_cached_hash := h\<rparr>) = compute_hash H u"
  by (simp add: compute_hash_def Let_def)

lemma uo_new_simps [simp]:
  "uo_sender (uo_new H a b c d e f g h i j k l m n p q r) = a"
  "uo_nonce (uo_new H a b c d e f g h i j k l m n p q r) = b"
  "uo_cached_hash (uo_new H a b c d e f g h i j k l m n p q r)
     = Some (compute_hash H (uo_new H a b c d e f g h i j k l m n p q r))"
  by (simp_all only: uo_new_def Let_def compute_hash_cached_hash) simp_all

text \<open>
  What packing keeps: without a factory its data is dropped, without a paymaster its gas
  limits and data are dropped.
\<close>

definition pack_normal :: "user_operation \<Rightarrow> user_operation" where
  "pack_normal u =
     u\<lparr>uo_factory_data := (if uo_factory u = None then [] else uo_factory_data u),
       uo_paymaster_verification_gas_limit :=
         (if uo_paymaster u = None then 0 else uo_paymaster_verification_gas_limit u),
       uo_paymaster_post_op_gas_limit :=
         (if uo_paymaster u = None then 0 else uo_paymaster_post_op_gas_limit u),
       uo_paymaster_data := (if uo_paymaster u = None then [] else uo_paymaster_data u)\<rparr>"

lemma pack_pack_normal: "pack (pack_normal u) = pack u"
  by (auto simp: pack_def pack_normal_def Let_def split: option.split)

lemma compute_hash_pack_normal: "compute_hash H (pack_normal u) = compute_hash H u"
  by (simp add: compute_hash_def Let_def pack_pack_normal) (simp add: pack_normal_def)

lemma paymaster_bytes:
  "52 \<le> length (to_be_bytes (p :: address) @ to_be_bytes (v :: u128) @ to_be_bytes (o' :: u128) @ d)"
  "from_be_bytes (take 20 (to_be_bytes p @ to_be_bytes v @ to_be_bytes o' @ d)) = p"
  "from_be_bytes (take 16 (drop 20 (to_be_bytes p @ to_be_bytes v @ to_be_bytes o' @ d))) = v"
  "from_be_bytes (take 16 (drop 36 (to_be_bytes p @ to_be_bytes v @ to_be_bytes o' @ d))) = o'"
  "drop 52 (to_be_bytes p @ to_be_bytes v @ to_be_bytes o' @ d) = d"
  by (simp_all add: be160.dec_enc be128.dec_enc)

lemma ucast_ucast_128: "ucast (ucast w :: u256) = (w :: u128)"
  by (intro bit_word_eqI) (simp add: bit_ucast_iff)

lemma pack_normal_context:
  "(pack_normal u)\<lparr>uo_entry_point := ep, uo_chain_id := c\<rparr> =
   pack_normal (u\<lparr>uo_entry_point := ep, uo_chain_id := c\<rparr>)"
  by (simp add: pack_normal_def)

lemma unpack_pack_fields:
  "unpack H (pack u) ep c =
     (pack_normal u)\<lparr>uo_entry_point := ep, uo_chain_id := c,
       uo_cached_hash := Some (compute_hash H (u\<lparr>uo_entry_point := ep, uo_chain_id := c\<rparr>))\<rparr>"
proof -
  have pv: "unat (ucast (uo_pre_verification_gas u) :: u256) < 2 ^ 128"
    using unsigned_less [of "uo_pre_verification_gas u"] by (simp add: unat_ucast_up)
  let ?v = "(pack_normal u)\<lparr>uo_entry_point := ep, uo_chain_id := c, uo_cached_hash := None\<rparr>"
  have "unpack H (pack u) ep c = ?v\<lparr>uo_cached_hash := Some (compute_hash H ?v)\<rparr>"
    using pv
    by (cases u; cases "uo_factory u"; cases "uo_paymaster u")
      (simp_all add: unpack_def pack_def Let_def uo_new_def pack_normal_def be160.dec_enc
         be128.dec_enc paymaster_bytes ucast_ucast_128)
  moreover have "compute_hash H ?v = compute_hash H (u\<lparr>uo_entry_point := ep, uo_chain_id := c\<rparr>)"
    by (simp only: pack_normal_context compute_hash_cached_hash compute_hash_pack_normal)
  ultimately show ?thesis by simp
qed

lemma uo_id_unpack_pack [simp]: "uo_id (unpack H (pack u) ep c) = uo_id u"
  by (simp add: unpack_pack_fields uo_id_def pack_normal_def)

text \<open>The packed operations that some user operation packs to.\<close>

definition canonical_packed :: "packed_uo \<Rightarrow> bool" where
  "canonical_packed p \<longleftrightarrow>
     length (pk_account_gas_limits p) = 32 \<and> length (pk_gas_fees p) = 32 \<and>
     (pk_init_code p = [] \<or> 20 \<le> length (pk_init_code p)) \<and>
     (pk_paymaster_and_data p = [] \<or> 52 \<le> length (pk_paymaster_and_data p)) \<and>
     unat (pk_pre_verification_gas p) < 2 ^ 128"

lemma canonical_pack: "canonical_packed (pack u)"
  using unsigned_less [of "uo_pre_verification_gas u"]
  by (auto simp: canonical_packed_def pack_def Let_def unat_ucast_up split: option.split)

lemma split_52:
  assumes "52 \<le> length (d :: bytes)"
  shows "take 20 d @ take 16 (drop 20 d) @ take 16 (drop 36 d) @ drop 52 d = d"
proof -
  have "drop 36 d = drop 16 (drop 20 d)" and "drop 52 d = drop 16 (drop 36 d)" by simp_all
  then show ?thesis by (metis append_take_drop_id)
qed

lemma ucast_ucast_256: "unat (x :: u256) < 2 ^ 128 \<Longrightarrow> ucast (ucast x :: u128) = x"
  by (simp add: word_unat_eq_iff unat_ucast_up) (simp add: unsigned_ucast_eq take_bit_nat_eq_self)

lemma pack_unpack_canonical:
  assumes "canonical_packed p"
  shows "pack (unpack H p ep c) = p"
proof -
  have g: "pack_u128_pair (from_be_bytes (take 16 b)) (from_be_bytes (drop 16 b)) = b"
    if "length b = 32" for b
    using pack_unpack_u128_pair [OF that] by (simp add: unpack_u128_pair_def)
  have i: "to_be_bytes (from_be_bytes (take 20 d) :: address) @ drop 20 d = d"
    if "20 \<le> length d" for d
    using be160.enc_dec_prefix [OF that] .
  have m: "to_be_bytes (from_be_bytes (take 20 d) :: address)
      @ to_be_bytes (from_be_bytes (take 16 (drop 20 d)) :: u128)
      @ to_be_bytes (from_be_bytes (take 16 (drop 36 d)) :: u128) @ drop 52 d = d"
    if "52 \<le> length d" for d
    using that split_52 [OF that] by (simp add: be160.enc_dec be128.enc_dec)
  show ?thesis
    using assms
    by (cases p)
      (auto simp: canonical_packed_def unpack_def pack_def uo_new_def unpack_u128_pair_def Let_def
         g i m ucast_ucast_256)
qed

section \<open>Properties\<close>

text \<open>
  Claim C25.  Unpacking a packed operation gives the operation back, with the hash of the
  original in its cache; only the factory data of an operation without a factory and the
  paymaster fields of one without a paymaster are reset, and these are not on chain.
\<close>

theorem unpack_pack:
  "unpack H (pack u) (uo_entry_point u) (uo_chain_id u) =
     (pack_normal u)\<lparr>uo_cached_hash := Some (compute_hash H u)\<rparr> \<and>
   uo_id (unpack H (pack u) ep c) = uo_id u"
proof
  have "(pack_normal u)\<lparr>uo_entry_point := uo_entry_point u, uo_chain_id := uo_chain_id u\<rparr> = pack_normal u"
    by (cases u) (simp add: pack_normal_def)
  moreover have "u\<lparr>uo_entry_point := uo_entry_point u, uo_chain_id := uo_chain_id u\<rparr> = u"
    by (cases u) simp
  ultimately show "unpack H (pack u) (uo_entry_point u) (uo_chain_id u) =
      (pack_normal u)\<lparr>uo_cached_hash := Some (compute_hash H u)\<rparr>"
    by (simp only: unpack_pack_fields)
  show "uo_id (unpack H (pack u) ep c) = uo_id u"
    by (rule uo_id_unpack_pack)
qed

text \<open>
  Packing undoes unpacking exactly on the canonical packed operations: gas
  words of 32 bytes, an init code that is empty or at least an address, paymaster data
  that is empty or at least an address and two gas limits, and a pre-verification gas
  below 2^128.  On every other input unpacking loses information.
\<close>

theorem pack_unpack_iff: "pack (unpack H p ep c) = p \<longleftrightarrow> canonical_packed p"
  using canonical_pack pack_unpack_canonical by metis

text \<open>The inputs of the two hash computations of one operation.\<close>

definition hash_encoding :: "hashing \<Rightarrow> user_operation \<Rightarrow> bytes" where
  "hash_encoding H u = abi_encode H ((pack u)\<lparr>pk_signature := []\<rparr>)"

definition hash_suffix :: "hashing \<Rightarrow> user_operation \<Rightarrow> bytes" where
  "hash_suffix H u = to_be_bytes (keccak256 H (hash_encoding H u))
     @ to_be_bytes (uo_entry_point u) @ to_be_bytes (ucast (uo_chain_id u) :: u256)"

definition same_content :: "user_operation \<Rightarrow> user_operation \<Rightarrow> bool" where
  "same_content u v \<longleftrightarrow>
     (pack u)\<lparr>pk_signature := []\<rparr> = (pack v)\<lparr>pk_signature := []\<rparr> \<and>
     uo_entry_point u = uo_entry_point v \<and> uo_chain_id u = uo_chain_id v"

definition keccak_collides :: "hashing \<Rightarrow> bytes \<Rightarrow> bytes \<Rightarrow> bool" where
  "keccak_collides H x y \<longleftrightarrow> x \<noteq> y \<and> keccak256 H x = keccak256 H y"

definition encoder_collides :: "hashing \<Rightarrow> user_operation \<Rightarrow> user_operation \<Rightarrow> bool" where
  "encoder_collides H u v \<longleftrightarrow>
     (pack u)\<lparr>pk_signature := []\<rparr> \<noteq> (pack v)\<lparr>pk_signature := []\<rparr> \<and>
     hash_encoding H u = hash_encoding H v"

lemma compute_hash_suffix: "compute_hash H u = keccak256 H (hash_suffix H u)"
  by (simp add: compute_hash_def hash_suffix_def hash_encoding_def Let_def)

lemma ucast_u64_u256_inject: "(ucast a :: u256) = ucast (b :: u64) \<longleftrightarrow> a = b"
  by (simp add: word_unat_eq_iff unat_ucast_up)

lemma hash_suffix_eq:
  "hash_suffix H u = hash_suffix H v \<longleftrightarrow>
     keccak256 H (hash_encoding H u) = keccak256 H (hash_encoding H v) \<and>
     uo_entry_point u = uo_entry_point v \<and> uo_chain_id u = uo_chain_id v"
  by (simp add: hash_suffix_def be256.enc_inject be160.enc_inject ucast_u64_u256_inject)

text \<open>
  Claim C40.  The operation hash commits to everything but the signature: two operations
  have the same hash exactly when they agree on the entry point, the chain and every packed
  field except the signature, or one of the two library functions collides on the inputs
  of these two computations (the encoder on the two packed operations, or keccak on the
  two inner or the two outer inputs).
\<close>

theorem hash_commits:
  "compute_hash H u = compute_hash H v \<longleftrightarrow>
     same_content u v \<or>
     keccak_collides H (hash_suffix H u) (hash_suffix H v) \<or>
     (uo_entry_point u = uo_entry_point v \<and> uo_chain_id u = uo_chain_id v \<and>
      (keccak_collides H (hash_encoding H u) (hash_encoding H v) \<or> encoder_collides H u v))"
proof (cases "hash_suffix H u = hash_suffix H v")
  case True
  then have "compute_hash H u = compute_hash H v"
    by (simp add: compute_hash_suffix)
  with True [unfolded hash_suffix_eq] show ?thesis
    by (auto simp: same_content_def keccak_collides_def encoder_collides_def)
next
  case False
  then show ?thesis
    by (auto simp: compute_hash_suffix hash_suffix_eq same_content_def keccak_collides_def
        encoder_collides_def hash_encoding_def)
qed

lemma nonce_sequence_eq: "nonce_sequence i = ucast (id_nonce i)"
proof -
  have "(ucast (- 1 :: u64) :: u256) = mask 64"
    by (intro bit_word_eqI) (simp add: bit_ucast_iff bit_mask_iff)
  then show ?thesis
    by (intro bit_word_eqI) (auto simp: nonce_sequence_def Let_def bit_ucast_iff bit_and_iff bit_mask_iff)
qed

lemma unat_nonce_sequence: "unat (nonce_sequence i) = unat (id_nonce i) mod 2 ^ 64"
  by (simp add: nonce_sequence_eq unsigned_ucast_eq take_bit_eq_mod)

lemma unat_nonce_key: "unat (nonce_key i) = unat (id_nonce i) div 2 ^ 64"
  by (simp add: nonce_key_def drop_bit_eq_div unat_div_distrib)

text \<open>
  The two-dimensional nonce is its key times 2^64 plus its sequence, and an
  operation id is the triple of sender, nonce key and nonce sequence.
\<close>

theorem nonce_two_dimensional:
  "unat (id_nonce i) = unat (nonce_key i) * 2 ^ 64 + unat (nonce_sequence i) \<and>
   (i = j \<longleftrightarrow> id_sender i = id_sender j \<and> nonce_key i = nonce_key j \<and>
     nonce_sequence i = nonce_sequence j)" for i j :: user_operation_id
proof -
  have split: "unat (id_nonce i) = unat (nonce_key i) * 2 ^ 64 + unat (nonce_sequence i)" for i
    by (simp add: unat_nonce_sequence unat_nonce_key)
  then show ?thesis
    by (auto simp: word_unat_eq_iff intro: user_operation_id.equality)
qed

end
