(* ===== verification/Op_Pool.thy ===== *)
theory Op_Pool
  imports Hash_Map BTree_Set User_Operation
begin

text \<open>
  \<open>crates/pool/src/pool.rs\<close>: the operation pool with its two hash indexes, its ordered
  set, the per-sender counters and the sequence counter.  Each method is one function on
  the state, as a call runs that no other call interrupts; \<open>Pool_Threads\<close> splits the calls into
  their lock acquisitions and interleaves them.
\<close>

section \<open>State\<close>

record pool_config =
  pc_max_size :: nat
  pc_max_ops_per_sender :: nat
  pc_replacement_fee_bump_bps :: u32

definition pool_config_default :: pool_config where
  "pool_config_default =
     \<lparr>pc_max_size = 4096, pc_max_ops_per_sender = 4, pc_replacement_fee_bump_bps = 1000\<rparr>"

definition pool_config_from :: "chain_spec \<Rightarrow> pool_config" where
  "pool_config_from cs =
     \<lparr>pc_max_size = cs_max_pool_size cs,
      pc_max_ops_per_sender = cs_max_ops_per_sender cs,
      pc_replacement_fee_bump_bps = cs_replacement_fee_bump_bps cs\<rparr>"

record pool_entry =
  pe_uo :: user_operation
  pe_hash :: b256
  pe_id :: user_operation_id
  pe_submit_gas_price :: u128
  pe_sequence :: u64

definition pool_entry_new :: "hashing \<Rightarrow> user_operation \<Rightarrow> u128 \<Rightarrow> u64 \<Rightarrow> pool_entry" where
  "pool_entry_new H uo base_fee sq =
     \<lparr>pe_uo = uo,
      pe_hash = uo_hash H uo,
      pe_id = uo_id uo,
      pe_submit_gas_price = uo_effective_gas_price uo base_fee,
      pe_sequence = sq\<rparr>"

text \<open>\<open>Ord for OrderEntry\<close>: highest gas price first, then lowest sequence, then hash.\<close>

definition order_cmp :: "pool_entry \<Rightarrow> pool_entry \<Rightarrow> ordering" where
  "order_cmp self other =
     then_with
       (then_with (cmp_of (pe_submit_gas_price other) (pe_submit_gas_price self))
          (cmp_of (pe_sequence self) (pe_sequence other)))
       (cmp_of (pe_hash self) (pe_hash other))"

record operation_pool =
  pl_by_hash :: "(b256, pool_entry) hmap"
  pl_by_id :: "(user_operation_id, pool_entry) hmap"
  pl_ordered :: "pool_entry list"
  pl_sender_count :: "(address, nat) hmap"
  pl_next_sequence :: u64
  pl_config :: pool_config

text \<open>
  \<open>SenderLimit\<close> is the formatted message \<open>sender ... already has ... operations\<close>, with
  the sender, the count and the maximum as its arguments.
\<close>

datatype pool_msg = SenderLimit address nat nat

datatype pool_error =
    AlreadyKnown b256
  | ReplacementUnderpriced u128 u128
  | PoolFull nat
  | PoolValidation validation_error
  | EntityThrottled string
  | NotFound b256
  | PoolOther pool_msg

section \<open>Operations\<close>

definition pool_new :: "pool_config \<Rightarrow> operation_pool" where
  "pool_new cfg =
     \<lparr>pl_by_hash = hm_empty, pl_by_id = hm_empty, pl_ordered = [], pl_sender_count = hm_empty,
      pl_next_sequence = 0, pl_config = cfg\<rparr>"

definition pool_size :: "operation_pool \<Rightarrow> nat" where
  "pool_size p = hm_len (pl_by_hash p)"

definition remove_inner :: "pool_entry \<Rightarrow> operation_pool \<Rightarrow> operation_pool" where
  "remove_inner e p =
     (let counts = pl_sender_count p;
          snd_addr = id_sender (pe_id e);
          counts' =
            (case hm_get counts snd_addr of
               None \<Rightarrow> counts
             | Some c \<Rightarrow>
                 (let c' = c - 1
                  in if c' = 0 then hm_remove snd_addr counts else hm_insert snd_addr c' counts))
      in p\<lparr>pl_by_hash := hm_remove (pe_hash e) (pl_by_hash p),
           pl_by_id := hm_remove (pe_id e) (pl_by_id p),
           pl_ordered := bts_remove order_cmp e (pl_ordered p),
           pl_sender_count := counts'\<rparr>)"

definition min_bump :: "pool_config \<Rightarrow> u128 \<Rightarrow> u128" where
  "min_bump cfg existing_fee =
     existing_fee + existing_fee * ucast (pc_replacement_fee_bump_bps cfg) div 10000"

text \<open>The part of \<open>add\<close> after all checks: take a sequence number and index the entry.\<close>

definition insert_new :: "hashing \<Rightarrow> user_operation \<Rightarrow> u128 \<Rightarrow> operation_pool \<Rightarrow> operation_pool" where
  "insert_new H uo base_fee p =
     (let s = pl_next_sequence p;
          entry = pool_entry_new H uo base_fee s
      in p\<lparr>pl_next_sequence := saturating_add s 1,
           pl_by_hash := hm_insert (uo_hash H uo) entry (pl_by_hash p),
           pl_by_id := hm_insert (uo_id uo) entry (pl_by_id p),
           pl_ordered := bts_insert order_cmp entry (pl_ordered p),
           pl_sender_count := hm_upsert (id_sender (uo_id uo)) 0 Suc (pl_sender_count p)\<rparr>)"

text \<open>The checks on the pool after an existing entry of the same id has been taken out.\<close>

definition add_checked ::
  "hashing \<Rightarrow> user_operation \<Rightarrow> u128 \<Rightarrow> operation_pool \<Rightarrow> (pool_error + b256) \<times> operation_pool" where
  "add_checked H uo base_fee p =
     (let i = uo_id uo;
          cnt = (case hm_get (pl_sender_count p) (id_sender i) of Some c \<Rightarrow> c | None \<Rightarrow> 0)
      in if pc_max_ops_per_sender (pl_config p) \<le> cnt
         then (Inl (PoolOther (SenderLimit (id_sender i) cnt (pc_max_ops_per_sender (pl_config p)))), p)
         else if pc_max_size (pl_config p) \<le> pool_size p
         then (Inl (PoolFull (pc_max_size (pl_config p))), p)
         else (Inr (uo_hash H uo), insert_new H uo base_fee p))"

definition pool_add ::
  "hashing \<Rightarrow> user_operation \<Rightarrow> u128 \<Rightarrow> operation_pool \<Rightarrow> (pool_error + b256) \<times> operation_pool" where
  "pool_add H uo base_fee p =
     (let i = uo_id uo; h = uo_hash H uo
      in if hm_contains (pl_by_hash p) h then (Inl (AlreadyKnown h), p)
         else
           (case hm_get (pl_by_id p) i of
              None \<Rightarrow> add_checked H uo base_fee p
            | Some entry \<Rightarrow>
                (let existing_fee = uo_max_fee_per_gas (pe_uo entry);
                     new_fee = uo_max_fee_per_gas uo
                 in if new_fee < min_bump (pl_config p) existing_fee
                    then (Inl (ReplacementUnderpriced existing_fee new_fee), p)
                    else add_checked H uo base_fee (remove_inner entry p))))"

definition get_by_hash :: "operation_pool \<Rightarrow> b256 \<Rightarrow> pool_entry option" where
  "get_by_hash p h = hm_get (pl_by_hash p) h"

definition get_by_id :: "operation_pool \<Rightarrow> user_operation_id \<Rightarrow> pool_entry option" where
  "get_by_id p i = hm_get (pl_by_id p) i"

definition remove_by_hash :: "b256 \<Rightarrow> operation_pool \<Rightarrow> pool_entry option \<times> operation_pool" where
  "remove_by_hash h p =
     (case hm_get (pl_by_hash p) h of
        None \<Rightarrow> (None, p)
      | Some entry \<Rightarrow> (Some entry, remove_inner entry p))"

definition remove_by_id ::
  "user_operation_id \<Rightarrow> operation_pool \<Rightarrow> pool_entry option \<times> operation_pool" where
  "remove_by_id i p =
     (case hm_get (pl_by_id p) i of
        None \<Rightarrow> (None, p)
      | Some entry \<Rightarrow> (Some entry, remove_inner entry p))"

definition best_operations :: "operation_pool \<Rightarrow> nat \<Rightarrow> pool_entry list" where
  "best_operations p max_count = take max_count (pl_ordered p)"

definition pool_clear :: "operation_pool \<Rightarrow> operation_pool" where
  "pool_clear p =
     p\<lparr>pl_by_hash := hm_empty, pl_by_id := hm_empty, pl_ordered := [], pl_sender_count := hm_empty\<rparr>"

definition all_hashes :: "operation_pool \<Rightarrow> b256 list" where
  "all_hashes p = hm_keys (pl_by_hash p)"

definition pool_dump :: "operation_pool \<Rightarrow> pool_entry list" where
  "pool_dump p = hm_values (pl_by_hash p)"

text \<open>\<open>Iterator::max\<close>: \<open>None\<close> for an empty iterator.\<close>

fun iter_max :: "'a::linorder list \<Rightarrow> 'a option" where
  "iter_max [] = None"
| "iter_max (x # xs) = (case iter_max xs of None \<Rightarrow> Some x | Some m \<Rightarrow> Some (max x m))"

definition max_nonce_sequence :: "operation_pool \<Rightarrow> address \<Rightarrow> u256 \<Rightarrow> u64 option" where
  "max_nonce_sequence p snd_addr key =
     iter_max (map nonce_sequence
       (filter (\<lambda>i. id_sender i = snd_addr \<and> nonce_key i = key) (hm_keys (pl_by_id p))))"

section \<open>The order of the pool\<close>

lemma order_cmp_Less:
  "order_cmp a b = Less \<longleftrightarrow>
     pe_submit_gas_price b < pe_submit_gas_price a \<or>
     pe_submit_gas_price a = pe_submit_gas_price b \<and>
       (pe_sequence a < pe_sequence b \<or> pe_sequence a = pe_sequence b \<and> pe_hash a < pe_hash b)"
  by (auto simp: order_cmp_def then_with_simps cmp_of_simps)

lemma order_cmp_Equal:
  "order_cmp a b = Equal \<longleftrightarrow>
     pe_submit_gas_price a = pe_submit_gas_price b \<and> pe_sequence a = pe_sequence b \<and>
     pe_hash a = pe_hash b"
  by (auto simp: order_cmp_def then_with_simps cmp_of_simps)

lemma order_cmp_Greater: "order_cmp a b = Greater \<longleftrightarrow> order_cmp b a = Less"
  by (auto simp: order_cmp_def then_with_simps cmp_of_simps)

text \<open>\<open>Ord for OrderEntry\<close> meets the contract of \<open>Ord\<close>.\<close>

interpretation oc: total_cmp order_cmp
proof unfold_locales
  fix x y z
  show "order_cmp x x = Equal" by (simp add: order_cmp_Equal)
  show "order_cmp x y = Less \<longleftrightarrow> order_cmp y x = Greater" by (simp add: order_cmp_Greater)
  show "order_cmp x y = Less \<Longrightarrow> order_cmp y z = Less \<Longrightarrow> order_cmp x z = Less"
    by (auto simp: order_cmp_Less)
  assume "order_cmp x y = Equal"
  then have "pe_submit_gas_price x = pe_submit_gas_price y" "pe_sequence x = pe_sequence y"
    "pe_hash x = pe_hash y" by (simp_all add: order_cmp_Equal)
  then show "order_cmp x z = order_cmp y z" by (simp add: order_cmp_def)
qed

section \<open>The invariant\<close>

definition entries_of :: "operation_pool \<Rightarrow> pool_entry multiset" where
  "entries_of p = mset (pl_ordered p)"

definition sender_ops :: "operation_pool \<Rightarrow> address \<Rightarrow> nat" where
  "sender_ops p a = size (filter_mset (\<lambda>e. id_sender (pe_id e) = a) (entries_of p))"

definition entry_ok :: "hashing \<Rightarrow> pool_entry \<Rightarrow> bool" where
  "entry_ok H e \<longleftrightarrow> pe_hash e = uo_hash H (pe_uo e) \<and> pe_id e = uo_id (pe_uo e)"

definition count_of :: "nat \<Rightarrow> nat option" where
  "count_of n = (if n = 0 then None else Some n)"

definition pool_inv :: "hashing \<Rightarrow> operation_pool \<Rightarrow> bool" where
  "pool_inv H p \<longleftrightarrow>
     hm_inv (pl_by_hash p) \<and> hm_inv (pl_by_id p) \<and> hm_inv (pl_sender_count p) \<and>
     bts_sorted order_cmp (pl_ordered p) \<and>
     mset (hm_values (pl_by_hash p)) = entries_of p \<and>
     mset (hm_values (pl_by_id p)) = entries_of p \<and>
     (\<forall>h e. hm_get (pl_by_hash p) h = Some e \<longrightarrow> pe_hash e = h) \<and>
     (\<forall>i e. hm_get (pl_by_id p) i = Some e \<longrightarrow> pe_id e = i) \<and>
     (\<forall>a. hm_get (pl_sender_count p) a = count_of (sender_ops p a)) \<and>
     (\<forall>e\<in>#entries_of p. entry_ok H e) \<and>
     size (entries_of p) \<le> pc_max_size (pl_config p) \<and>
     (\<forall>a. sender_ops p a \<le> pc_max_ops_per_sender (pl_config p))"

lemma pool_invD:
  assumes "pool_inv H p"
  shows "hm_inv (pl_by_hash p)" "hm_inv (pl_by_id p)" "hm_inv (pl_sender_count p)"
    "bts_sorted order_cmp (pl_ordered p)"
    "mset (hm_values (pl_by_hash p)) = entries_of p"
    "mset (hm_values (pl_by_id p)) = entries_of p"
    "\<And>h e. hm_get (pl_by_hash p) h = Some e \<Longrightarrow> pe_hash e = h"
    "\<And>i e. hm_get (pl_by_id p) i = Some e \<Longrightarrow> pe_id e = i"
    "\<And>a. hm_get (pl_sender_count p) a = count_of (sender_ops p a)"
    "\<And>e. e \<in># entries_of p \<Longrightarrow> entry_ok H e"
    "size (entries_of p) \<le> pc_max_size (pl_config p)"
    "\<And>a. sender_ops p a \<le> pc_max_ops_per_sender (pl_config p)"
  using assms by (auto simp: pool_inv_def)

lemma count_of_simps [simp]:
  "count_of 0 = None" "count_of (Suc n) = Some (Suc n)"
  "(case count_of n of None \<Rightarrow> 0 | Some c \<Rightarrow> c) = n"
  by (auto simp: count_of_def)

text \<open>Both indexes look up the entries of the ordered set.\<close>

lemma by_hash_iff:
  assumes "pool_inv H p"
  shows "hm_get (pl_by_hash p) h = Some e \<longleftrightarrow> e \<in># entries_of p \<and> pe_hash e = h"
proof -
  have "e \<in># entries_of p \<longleftrightarrow> e \<in> ran (hm_get (pl_by_hash p))"
    using pool_invD(1,5) [OF assms] by (metis set_hm_values set_mset_mset)
  then show ?thesis using pool_invD(7) [OF assms] by (auto simp: ran_def)
qed

lemma by_id_iff:
  assumes "pool_inv H p"
  shows "hm_get (pl_by_id p) i = Some e \<longleftrightarrow> e \<in># entries_of p \<and> pe_id e = i"
proof -
  have "e \<in># entries_of p \<longleftrightarrow> e \<in> ran (hm_get (pl_by_id p))"
    using pool_invD(2,6) [OF assms] by (metis set_hm_values set_mset_mset)
  then show ?thesis using pool_invD(8) [OF assms] by (auto simp: ran_def)
qed

lemma pool_size_entries:
  assumes "pool_inv H p"
  shows "pool_size p = size (entries_of p)"
proof -
  have "length (hm_values (pl_by_hash p)) = size (entries_of p)"
    using pool_invD(5) [OF assms] by (metis size_mset)
  then show ?thesis by (simp add: pool_size_def hm_len_entries hm_values_def)
qed

text \<open>An entry of the pool that compares equal to another one is that entry.\<close>

lemma entry_Equal:
  assumes "pool_inv H p" "e \<in># entries_of p" "e' \<in># entries_of p" "order_cmp e e' = Equal"
  shows "e' = e"
proof -
  have "hm_get (pl_by_hash p) (pe_hash e) = Some e" "hm_get (pl_by_hash p) (pe_hash e') = Some e'"
    using assms(2,3) by (simp_all add: by_hash_iff [OF assms(1)])
  moreover have "pe_hash e = pe_hash e'" using assms(4) by (simp only: order_cmp_Equal)
  ultimately have "Some e = Some e'" by (simp only:)
  then show ?thesis by (simp only: option.inject)
qed

lemma pool_new_inv [inv_intros, simp]: "pool_inv H (pool_new cfg)"
  by (simp add: pool_inv_def pool_new_def entries_of_def sender_ops_def hm_values_def hm.empty_entries)

lemma pool_clear_inv [inv_intros, simp]: "pool_inv H (pool_clear p)"
  by (simp add: pool_inv_def pool_clear_def entries_of_def sender_ops_def hm_values_def hm.empty_entries)

section \<open>Removing an entry\<close>

lemma remove_inner_config [simp]: "pl_config (remove_inner e p) = pl_config p"
  by (simp add: remove_inner_def Let_def)

lemma remove_inner_entries:
  assumes "pool_inv H p" "e \<in># entries_of p"
  shows "entries_of p = add_mset e (entries_of (remove_inner e p))"
  using oc.remove_present [of "pl_ordered p" e e] assms pool_invD(4) [OF assms(1)]
  by (simp add: entries_of_def remove_inner_def Let_def oc.cmp_refl)

lemma sender_ops_add:
  "entries_of p = add_mset e (entries_of q) \<Longrightarrow>
   sender_ops p a = sender_ops q a + (if id_sender (pe_id e) = a then 1 else 0)"
  by (simp add: sender_ops_def)

lemma remove_inner_counts:
  assumes "pool_inv H p" "e \<in># entries_of p"
  shows "hm_get (pl_sender_count (remove_inner e p)) a = count_of (sender_ops (remove_inner e p) a)"
proof -
  note cnt = pool_invD(9) [OF assms(1)] and inv = pool_invD(3) [OF assms(1)]
  note ops = sender_ops_add [OF remove_inner_entries [OF assms]]
  define n where "n = sender_ops (remove_inner e p) (id_sender (pe_id e))"
  have "hm_get (pl_sender_count p) (id_sender (pe_id e)) = Some (Suc n)"
    by (simp add: cnt ops n_def)
  then have "pl_sender_count (remove_inner e p) =
      (if n = 0 then hm_remove (id_sender (pe_id e)) (pl_sender_count p)
       else hm_insert (id_sender (pe_id e)) n (pl_sender_count p))"
    by (simp add: remove_inner_def Let_def)
  then show ?thesis
    using inv by (auto simp: cnt ops n_def count_of_def)
qed

lemma remove_inner_inv [inv_intros]:
  assumes "pool_inv H p" "e \<in># entries_of p"
  shows "pool_inv H (remove_inner e p)"
proof -
  let ?q = "remove_inner e p"
  note D = pool_invD [OF assms(1)]
  note ent = remove_inner_entries [OF assms]
  have h: "hm_get (pl_by_hash p) (pe_hash e) = Some e" and i: "hm_get (pl_by_id p) (pe_id e) = Some e"
    using assms by (simp_all add: by_hash_iff by_id_iff)
  have "mset (hm_values (pl_by_hash ?q)) = entries_of ?q" "mset (hm_values (pl_by_id ?q)) = entries_of ?q"
    using hm_values_remove [OF D(1) h] hm_values_remove [OF D(2) i] D(5,6) ent
    by (simp_all add: remove_inner_def Let_def)
  moreover have "bts_sorted order_cmp (pl_ordered ?q)"
    using oc.sorted_remove [OF D(4)] by (simp add: remove_inner_def Let_def)
  moreover have "hm_inv (pl_by_hash ?q)" "hm_inv (pl_by_id ?q)" "hm_inv (pl_sender_count ?q)"
    using D(1-3) by (auto simp: remove_inner_def Let_def split: option.split)
  moreover have "hm_get (pl_by_hash ?q) h' = Some e' \<Longrightarrow> pe_hash e' = h'"
    and "hm_get (pl_by_id ?q) i' = Some e' \<Longrightarrow> pe_id e' = i'" for h' i' e'
    using D(1,2,7,8) by (auto simp: remove_inner_def Let_def split: if_splits)
  moreover have "size (entries_of ?q) \<le> pc_max_size (pl_config p)"
    using D(11) ent by simp
  moreover have "sender_ops ?q a \<le> pc_max_ops_per_sender (pl_config p)" for a
    using D(12) [of a] sender_ops_add [OF ent, of a] by simp
  moreover have "\<forall>e\<in>#entries_of ?q. entry_ok H e"
    using D(10) ent by simp
  ultimately show ?thesis
    using remove_inner_counts [OF assms] unfolding pool_inv_def by auto
qed

section \<open>Inserting an entry\<close>

lemma insert_new_config [simp]: "pl_config (insert_new H uo b p) = pl_config p"
  by (simp add: insert_new_def Let_def)

lemma pool_entry_new_simps [simp]:
  "pe_uo (pool_entry_new H uo b s) = uo" "pe_hash (pool_entry_new H uo b s) = uo_hash H uo"
  "pe_id (pool_entry_new H uo b s) = uo_id uo" "pe_sequence (pool_entry_new H uo b s) = s"
  "pe_submit_gas_price (pool_entry_new H uo b s) = uo_effective_gas_price uo b"
  by (simp_all add: pool_entry_new_def)

abbreviation new_entry :: "hashing \<Rightarrow> user_operation \<Rightarrow> u128 \<Rightarrow> operation_pool \<Rightarrow> pool_entry" where
  "new_entry H uo b p \<equiv> pool_entry_new H uo b (pl_next_sequence p)"

lemma insert_new_entries:
  assumes "pool_inv H p" "hm_get (pl_by_hash p) (uo_hash H uo) = None"
  shows "entries_of (insert_new H uo b p) = add_mset (new_entry H uo b p) (entries_of p)"
proof -
  have "order_cmp (new_entry H uo b p) e \<noteq> Equal" if "e \<in> set (pl_ordered p)" for e
    using assms that by_hash_iff [OF assms(1), of "uo_hash H uo" e]
    by (auto simp: order_cmp_Equal entries_of_def)
  then show ?thesis
    by (simp add: entries_of_def insert_new_def Let_def oc.insert_fresh)
qed

lemma insert_new_inv [inv_intros]:
  assumes "pool_inv H p"
    and fresh: "hm_get (pl_by_hash p) (uo_hash H uo) = None" "hm_get (pl_by_id p) (uo_id uo) = None"
    and room: "pool_size p < pc_max_size (pl_config p)"
      "sender_ops p (uo_sender uo) < pc_max_ops_per_sender (pl_config p)"
  shows "pool_inv H (insert_new H uo b p)"
proof -
  let ?q = "insert_new H uo b p" and ?e = "new_entry H uo b p"
  note D = pool_invD [OF assms(1)]
  note ent = insert_new_entries [OF assms(1) fresh(1), of b]
  note ops = sender_ops_add [OF ent]
  have snd_id: "id_sender (uo_id uo) = uo_sender uo" by (simp add: uo_id_def id_new_def)
  have "mset (hm_values (pl_by_hash ?q)) = entries_of ?q" "mset (hm_values (pl_by_id ?q)) = entries_of ?q"
    using hm_values_insert_fresh [OF D(1) fresh(1)] hm_values_insert_fresh [OF D(2) fresh(2)] D(5,6) ent
    by (simp_all add: insert_new_def Let_def)
  moreover have "bts_sorted order_cmp (pl_ordered ?q)"
    using oc.sorted_insert [OF D(4)] by (simp add: insert_new_def Let_def)
  moreover have "hm_inv (pl_by_hash ?q)" "hm_inv (pl_by_id ?q)" "hm_inv (pl_sender_count ?q)"
    using D(1-3) by (auto simp: insert_new_def Let_def)
  moreover have "hm_get (pl_by_hash ?q) h' = Some e' \<Longrightarrow> pe_hash e' = h'"
    and "hm_get (pl_by_id ?q) i' = Some e' \<Longrightarrow> pe_id e' = i'" for h' i' e'
    using D(1,2,7,8) by (auto simp: insert_new_def Let_def split: if_splits)
  moreover have "size (entries_of ?q) \<le> pc_max_size (pl_config p)"
    using room(1) ent by (simp add: pool_size_entries [OF assms(1)])
  moreover have "sender_ops ?q a \<le> pc_max_ops_per_sender (pl_config p)" for a
    using D(12) [of a] room(2) by (auto simp: ops snd_id)
  moreover have "\<forall>e\<in>#entries_of ?q. entry_ok H e"
    using D(10) ent by (simp add: entry_ok_def)
  moreover have "hm_get (pl_sender_count ?q) a = count_of (sender_ops ?q a)" for a
  proof -
    have "hm_get (pl_sender_count ?q) a =
        ((hm_get (pl_sender_count p))(uo_sender uo \<mapsto> Suc (sender_ops p (uo_sender uo)))) a"
      using D(3) by (simp add: insert_new_def [of H uo b p] Let_def hm_get_upsert D(9) snd_id)
    then show ?thesis by (auto simp: ops snd_id D(9))
  qed
  ultimately show ?thesis
    unfolding pool_inv_def by auto
qed

section \<open>Adding\<close>

lemma sender_count_ops:
  "pool_inv H p \<Longrightarrow>
   (case hm_get (pl_sender_count p) a of Some c \<Rightarrow> c | None \<Rightarrow> 0) = sender_ops p a"
  by (simp add: pool_invD(9) count_of_def)

lemma add_checked_eq:
  assumes "pool_inv H p"
  shows "add_checked H uo b p =
    (if pc_max_ops_per_sender (pl_config p) \<le> sender_ops p (uo_sender uo)
     then (Inl (PoolOther (SenderLimit (uo_sender uo) (sender_ops p (uo_sender uo))
             (pc_max_ops_per_sender (pl_config p)))), p)
     else if pc_max_size (pl_config p) \<le> pool_size p
     then (Inl (PoolFull (pc_max_size (pl_config p))), p)
     else (Inr (uo_hash H uo), insert_new H uo b p))"
  by (simp add: add_checked_def Let_def sender_count_ops [OF assms] uo_id_def id_new_def)

text \<open>Taking the entry of an id out makes room for its replacement.\<close>

lemma add_checked_replacement:
  assumes "pool_inv H p" "hm_get (pl_by_id p) (uo_id uo) = Some e"
  shows "add_checked H uo b (remove_inner e p) =
    (Inr (uo_hash H uo), insert_new H uo b (remove_inner e p))"
proof -
  have e: "e \<in># entries_of p" "pe_id e = uo_id uo" using assms by (simp_all add: by_id_iff)
  note q = remove_inner_inv [OF assms(1) e(1)] and ent = remove_inner_entries [OF assms(1) e(1)]
  have "id_sender (pe_id e) = uo_sender uo" by (simp add: e uo_id_def id_new_def)
  then have "sender_ops (remove_inner e p) (uo_sender uo) < pc_max_ops_per_sender (pl_config p)"
    using pool_invD(12) [OF assms(1), of "uo_sender uo"] sender_ops_add [OF ent, of "uo_sender uo"]
    by simp
  moreover have "pool_size (remove_inner e p) < pc_max_size (pl_config p)"
    using pool_invD(11) [OF assms(1)] ent by (simp add: pool_size_entries [OF q])
  ultimately show ?thesis by (simp add: add_checked_eq [OF q])
qed

lemma remove_inner_get:
  assumes "pool_inv H p"
  shows "hm_get (pl_by_hash (remove_inner e p)) = (hm_get (pl_by_hash p))(pe_hash e := None)"
    and "hm_get (pl_by_id (remove_inner e p)) = (hm_get (pl_by_id p))(pe_id e := None)"
  using pool_invD(1,2) [OF assms] by (simp_all add: remove_inner_def Let_def)

lemma insert_new_get:
  assumes "pool_inv H p"
  shows "hm_get (pl_by_hash (insert_new H uo b p)) =
      (hm_get (pl_by_hash p))(uo_hash H uo \<mapsto> new_entry H uo b p)"
    and "hm_get (pl_by_id (insert_new H uo b p)) =
      (hm_get (pl_by_id p))(uo_id uo \<mapsto> new_entry H uo b p)"
  using pool_invD(1,2) [OF assms] by (simp_all add: insert_new_def Let_def)

text \<open>The four outcomes of \<open>add\<close> on a pool that satisfies the invariant.\<close>

lemma pool_add_eq:
  assumes "pool_inv H p"
  shows "pool_add H uo b p =
    (if hm_get (pl_by_hash p) (uo_hash H uo) \<noteq> None then (Inl (AlreadyKnown (uo_hash H uo)), p)
     else case hm_get (pl_by_id p) (uo_id uo) of
       None \<Rightarrow> add_checked H uo b p
     | Some e \<Rightarrow>
         if uo_max_fee_per_gas uo < min_bump (pl_config p) (uo_max_fee_per_gas (pe_uo e))
         then (Inl (ReplacementUnderpriced (uo_max_fee_per_gas (pe_uo e)) (uo_max_fee_per_gas uo)), p)
         else (Inr (uo_hash H uo), insert_new H uo b (remove_inner e p)))"
  using add_checked_replacement [OF assms]
  by (simp add: pool_add_def Let_def hm_contains_def split: option.split)

section \<open>Runs of the pool\<close>

text \<open>The state-changing methods as commands, and a run of commands from an empty pool.\<close>

datatype pool_cmd =
    CmdAdd user_operation u128
  | CmdRemoveByHash b256
  | CmdRemoveById user_operation_id
  | CmdClear

fun pool_step :: "hashing \<Rightarrow> operation_pool \<Rightarrow> pool_cmd \<Rightarrow> operation_pool" where
  "pool_step H p (CmdAdd uo b) = snd (pool_add H uo b p)"
| "pool_step H p (CmdRemoveByHash h) = snd (remove_by_hash h p)"
| "pool_step H p (CmdRemoveById i) = snd (remove_by_id i p)"
| "pool_step H p CmdClear = pool_clear p"

definition pool_run :: "hashing \<Rightarrow> operation_pool \<Rightarrow> pool_cmd list \<Rightarrow> operation_pool" where
  "pool_run H p cmds = foldl (pool_step H) p cmds"

lemma add_checked_inv:
  assumes "pool_inv H p"
    and "hm_get (pl_by_hash p) (uo_hash H uo) = None" "hm_get (pl_by_id p) (uo_id uo) = None"
  shows "pool_inv H (snd (add_checked H uo b p))"
  using assms by (auto simp: add_checked_eq intro!: insert_new_inv)

lemma remove_inner_room:
  assumes "pool_inv H p" "hm_get (pl_by_id p) i = Some e"
  shows "pool_size (remove_inner e p) < pc_max_size (pl_config p)"
    and "sender_ops (remove_inner e p) (id_sender i) < pc_max_ops_per_sender (pl_config p)"
proof -
  have e: "e \<in># entries_of p" "pe_id e = i" using assms by (simp_all add: by_id_iff)
  note ent = remove_inner_entries [OF assms(1) e(1)]
  show "pool_size (remove_inner e p) < pc_max_size (pl_config p)"
    using pool_invD(11) [OF assms(1)] ent
    by (simp add: pool_size_entries [OF remove_inner_inv [OF assms(1) e(1)]])
  show "sender_ops (remove_inner e p) (id_sender i) < pc_max_ops_per_sender (pl_config p)"
    using pool_invD(12) [OF assms(1), of "id_sender i"] sender_ops_add [OF ent, of "id_sender i"] e(2)
    by simp
qed

lemma replace_inv:
  assumes "pool_inv H p" "hm_get (pl_by_hash p) (uo_hash H uo) = None"
    "hm_get (pl_by_id p) (uo_id uo) = Some e"
  shows "pool_inv H (insert_new H uo b (remove_inner e p))"
proof (rule insert_new_inv)
  have e: "e \<in># entries_of p" "pe_id e = uo_id uo" using assms by (simp_all add: by_id_iff)
  show "pool_inv H (remove_inner e p)" using assms(1) e(1) by (rule remove_inner_inv)
  show "hm_get (pl_by_hash (remove_inner e p)) (uo_hash H uo) = None"
    "hm_get (pl_by_id (remove_inner e p)) (uo_id uo) = None"
    using assms e by (simp_all add: remove_inner_get)
  show "pool_size (remove_inner e p) < pc_max_size (pl_config (remove_inner e p))"
    "sender_ops (remove_inner e p) (uo_sender uo) < pc_max_ops_per_sender (pl_config (remove_inner e p))"
    using remove_inner_room [OF assms(1,3)] by (simp_all add: uo_id_def id_new_def)
qed

lemma pool_add_inv [inv_intros]:
  assumes "pool_inv H p"
  shows "pool_inv H (snd (pool_add H uo b p))"
  using assms by (auto simp: pool_add_eq intro: add_checked_inv replace_inv split: option.split)

lemma remove_by_hash_inv [inv_intros]:
  "pool_inv H p \<Longrightarrow> pool_inv H (snd (remove_by_hash h p))"
  by (auto simp: remove_by_hash_def by_hash_iff intro: remove_inner_inv split: option.split)

lemma remove_by_id_inv [inv_intros]:
  "pool_inv H p \<Longrightarrow> pool_inv H (snd (remove_by_id i p))"
  by (auto simp: remove_by_id_def by_id_iff intro: remove_inner_inv split: option.split)

lemma pool_step_inv: "pool_inv H p \<Longrightarrow> pool_inv H (pool_step H p c)"
  by (cases c) (simp_all add: pool_add_inv remove_by_hash_inv remove_by_id_inv)

lemma pool_run_inv: "pool_inv H p \<Longrightarrow> pool_inv H (pool_run H p cmds)"
  by (induction cmds arbitrary: p) (simp_all add: pool_run_def pool_step_inv)

lemma pool_add_config [simp]: "pl_config (snd (pool_add H uo b p)) = pl_config p"
  by (simp add: pool_add_def add_checked_def Let_def split: option.split)

lemma pool_step_config [simp]: "pl_config (pool_step H p c) = pl_config p"
  by (cases c) (simp_all add: remove_by_hash_def remove_by_id_def pool_clear_def split: option.split)

lemma pool_run_config [simp]: "pl_config (pool_run H p cmds) = pl_config p"
  by (induction cmds arbitrary: p) (simp_all add: pool_run_def)

section \<open>Properties\<close>

text \<open>
  Claim C1.  Whatever sequence of additions, removals and clears is run on a new pool, its
  five containers agree: both indexes hold exactly the entries of the ordered set under
  their own hash and id, the set is strictly sorted, the counters count the operations of
  each sender, and neither the pool limit nor a sender's limit is exceeded.
\<close>

theorem pool_run_consistent:
  "let p = pool_run H (pool_new cfg) cmds in
     pool_inv H p \<and> pool_size p \<le> pc_max_size cfg \<and>
     (\<forall>a. sender_ops p a \<le> pc_max_ops_per_sender cfg)"
proof -
  let ?p = "pool_run H (pool_new cfg) cmds"
  have inv: "pool_inv H ?p" by (simp add: pool_run_inv)
  have "pl_config ?p = cfg" by (simp add: pool_new_def)
  then show ?thesis
    using inv pool_invD(11,12) [OF inv] pool_size_entries [OF inv] by (simp add: Let_def)
qed

text \<open>
  The abstract pool is one finite map from operation ids to entries; adding to it is the
  replacement rule of the pool's documentation.
\<close>

definition abs_pool :: "operation_pool \<Rightarrow> user_operation_id \<Rightarrow> pool_entry option" where
  "abs_pool p = hm_get (pl_by_id p)"

definition abs_add ::
  "hashing \<Rightarrow> pool_config \<Rightarrow> user_operation \<Rightarrow> pool_entry \<Rightarrow> (user_operation_id \<Rightarrow> pool_entry option)
   \<Rightarrow> pool_error + (user_operation_id \<Rightarrow> pool_entry option)" where
  "abs_add H cfg uo new m =
     (if \<exists>e\<in>ran m. pe_hash e = uo_hash H uo then Inl (AlreadyKnown (uo_hash H uo))
      else case m (uo_id uo) of
        Some e \<Rightarrow>
          if uo_max_fee_per_gas uo < min_bump cfg (uo_max_fee_per_gas (pe_uo e))
          then Inl (ReplacementUnderpriced (uo_max_fee_per_gas (pe_uo e)) (uo_max_fee_per_gas uo))
          else Inr (m(uo_id uo \<mapsto> new))
      | None \<Rightarrow>
          let n = card {i \<in> dom m. id_sender i = uo_sender uo} in
          if pc_max_ops_per_sender cfg \<le> n
          then Inl (PoolOther (SenderLimit (uo_sender uo) n (pc_max_ops_per_sender cfg)))
          else if pc_max_size cfg \<le> card (dom m) then Inl (PoolFull (pc_max_size cfg))
          else Inr (m(uo_id uo \<mapsto> new)))"

lemma abs_pool_ran:
  assumes "pool_inv H p"
  shows "(\<exists>e\<in>ran (abs_pool p). pe_hash e = h) \<longleftrightarrow> hm_get (pl_by_hash p) h \<noteq> None"
  by (auto simp: abs_pool_def ran_def by_id_iff [OF assms] by_hash_iff [OF assms]
      simp flip: not_None_eq)

lemma abs_pool_counts:
  assumes "pool_inv H p"
  shows "card {i \<in> dom (abs_pool p). id_sender i = a} = sender_ops p a"
    and "card (dom (abs_pool p)) = pool_size p"
proof -
  note D = pool_invD [OF assms]
  have *: "size (filter_mset P (entries_of p)) = card {i. \<exists>e. abs_pool p i = Some e \<and> P e}" for P
    using hm_count_values [OF D(2), of P] by (simp add: D(6) abs_pool_def)
  have "{i \<in> dom (abs_pool p). id_sender i = a} = {i. \<exists>e. abs_pool p i = Some e \<and> id_sender (pe_id e) = a}"
    by (auto simp: abs_pool_def by_id_iff [OF assms])
  then show "card {i \<in> dom (abs_pool p). id_sender i = a} = sender_ops p a"
    by (simp add: sender_ops_def *)
  have "dom (abs_pool p) = {i. \<exists>e. abs_pool p i = Some e \<and> True}" by auto
  then show "card (dom (abs_pool p)) = pool_size p"
    using * [of "\<lambda>_. True"] by (simp add: pool_size_entries [OF assms])
qed

lemma pool_add_abs:
  assumes "pool_inv H p"
  shows "case pool_add H uo b p of
      (Inl err, p') \<Rightarrow> p' = p \<and> abs_add H (pl_config p) uo (new_entry H uo b p) (abs_pool p) = Inl err
    | (Inr h, p') \<Rightarrow> h = uo_hash H uo \<and>
        abs_add H (pl_config p) uo (new_entry H uo b p) (abs_pool p) = Inr (abs_pool p')"
proof (cases "hm_get (pl_by_hash p) (uo_hash H uo)")
  case (Some e)
  then show ?thesis by (simp add: pool_add_eq [OF assms] abs_add_def abs_pool_ran [OF assms])
next
  case None
  note fresh = None
  show ?thesis
  proof (cases "hm_get (pl_by_id p) (uo_id uo)")
    case None
    moreover from this have "abs_pool p (uo_id uo) = None" by (simp add: abs_pool_def)
    moreover have "abs_pool (insert_new H uo b p) = (abs_pool p)(uo_id uo \<mapsto> new_entry H uo b p)"
      by (simp add: abs_pool_def insert_new_get [OF assms])
    ultimately show ?thesis
      using fresh
      by (simp add: pool_add_eq [OF assms] abs_add_def abs_pool_ran [OF assms] Let_def
          add_checked_eq [OF assms] abs_pool_counts [OF assms])
  next
    case (Some e)
    then have e: "e \<in># entries_of p" "pe_id e = uo_id uo" using assms by (simp_all add: by_id_iff)
    note q = remove_inner_inv [OF assms e(1)]
    have "pl_next_sequence (remove_inner e p) = pl_next_sequence p"
      by (simp add: remove_inner_def Let_def)
    then have "abs_pool (insert_new H uo b (remove_inner e p)) = (abs_pool p)(uo_id uo \<mapsto> new_entry H uo b p)"
      using e(2) by (simp add: abs_pool_def insert_new_get [OF q] remove_inner_get [OF assms])
    moreover have "abs_pool p (uo_id uo) = Some e" using Some by (simp add: abs_pool_def)
    ultimately show ?thesis
      using Some fresh by (simp add: pool_add_eq [OF assms] abs_add_def abs_pool_ran [OF assms])
  qed
qed

text \<open>
  Claim C3.  \<open>add\<close> implements the abstract map: it reports exactly the abstract error and
  then leaves the pool as it was, or it returns the operation's hash and the five
  containers represent the abstract map with the new entry under its id.
\<close>

theorem pool_add_refines:
  assumes "pool_inv H p"
  shows "case pool_add H uo b p of
      (Inl err, p') \<Rightarrow> p' = p \<and> abs_add H (pl_config p) uo (new_entry H uo b p) (abs_pool p) = Inl err
    | (Inr h, p') \<Rightarrow> h = uo_hash H uo \<and>
        abs_add H (pl_config p) uo (new_entry H uo b p) (abs_pool p) = Inr (abs_pool p')"
  using assms by (rule pool_add_abs)

text \<open>Concrete operations for the witnesses: sender, nonce, fee and cached hash vary.\<close>

definition sample_hashing :: hashing where
  "sample_hashing = \<lparr>keccak256 = (\<lambda>bs. word_of_nat (be_value (take 32 bs))),
                     abi_encode = (\<lambda>p. to_be_bytes (pk_nonce p))\<rparr>"

definition sample_uo :: "address \<Rightarrow> u256 \<Rightarrow> u128 \<Rightarrow> b256 \<Rightarrow> user_operation" where
  "sample_uo s n fee h =
     \<lparr>uo_sender = s, uo_nonce = n, uo_call_data = [171], uo_call_gas_limit = 100000,
      uo_verification_gas_limit = 200000, uo_pre_verification_gas = 50000,
      uo_max_fee_per_gas = fee, uo_max_priority_fee_per_gas = 1, uo_signature = [1],
      uo_factory = None, uo_factory_data = [], uo_paymaster = None,
      uo_paymaster_verification_gas_limit = 0, uo_paymaster_post_op_gas_limit = 0,
      uo_paymaster_data = [], uo_entry_point = 238, uo_chain_id = 1,
      uo_cached_hash = Some h\<rparr>"

lemmas pool_eval = pool_add_def add_checked_def insert_new_def remove_inner_def Let_def
  pool_size_def pool_new_def pool_config_default_def hm_defs AList.delete_eq min_bump_def
  sample_uo_def sample_hashing_def uo_hash_def uo_id_def id_new_def pool_entry_new_def
  uo_effective_gas_price_def uo_gas_fees_def effective_gas_price_def gas_fees_new_def
  order_cmp_def cmp_of_def then_with_def saturating_add_def

definition sample_pool :: operation_pool where
  "sample_pool = pool_run sample_hashing (pool_new pool_config_default)
     [CmdAdd (sample_uo 1 0 30 11) 15, CmdAdd (sample_uo 2 0 40 12) 15]"

lemma sample_pool_inv: "pool_inv H (pool_run H (pool_new cfg) cmds)"
  by (simp add: pool_run_inv)

theorem pool_add_refines_witness:
  "case pool_add sample_hashing (sample_uo 1 0 40 13) 15 sample_pool of
      (Inl err, p') \<Rightarrow> p' = sample_pool \<and>
        abs_add sample_hashing (pl_config sample_pool) (sample_uo 1 0 40 13)
          (new_entry sample_hashing (sample_uo 1 0 40 13) 15 sample_pool) (abs_pool sample_pool) = Inl err
    | (Inr h, p') \<Rightarrow> h = 13 \<and>
        abs_add sample_hashing (pl_config sample_pool) (sample_uo 1 0 40 13)
          (new_entry sample_hashing (sample_uo 1 0 40 13) 15 sample_pool) (abs_pool sample_pool)
          = Inr (abs_pool p')"
  using pool_add_refines [of sample_hashing sample_pool "sample_uo 1 0 40 13" 15]
    sample_pool_inv [of sample_hashing pool_config_default]
  by (auto simp: sample_pool_def uo_hash_def sample_uo_def split: sum.splits prod.splits)

lemma pool_add_outcome:
  assumes "pool_inv H p" "pool_add H uo b p = (r, p')"
  shows "case r of
      Inl err \<Rightarrow> p' = p
    | Inr h \<Rightarrow> h = uo_hash H uo \<and>
        entries_of p' = add_mset (new_entry H uo b p) {#e \<in># entries_of p. pe_id e \<noteq> uo_id uo#}"
proof (cases "hm_get (pl_by_id p) (uo_id uo)")
  case None
  then have "\<forall>e\<in>#entries_of p. pe_id e \<noteq> uo_id uo"
    using by_id_iff [OF assms(1), of "uo_id uo"] by auto
  then have "{#e \<in># entries_of p. pe_id e \<noteq> uo_id uo#} = entries_of p"
    by (simp add: filter_mset_eq_conv)
  with None assms show ?thesis
    by (auto simp: pool_add_eq add_checked_eq insert_new_entries split: if_splits)
next
  case (Some e)
  then have e: "e \<in># entries_of p" "pe_id e = uo_id uo"
    using assms(1) by (simp_all add: by_id_iff)
  note q = remove_inner_inv [OF assms(1) e(1)] and ent = remove_inner_entries [OF assms(1) e(1)]
  have none: "hm_get (pl_by_id (remove_inner e p)) (uo_id uo) = None"
    using e by (simp add: remove_inner_get [OF assms(1)])
  then have "\<forall>e'\<in>#entries_of (remove_inner e p). pe_id e' \<noteq> uo_id uo"
    using by_id_iff [OF q, of "uo_id uo"] by auto
  then have rest: "{#e \<in># entries_of p. pe_id e \<noteq> uo_id uo#} = entries_of (remove_inner e p)"
    using e by (simp add: ent filter_mset_eq_conv)
  have sq: "pl_next_sequence (remove_inner e p) = pl_next_sequence p"
    by (simp add: remove_inner_def Let_def)
  show ?thesis
  proof (cases "hm_get (pl_by_hash p) (uo_hash H uo)")
    case None
    then have "hm_get (pl_by_hash (remove_inner e p)) (uo_hash H uo) = None"
      by (simp add: remove_inner_get [OF assms(1)])
    with None Some assms(2) show ?thesis
      by (auto simp: pool_add_eq [OF assms(1)] rest sq insert_new_entries [OF q] split: if_splits)
  next
    case (Some e')
    with assms show ?thesis by (auto simp: pool_add_eq)
  qed
qed

text \<open>
  Claim C4.  A successful \<open>add\<close> changes the set of entries in exactly one way: the entry of
  the same id, if there is one, is replaced by the new entry; a failed one changes nothing,
  so a rejected replacement does not cost the sender the operation it wanted to replace, as
  long as no other call runs in between (\<open>Pool_Threads\<close>).
\<close>

theorem pool_add_entries:
  assumes "pool_inv H p" "pool_add H uo b p = (r, p')"
  shows "case r of
      Inl err \<Rightarrow> p' = p
    | Inr h \<Rightarrow> h = uo_hash H uo \<and>
        entries_of p' = add_mset (new_entry H uo b p) {#e \<in># entries_of p. pe_id e \<noteq> uo_id uo#}"
  using assms by (rule pool_add_outcome)

theorem pool_add_entries_witness:
  "{#e \<in># entries_of (pool_new pool_config_default). pe_id e \<noteq> uo_id (sample_uo 1 0 30 11)#} = {#} \<and>
   entries_of (snd (pool_add sample_hashing (sample_uo 1 0 30 11) 15 (pool_new pool_config_default)))
     = {#pool_entry_new sample_hashing (sample_uo 1 0 30 11) 15 0#}"
proof -
  let ?p = "pool_new pool_config_default" and ?uo = "sample_uo 1 0 30 11"
  have r: "fst (pool_add sample_hashing ?uo 15 ?p) = Inr 11" by (simp add: pool_eval)
  have "entries_of ?p = {#}" "pl_next_sequence ?p = 0" by (simp_all add: entries_of_def pool_new_def)
  then show ?thesis
    using pool_add_entries [of sample_hashing ?p ?uo 15 "Inr 11" "snd (pool_add sample_hashing ?uo 15 ?p)"] r
    by (simp add: prod_eq_iff)
qed

section \<open>Arrival order\<close>

text \<open>
  The additions that were accepted, in the order in which they came, each with the base fee
  it was priced at.  An entry carries its place in this list as its sequence number.
\<close>

fun arrival :: "hashing \<Rightarrow> operation_pool \<Rightarrow> pool_cmd \<Rightarrow> (user_operation \<times> u128) list" where
  "arrival H p (CmdAdd uo b) = (case fst (pool_add H uo b p) of Inl _ \<Rightarrow> [] | Inr _ \<Rightarrow> [(uo, b)])"
| "arrival H p _ = []"

fun arrivals :: "hashing \<Rightarrow> operation_pool \<Rightarrow> pool_cmd list \<Rightarrow> (user_operation \<times> u128) list" where
  "arrivals H p [] = []"
| "arrivals H p (c # cs) = arrival H p c @ arrivals H (pool_step H p c) cs"

definition arrived_at :: "pool_entry \<Rightarrow> nat" where
  "arrived_at e = unat (pe_sequence e)"

definition logged :: "(user_operation \<times> u128) list \<Rightarrow> pool_entry \<Rightarrow> bool" where
  "logged hist e \<longleftrightarrow> arrived_at e < length hist \<and>
     (\<exists>b. hist ! arrived_at e = (pe_uo e, b) \<and> pe_submit_gas_price e = uo_effective_gas_price (pe_uo e) b)"

definition arrival_inv :: "(user_operation \<times> u128) list \<Rightarrow> operation_pool \<Rightarrow> bool" where
  "arrival_inv hist p \<longleftrightarrow> unat (pl_next_sequence p) = length hist \<and> (\<forall>e\<in>#entries_of p. logged hist e)"

lemma arrival_le: "length (arrival H p c) \<le> 1"
  by (cases "(H, p, c)" rule: arrival.cases) (simp_all split: sum.split)

lemma logged_append: "logged xs e \<Longrightarrow> logged (xs @ ys) e"
  by (auto simp: logged_def nth_append)

lemma pool_add_sequence:
  "pl_next_sequence (snd (pool_add H uo b p)) =
     (case fst (pool_add H uo b p) of Inl _ \<Rightarrow> pl_next_sequence p | Inr _ \<Rightarrow> saturating_add (pl_next_sequence p) 1)"
  by (auto simp: pool_add_def add_checked_def insert_new_def remove_inner_def Let_def split: option.splits)

lemma pool_removal_sequence [simp]:
  "pl_next_sequence (snd (remove_by_hash h p)) = pl_next_sequence p"
  "pl_next_sequence (snd (remove_by_id i p)) = pl_next_sequence p"
  "pl_next_sequence (pool_clear p) = pl_next_sequence p"
  by (simp_all add: remove_by_hash_def remove_by_id_def remove_inner_def pool_clear_def Let_def split: option.split)

text \<open>A removal leaves a part of the entries.\<close>

lemma removals_subset:
  assumes "pool_inv H p"
  shows "entries_of (snd (remove_by_hash h p)) \<subseteq># entries_of p"
    "entries_of (snd (remove_by_id i p)) \<subseteq># entries_of p"
    "entries_of (pool_clear p) \<subseteq># entries_of p"
proof -
  have "entries_of (remove_inner e p) \<subseteq># entries_of p" if "e \<in># entries_of p" for e
    using remove_inner_entries [OF assms that] by simp
  then show "entries_of (snd (remove_by_hash h p)) \<subseteq># entries_of p"
    "entries_of (snd (remove_by_id i p)) \<subseteq># entries_of p"
    by (auto simp: remove_by_hash_def remove_by_id_def by_hash_iff [OF assms] by_id_iff [OF assms] split: option.split)
  show "entries_of (pool_clear p) \<subseteq># entries_of p" by (simp add: entries_of_def pool_clear_def)
qed

lemma arrival_inv_subset:
  assumes "arrival_inv hist p" "pl_next_sequence q = pl_next_sequence p" "entries_of q \<subseteq># entries_of p"
  shows "arrival_inv hist q"
  using assms mset_subset_eqD [OF assms(3)] by (auto simp: arrival_inv_def)

lemma add_arrival_inv:
  assumes "pool_inv H p" "arrival_inv hist p" "length hist + 1 < 2 ^ 64"
  shows "arrival_inv (hist @ arrival H p (CmdAdd uo b)) (snd (pool_add H uo b p))"
proof -
  obtain r p' where add: "pool_add H uo b p = (r, p')" by fastforce
  note out = pool_add_outcome [OF assms(1) add] and sq = pool_add_sequence [of H uo b p]
  show ?thesis
  proof (cases r)
    case (Inl err)
    then show ?thesis using out add assms(2) by simp
  next
    case (Inr h)
    let ?n = "pl_next_sequence p"
    have "?n \<noteq> - 1" using assms(2,3) by (auto simp: arrival_inv_def unat_max_word)
    then have "unat (pl_next_sequence p') = Suc (unat ?n)"
      using sq add Inr not_max_less [of ?n] by (simp add: saturating_add_def unat_inc)
    moreover have "logged (hist @ [(uo, b)]) (new_entry H uo b p)"
      using assms(2) by (simp add: logged_def arrived_at_def arrival_inv_def)
    ultimately show ?thesis
      using out add Inr assms(2) by (auto simp: arrival_inv_def logged_append)
  qed
qed

lemma step_arrival_inv:
  assumes "pool_inv H p" "arrival_inv hist p" "length hist + 1 < 2 ^ 64"
  shows "arrival_inv (hist @ arrival H p c) (pool_step H p c)"
  by (cases c)
    (use add_arrival_inv [OF assms] arrival_inv_subset [OF assms(2)] removals_subset [OF assms(1)] in simp_all)

lemma run_arrival_inv:
  assumes "pool_inv H p" "arrival_inv hist p" "length hist + length cs < 2 ^ 64"
  shows "arrival_inv (hist @ arrivals H p cs) (pool_run H p cs)"
  using assms
proof (induction cs arbitrary: p hist)
  case (Cons c cs)
  have "arrival_inv (hist @ arrival H p c) (pool_step H p c)"
    using Cons.prems by (intro step_arrival_inv) simp_all
  moreover have "length (hist @ arrival H p c) + length cs < 2 ^ 64"
    using Cons.prems(3) arrival_le [of H p c] by simp
  ultimately show ?case
    using Cons.IH [OF pool_step_inv [OF Cons.prems(1)], of "hist @ arrival H p c" c] by (simp add: pool_run_def)
qed (simp add: pool_run_def)

text \<open>Ahead in the queue: a higher price, or the same price and an earlier arrival.\<close>

definition ahead :: "pool_entry \<Rightarrow> pool_entry \<Rightarrow> bool" where
  "ahead e e' \<longleftrightarrow> pe_submit_gas_price e' < pe_submit_gas_price e \<or>
     pe_submit_gas_price e = pe_submit_gas_price e' \<and> arrived_at e < arrived_at e'"

lemma order_cmp_ahead:
  assumes "pool_inv H p" "arrival_inv hist p" "e \<in># entries_of p" "e' \<in># entries_of p" "order_cmp e e' = Less"
  shows "ahead e e'"
proof -
  have "\<not> (pe_sequence e = pe_sequence e' \<and> pe_hash e < pe_hash e')"
  proof
    assume eq: "pe_sequence e = pe_sequence e' \<and> pe_hash e < pe_hash e'"
    have "logged hist e" "logged hist e'" using assms(2-4) by (simp_all add: arrival_inv_def)
    then have "pe_uo e = pe_uo e'" using eq by (auto simp: logged_def arrived_at_def)
    moreover have "entry_ok H e" "entry_ok H e'" using pool_invD(10) [OF assms(1)] assms(3,4) by simp_all
    ultimately have "pe_hash e = pe_hash e'" by (simp add: entry_ok_def)
    with eq show False by simp
  qed
  then show ?thesis
    using assms(5) by (auto simp: order_cmp_Less ahead_def arrived_at_def word_less_nat_alt)
qed

text \<open>
  Claim C21.  After any run of additions, removals and clears, \<open>best_operations\<close> returns as
  many entries as asked for or as there are, in this order and none of them behind an entry
  left out: a higher submission gas price first, and among equal prices the operation that
  was accepted first, counted over the whole run.
\<close>

theorem best_operations_best:
  assumes "length cmds < 2 ^ 64"
  shows "let p = pool_run H (pool_new cfg) cmds; best = best_operations p n;
             accepted_ops = arrivals H (pool_new cfg) cmds in
    length best = min n (pool_size p) \<and> mset best \<subseteq># entries_of p \<and>
    (\<forall>e\<in>#entries_of p. arrived_at e < length accepted_ops \<and>
       (\<exists>b. accepted_ops ! arrived_at e = (pe_uo e, b) \<and>
          pe_submit_gas_price e = uo_effective_gas_price (pe_uo e) b)) \<and>
    sorted_wrt ahead best \<and>
    (\<forall>e\<in>set best. \<forall>e'\<in>#entries_of p - mset best. ahead e e')"
proof -
  define p where "p = pool_run H (pool_new cfg) cmds"
  define accepted_ops where "accepted_ops = arrivals H (pool_new cfg) cmds"
  have inv: "pool_inv H p" unfolding p_def by (simp add: pool_run_inv)
  have "arrival_inv [] (pool_new cfg)" by (simp add: arrival_inv_def pool_new_def entries_of_def)
  then have arr: "arrival_inv accepted_ops p"
    using run_arrival_inv [of H "pool_new cfg" "[]" cmds] assms by (simp add: p_def accepted_ops_def)
  let ?o = "pl_ordered p"
  have "sorted_wrt (\<lambda>e e'. order_cmp e e' = Less) ?o" using pool_invD(4) [OF inv] by (simp add: bts_sorted_def)
  then have "sorted_wrt ahead ?o"
    by (rule sorted_wrt_mono_rel [rotated]) (use order_cmp_ahead [OF inv arr] in \<open>simp add: entries_of_def\<close>)
  then have "sorted_wrt ahead (take n ?o @ drop n ?o)" by simp
  then have sorted: "sorted_wrt ahead (take n ?o)" "\<forall>e\<in>set (take n ?o). \<forall>e'\<in>set (drop n ?o). ahead e e'"
    unfolding sorted_wrt_append by auto
  have split: "entries_of p = mset (take n ?o) + mset (drop n ?o)"
    by (metis append_take_drop_id entries_of_def mset_append)
  have "\<forall>e\<in>#entries_of p. logged accepted_ops e" using arr by (simp add: arrival_inv_def)
  moreover have "length (best_operations p n) = min n (pool_size p)" "mset (best_operations p n) \<subseteq># entries_of p"
    "\<forall>e\<in>set (best_operations p n). \<forall>e'\<in>#entries_of p - mset (best_operations p n). ahead e e'"
    using sorted(2) by (simp_all add: best_operations_def pool_size_entries [OF inv] split min.commute)
  ultimately show ?thesis
    using sorted(1) by (simp add: best_operations_def logged_def flip: p_def accepted_ops_def)
qed

text \<open>The higher price is returned although it came last.\<close>

theorem best_operations_best_witness:
  "let cmds = [CmdAdd (sample_uo 1 0 10 11) 5, CmdAdd (sample_uo 2 0 40 12) 39];
       p = pool_run sample_hashing (pool_new pool_config_default) cmds
   in length (best_operations p 1) = 1 \<and> map pe_hash (best_operations p 1) = [12] \<and>
      sorted_wrt ahead (best_operations p 2) \<and> map pe_hash (best_operations p 2) = [12, 11]"
proof -
  let ?cmds = "[CmdAdd (sample_uo 1 0 10 11) 5, CmdAdd (sample_uo 2 0 40 12) 39]"
  let ?p = "pool_run sample_hashing (pool_new pool_config_default) ?cmds"
  have ord: "map pe_hash (pl_ordered ?p) = [12, 11]"
    by (simp add: pool_run_def pool_eval)
  have inv: "pool_inv sample_hashing ?p" by (rule sample_pool_inv)
  have "pool_size ?p = length (map pe_hash (pl_ordered ?p))"
    using pool_size_entries [OF inv] by (simp add: entries_of_def)
  then have "pool_size ?p = 2" unfolding ord by simp
  moreover have "map pe_hash (best_operations ?p k) = take k (map pe_hash (pl_ordered ?p))" for k
    by (simp only: best_operations_def take_map)
  moreover have "length ?cmds < 2 ^ 64" by simp
  ultimately show ?thesis
    using best_operations_best [of ?cmds sample_hashing pool_config_default 1]
      best_operations_best [of ?cmds sample_hashing pool_config_default 2]
    unfolding ord by (simp add: Let_def)
qed

section \<open>The effect of a removal\<close>

lemma remove_by_id_entries:
  assumes "pool_inv H p"
  shows "entries_of (snd (remove_by_id i p)) = {#e \<in># entries_of p. pe_id e \<noteq> i#}"
proof (cases "hm_get (pl_by_id p) i")
  case None
  then have "\<forall>e\<in>#entries_of p. pe_id e \<noteq> i" using by_id_iff [OF assms, of i] by auto
  then have "{#e \<in># entries_of p. pe_id e \<noteq> i#} = entries_of p" by (simp add: filter_mset_eq_conv)
  then show ?thesis using None by (simp add: remove_by_id_def)
next
  case (Some e)
  then have e: "e \<in># entries_of p" "pe_id e = i" using by_id_iff [OF assms] by simp_all
  have "hm_get (pl_by_id (remove_inner e p)) i = None"
    using e by (simp add: remove_inner_get [OF assms])
  then have "\<forall>e'\<in>#entries_of (remove_inner e p). pe_id e' \<noteq> i"
    using by_id_iff [OF remove_inner_inv [OF assms e(1)], of i] by auto
  then have "{#e' \<in># entries_of (remove_inner e p). pe_id e' \<noteq> i#} = entries_of (remove_inner e p)"
    by (simp add: filter_mset_eq_conv)
  then show ?thesis
    using Some e by (simp add: remove_by_id_def remove_inner_entries [OF assms e(1)])
qed

lemma remove_by_hash_entries:
  assumes "pool_inv H p"
  shows "entries_of (snd (remove_by_hash h p)) = {#e \<in># entries_of p. pe_hash e \<noteq> h#}"
proof (cases "hm_get (pl_by_hash p) h")
  case None
  then have "\<forall>e\<in>#entries_of p. pe_hash e \<noteq> h" using by_hash_iff [OF assms, of h] by auto
  then have "{#e \<in># entries_of p. pe_hash e \<noteq> h#} = entries_of p" by (simp add: filter_mset_eq_conv)
  then show ?thesis using None by (simp add: remove_by_hash_def)
next
  case (Some e)
  then have e: "e \<in># entries_of p" "pe_hash e = h" using by_hash_iff [OF assms] by simp_all
  have "hm_get (pl_by_hash (remove_inner e p)) h = None"
    using e by (simp add: remove_inner_get [OF assms])
  then have "\<forall>e'\<in>#entries_of (remove_inner e p). pe_hash e' \<noteq> h"
    using by_hash_iff [OF remove_inner_inv [OF assms e(1)], of h] by auto
  then have "{#e' \<in># entries_of (remove_inner e p). pe_hash e' \<noteq> h#} = entries_of (remove_inner e p)"
    by (simp add: filter_mset_eq_conv)
  then show ?thesis
    using Some e by (simp add: remove_by_hash_def remove_inner_entries [OF assms e(1)])
qed

section \<open>Nonce sequences\<close>

lemma iter_max_Some: "xs \<noteq> [] \<Longrightarrow> iter_max xs = Some (Max (set xs))"
proof (induction xs)
  case (Cons x xs)
  then show ?case by (cases "xs = []") simp_all
qed simp

lemma iter_max_cases: "iter_max xs = (if xs = [] then None else Some (Max (set xs)))"
  by (simp add: iter_max_Some)

definition pool_sequences :: "operation_pool \<Rightarrow> address \<Rightarrow> u256 \<Rightarrow> u64 set" where
  "pool_sequences p a k = {nonce_sequence (pe_id e) | e. e \<in># entries_of p \<and>
     id_sender (pe_id e) = a \<and> nonce_key (pe_id e) = k}"

lemma max_nonce_sequence_eq:
  assumes "pool_inv H p"
  shows "max_nonce_sequence p a k =
    (if pool_sequences p a k = {} then None else Some (Max (pool_sequences p a k)))"
proof -
  let ?xs = "map nonce_sequence
       (filter (\<lambda>i. id_sender i = a \<and> nonce_key i = k) (hm_keys (pl_by_id p)))"
  have xs: "set ?xs = pool_sequences p a k"
    using set_hm_keys [OF pool_invD(2) [OF assms]]
    by (auto simp: pool_sequences_def dom_def by_id_iff [OF assms] image_iff)
  have "?xs = [] \<longleftrightarrow> set ?xs = {}" by (simp only: set_empty)
  then show ?thesis
    unfolding max_nonce_sequence_def iter_max_cases xs by (simp only:)
qed

section \<open>The replacement fee\<close>

lemma unat_min_bump:
  assumes "unat fee * (10000 + unat (pc_replacement_fee_bump_bps cfg)) < 2 ^ 128"
  shows "unat (min_bump cfg fee) =
    unat fee + unat fee * unat (pc_replacement_fee_bump_bps cfg) div 10000"
proof -
  let ?bps = "pc_replacement_fee_bump_bps cfg"
  have up: "unat (ucast ?bps :: u128) = unat ?bps" by (simp add: unat_ucast_up)
  have m: "unat fee * unat ?bps < 2 ^ 128" using assms by (simp add: algebra_simps)
  then have d: "unat (fee * ucast ?bps div 10000) = unat fee * unat ?bps div 10000"
    using unat_mult_fits [of fee "ucast ?bps"] up by (simp add: unat_div_distrib)
  have "unat fee + unat fee * unat ?bps div 10000 < 2 ^ 128"
  proof (cases "unat fee = 0")
    case False
    have "unat fee + unat fee * unat ?bps div 10000 \<le> unat fee * 10000 + unat fee * unat ?bps"
      by (rule add_mono) (simp_all add: div_le_dividend)
    also have "\<dots> < 2 ^ 128" using assms by (simp add: algebra_simps)
    finally show ?thesis .
  qed simp
  then show ?thesis
    using unat_add_fits [of fee "fee * ucast ?bps div 10000"] d by (simp add: min_bump_def)
qed

text \<open>
  A replacement pays the configured bump: when an operation is accepted while
  its id is already in the pool, its fee is at least the old fee plus the bump in basis
  points (rounded down), as long as the old fee times 10000 plus the bump fits in 128 bits.
\<close>

theorem replacement_pays_bump:
  assumes "pool_inv H p" "pool_add H uo b p = (Inr h, p')" "get_by_id p (uo_id uo) = Some e"
    and "unat (uo_max_fee_per_gas (pe_uo e)) *
           (10000 + unat (pc_replacement_fee_bump_bps (pl_config p))) < 2 ^ 128"
  shows "unat (uo_max_fee_per_gas (pe_uo e)) +
      unat (uo_max_fee_per_gas (pe_uo e)) * unat (pc_replacement_fee_bump_bps (pl_config p)) div 10000
    \<le> unat (uo_max_fee_per_gas uo)"
proof -
  have "\<not> uo_max_fee_per_gas uo < min_bump (pl_config p) (uo_max_fee_per_gas (pe_uo e))"
    using assms(1-3) by (auto simp: pool_add_eq get_by_id_def split: if_splits)
  then show ?thesis
    using unat_min_bump [OF assms(4)] by (simp add: word_less_nat_alt not_less)
qed

theorem replacement_pays_bump_witness:
  "unat (1000 :: u128) + unat (1000 :: u128) * unat (1000 :: u32) div 10000 \<le> unat (1100 :: u128)"
proof -
  let ?p = "pool_run sample_hashing (pool_new pool_config_default) [CmdAdd (sample_uo 1 0 1000 11) 5]"
    and ?uo = "sample_uo 1 0 1100 12"
  have inv: "pool_inv sample_hashing ?p" by (rule sample_pool_inv)
  have r: "fst (pool_add sample_hashing ?uo 5 ?p) = Inr 12"
    by (simp add: pool_run_def pool_eval)
  then have add: "pool_add sample_hashing ?uo 5 ?p = (Inr 12, snd (pool_add sample_hashing ?uo 5 ?p))"
    by (simp add: prod_eq_iff)
  have get: "get_by_id ?p (uo_id ?uo) = Some (pool_entry_new sample_hashing (sample_uo 1 0 1000 11) 5 0)"
    by (simp add: pool_run_def pool_eval get_by_id_def)
  have cfg: "pc_replacement_fee_bump_bps (pl_config ?p) = 1000"
    by (simp add: pool_new_def pool_config_default_def)
  have fees: "uo_max_fee_per_gas (sample_uo 1 0 1000 11) = 1000" "uo_max_fee_per_gas ?uo = 1100"
    by (simp_all add: sample_uo_def)
  show ?thesis
    using replacement_pays_bump [OF inv add get] by (simp add: fees cfg)
qed

text \<open>
  The bump check wraps in release builds: with the default ten percent bump an
  operation offering the largest fee is replaced by one that offers 2^120 wei, a lower fee.
\<close>

theorem replacement_check_wraps:
  "let p = pool_run sample_hashing (pool_new pool_config_default) [CmdAdd (sample_uo 1 0 (- 1) 11) 5]
   in fst (pool_add sample_hashing (sample_uo 1 0 (2 ^ 120) 12) 5 p) = Inr 12 \<and>
      map_option (uo_max_fee_per_gas \<circ> pe_uo) (get_by_id p (uo_id (sample_uo 1 0 (2 ^ 120) 12)))
        = Some (- 1) \<and> (2 ^ 120 :: u128) < - 1"
  by (simp add: pool_run_def pool_eval get_by_id_def)

end
