(* ===== verification/Validation.thy ===== *)
theory Validation
  imports Reputation Op_Pool
begin

text \<open>
  \<open>crates/pool/src/validation.rs\<close>: the checks an operation passes before it enters the
  pool.  The validator reads the chain specification and the shared pool and updates its
  own reputation manager, so \<open>validate_sync\<close> returns the manager.
\<close>

section \<open>The checks\<close>

definition validate_static_fields :: "chain_spec \<Rightarrow> user_operation \<Rightarrow> validation_error + unit" where
  "validate_static_fields cs uo =
     (if uo_sender uo = 0 then Inl (InvalidSender 0)
      else if uo_verification_gas_limit uo = 0 then Inl (GasTooLow ''verificationGasLimit'' 0 1)
      else if uo_max_fee_per_gas uo = 0 then Inl (GasTooLow ''maxFeePerGas'' 0 1)
      else if uo_max_fee_per_gas uo < uo_max_priority_fee_per_gas uo
      then Inl (PriorityFeeExceedsMaxFee (uo_max_priority_fee_per_gas uo) (uo_max_fee_per_gas uo))
      else if cs_max_transaction_size_bytes cs < length (uo_call_data uo)
      then Inl (CallDataTooLarge (length (uo_call_data uo)) (cs_max_transaction_size_bytes cs))
      else if uo_pre_verification_gas uo = 0 then Inl (GasTooLow ''preVerificationGas'' 0 1)
      else Inr ())"

definition validate_gas_price ::
  "chain_spec \<Rightarrow> user_operation \<Rightarrow> u128 \<Rightarrow> validation_error + unit" where
  "validate_gas_price cs uo base_fee =
     (let min_priority = cs_min_max_priority_fee_per_gas cs
      in if \<not> covers (uo_gas_fees uo) base_fee min_priority
         then Inl (MaxFeeTooLow (uo_max_fee_per_gas uo) base_fee)
         else Inr ())"

definition validate_nonce ::
  "operation_pool option \<Rightarrow> user_operation \<Rightarrow> validation_error + unit" where
  "validate_nonce pool uo =
     (case pool of
        None \<Rightarrow> Inr ()
      | Some p \<Rightarrow>
          (let i = uo_id uo; key = nonce_key i; sq = nonce_sequence i
           in if get_by_id p i \<noteq> None then Inr ()
              else
                (case max_nonce_sequence p (id_sender i) key of
                   None \<Rightarrow> Inr ()
                 | Some max_seq \<Rightarrow>
                     if sq \<noteq> max_seq + 1
                     then Inl (ValidationOther (InvalidNonceSequence (max_seq + 1) (id_sender i) key sq))
                     else Inr ())))"

text \<open>The message for a failed reputation check; \<open>Ok\<close> is the \<open>unreachable!\<close> arm.\<close>

fun reputation_msg :: "entity \<Rightarrow> reputation_status \<Rightarrow> validation_msg run" where
  "reputation_msg en Throttled = Returns (EntityIsThrottled en)"
| "reputation_msg en Banned = Returns (EntityIsBanned en)"
| "reputation_msg en Ok = Panics"

fun check_entities :: "reputation_manager \<Rightarrow> entity list \<Rightarrow> (validation_error + unit) run" where
  "check_entities m [] = Returns (Inr ())"
| "check_entities m (en # ens) =
     (case check_entity m en of
        Inr _ \<Rightarrow> check_entities m ens
      | Inl status \<Rightarrow>
          (case reputation_msg en status of
             Panics \<Rightarrow> Panics
           | Returns msg \<Rightarrow> Returns (Inl (ValidationOther msg))))"

definition record_seen_all :: "entity list \<Rightarrow> reputation_manager \<Rightarrow> reputation_manager" where
  "record_seen_all ens m = foldl (\<lambda>m en. record_seen (en_address en) m) m ens"

definition validate_reputation ::
  "user_operation \<Rightarrow> reputation_manager \<Rightarrow> (validation_error + unit) run \<times> reputation_manager" where
  "validate_reputation uo m =
     (case check_entities m (uo_entities uo) of
        Returns (Inr _) \<Rightarrow> (Returns (Inr ()), record_seen_all (uo_entities uo) m)
      | r \<Rightarrow> (r, m))"

definition validate_sync ::
  "chain_spec \<Rightarrow> operation_pool option \<Rightarrow> user_operation \<Rightarrow> u128 \<Rightarrow> reputation_manager \<Rightarrow>
   (validation_error + unit) run \<times> reputation_manager" where
  "validate_sync cs pool uo base_fee m =
     (case validate_static_fields cs uo of
        Inl e \<Rightarrow> (Returns (Inl e), m)
      | Inr _ \<Rightarrow>
        (case validate_gas_price cs uo base_fee of
           Inl e \<Rightarrow> (Returns (Inl e), m)
         | Inr _ \<Rightarrow>
           (case validate_nonce pool uo of
              Inl e \<Rightarrow> (Returns (Inl e), m)
            | Inr _ \<Rightarrow> validate_reputation uo m)))"

section \<open>The validator\<close>

text \<open>\<open>Validator\<close>, with the pool it shares as the value it reads.\<close>

record validator =
  vd_chain_spec :: chain_spec
  vd_reputation :: reputation_manager
  vd_pool :: "operation_pool option"

definition validator_new :: "chain_spec \<Rightarrow> reputation_manager \<Rightarrow> validator" where
  "validator_new cs m = \<lparr>vd_chain_spec = cs, vd_reputation = m, vd_pool = None\<rparr>"

definition validator_with_pool :: "chain_spec \<Rightarrow> reputation_manager \<Rightarrow> operation_pool \<Rightarrow> validator" where
  "validator_with_pool cs m p = \<lparr>vd_chain_spec = cs, vd_reputation = m, vd_pool = Some p\<rparr>"

definition validator_validate_sync ::
  "user_operation \<Rightarrow> u128 \<Rightarrow> validator \<Rightarrow> (validation_error + unit) run \<times> validator" where
  "validator_validate_sync uo base_fee v =
     (case validate_sync (vd_chain_spec v) (vd_pool v) uo base_fee (vd_reputation v) of
        (r, m) \<Rightarrow> (r, v\<lparr>vd_reputation := m\<rparr>))"

section \<open>Facts about the checks\<close>

definition static_ok :: "chain_spec \<Rightarrow> user_operation \<Rightarrow> bool" where
  "static_ok cs uo \<longleftrightarrow>
     uo_sender uo \<noteq> 0 \<and> 0 < uo_verification_gas_limit uo \<and> 0 < uo_pre_verification_gas uo \<and>
     0 < uo_max_fee_per_gas uo \<and> uo_max_priority_fee_per_gas uo \<le> uo_max_fee_per_gas uo \<and>
     length (uo_call_data uo) \<le> cs_max_transaction_size_bytes cs"

lemma validate_static_ok: "validate_static_fields cs uo = Inr () \<longleftrightarrow> static_ok cs uo"
  by (auto simp: validate_static_fields_def static_ok_def word_neq_0_conv not_less)

lemma validate_gas_price_ok:
  "validate_gas_price cs uo b = Inr () \<longleftrightarrow> covers (uo_gas_fees uo) b (cs_min_max_priority_fee_per_gas cs)"
  by (simp add: validate_gas_price_def Let_def)

text \<open>The pool-level nonce rule, over the sequences the pool holds for the sender and key.\<close>

definition nonce_ok :: "operation_pool \<Rightarrow> user_operation \<Rightarrow> bool" where
  "nonce_ok p uo \<longleftrightarrow>
     (let S = pool_sequences p (uo_sender uo) (nonce_key (uo_id uo))
      in get_by_id p (uo_id uo) \<noteq> None \<or> S = {} \<or> nonce_sequence (uo_id uo) = Max S + 1)"

lemma uo_id_simps [simp]: "id_sender (uo_id uo) = uo_sender uo" "id_nonce (uo_id uo) = uo_nonce uo"
  by (simp_all add: uo_id_def id_new_def)

lemma validate_nonce_ok:
  "pool_inv H p \<Longrightarrow> validate_nonce (Some p) uo = Inr () \<longleftrightarrow> nonce_ok p uo"
  by (auto simp: validate_nonce_def nonce_ok_def Let_def max_nonce_sequence_eq)

lemma check_entities_returns:
  "check_entities m ens =
     Returns (case find (\<lambda>en. rm_status m (en_address en) \<noteq> Ok) ens of
        None \<Rightarrow> Inr ()
      | Some en \<Rightarrow> Inl (ValidationOther
          (if rm_status m (en_address en) = Banned then EntityIsBanned en else EntityIsThrottled en)))"
proof (induction ens)
  case (Cons en ens)
  then show ?case
    by (cases "rm_status m (en_address en)") (simp_all add: check_entity_def)
qed simp

lemma check_entities_ok:
  "check_entities m ens = Returns (Inr ()) \<longleftrightarrow> (\<forall>en\<in>set ens. rm_status m (en_address en) = Ok)"
proof (induction ens)
  case (Cons en ens)
  then show ?case
    by (cases "rm_status m (en_address en)") (simp_all add: check_entity_def)
qed simp

lemma validate_reputation_eq:
  "validate_reputation uo m =
     (check_entities m (uo_entities uo),
      if \<forall>en\<in>set (uo_entities uo). rm_status m (en_address en) = Ok
      then record_seen_all (uo_entities uo) m else m)"
  using check_entities_ok [of m "uo_entities uo"]
  by (auto simp: validate_reputation_def split: run.split sum.split)

text \<open>How often an address is named by an operation.\<close>

definition mentions :: "user_operation \<Rightarrow> address \<Rightarrow> nat" where
  "mentions uo a = length (filter (\<lambda>en. en_address en = a) (uo_entities uo))"

lemma mentions_bounds: "mentions uo a \<le> 3" "1 \<le> mentions uo (uo_sender uo)"
  by (auto simp: mentions_def uo_entities_def entity_defs split: option.split)

lemma record_seen_all_inv [simp, inv_intros]: "rm_inv m \<Longrightarrow> rm_inv (record_seen_all ens m)"
  by (induction ens arbitrary: m) (simp_all add: record_seen_all_def)

lemma record_seen_all_config [simp]: "rm_config (record_seen_all ens m) = rm_config m"
  by (induction ens arbitrary: m) (simp_all add: record_seen_all_def)

lemma record_seen_all_included: "rm_inv m \<Longrightarrow> included (record_seen_all ens m) a = included m a"
  by (induction ens arbitrary: m) (simp_all add: record_seen_all_def counters_record_seen)

lemma record_seen_all_seen:
  "rm_inv m \<Longrightarrow> seen (record_seen_all ens m) a =
     seen m a + of_nat (length (filter (\<lambda>en. en_address en = a) ens))"
  by (induction ens arbitrary: m) (simp_all add: record_seen_all_def counters_record_seen algebra_simps)

lemma validate_sync_inv [inv_intros]: "rm_inv m \<Longrightarrow> rm_inv (snd (validate_sync cs pool uo b m))"
  by (auto simp: validate_sync_def validate_reputation_eq split: sum.split)

lemma validate_sync_accepts:
  "fst (validate_sync cs pool uo b m) = Returns (Inr ()) \<longleftrightarrow>
     validate_static_fields cs uo = Inr () \<and> validate_gas_price cs uo b = Inr () \<and>
     validate_nonce pool uo = Inr () \<and> (\<forall>en\<in>set (uo_entities uo). rm_status m (en_address en) = Ok)"
  by (auto simp: validate_sync_def validate_reputation_eq check_entities_ok split: sum.split)

lemma validate_sync_manager:
  "snd (validate_sync cs pool uo b m) =
     (if fst (validate_sync cs pool uo b m) = Returns (Inr ())
      then record_seen_all (uo_entities uo) m else m)"
  by (auto simp: validate_sync_def validate_reputation_eq check_entities_ok split: sum.split)

section \<open>Properties\<close>

text \<open>
  Claim C8.  Validation never panics, and it accepts exactly the operations with sound
  static fields, fees that cover the market, a nonce the pool can take next (a replacement,
  the first of its key, or the successor of the highest sequence held), and entities of
  good standing.  It counts each entity once when it accepts and touches nothing when it
  rejects.
\<close>

theorem validate_sync_spec:
  assumes "pool_inv H p" "rm_inv m"
  shows "fst (validate_sync cs (Some p) uo b m) \<noteq> Panics \<and>
    (fst (validate_sync cs (Some p) uo b m) = Returns (Inr ()) \<longleftrightarrow>
       static_ok cs uo \<and> covers (uo_gas_fees uo) b (cs_min_max_priority_fee_per_gas cs) \<and>
       nonce_ok p uo \<and> (\<forall>en\<in>set (uo_entities uo). rm_status m (en_address en) = Ok)) \<and>
    (\<forall>a. seen (snd (validate_sync cs (Some p) uo b m)) a = seen m a +
       (if fst (validate_sync cs (Some p) uo b m) = Returns (Inr ()) then of_nat (mentions uo a) else 0))"
proof (intro conjI allI)
  show "fst (validate_sync cs (Some p) uo b m) \<noteq> Panics"
    by (auto simp: validate_sync_def validate_reputation_eq check_entities_returns split: sum.split)
  show "fst (validate_sync cs (Some p) uo b m) = Returns (Inr ()) \<longleftrightarrow>
       static_ok cs uo \<and> covers (uo_gas_fees uo) b (cs_min_max_priority_fee_per_gas cs) \<and>
       nonce_ok p uo \<and> (\<forall>en\<in>set (uo_entities uo). rm_status m (en_address en) = Ok)"
    by (simp add: validate_sync_accepts validate_static_ok validate_gas_price_ok
        validate_nonce_ok [OF assms(1)])
  show "seen (snd (validate_sync cs (Some p) uo b m)) a = seen m a +
       (if fst (validate_sync cs (Some p) uo b m) = Returns (Inr ()) then of_nat (mentions uo a) else 0)" for a
    by (simp add: validate_sync_manager record_seen_all_seen [OF assms(2)] mentions_def)
qed

theorem validate_sync_spec_witness:
  "fst (validate_sync chain_spec_dev (Some (pool_new pool_config_default)) (sample_uo 1 0 30 11) 15 rm_default)
     = Returns (Inr ())"
proof -
  let ?p = "pool_new pool_config_default" and ?uo = "sample_uo 1 0 30 11"
  have "static_ok chain_spec_dev ?uo"
    by (simp add: static_ok_def chain_spec_dev_def sample_uo_def)
  moreover have "covers (uo_gas_fees ?uo) 15 (cs_min_max_priority_fee_per_gas chain_spec_dev)"
    by (simp add: covers_def uo_gas_fees_def chain_spec_dev_def sample_uo_def)
  moreover have "nonce_ok ?p ?uo"
    by (simp add: nonce_ok_def pool_sequences_def entries_of_def pool_new_def)
  moreover have "\<forall>a. rm_status rm_default a = Ok"
    by (simp add: rm_default_def)
  moreover have "pool_inv sample_hashing ?p" "rm_inv rm_default"
    by (simp_all add: rm_default_def)
  ultimately show ?thesis
    using validate_sync_spec [of sample_hashing ?p rm_default chain_spec_dev ?uo 15] by blast
qed

end
