(* ===== verification/Provider_Api.thy ===== *)
theory Provider_Api
  imports Chain_Types User_Operation
begin

text \<open>
  \<open>crates/provider/src/traits.rs\<close>: the interfaces to the Ethereum node.  The node is not
  part of the program: its state is a type variable \<open>'w\<close>, and a provider is a record of
  functions that answer a request and move that state.  Whatever happens on the chain
  between two requests is part of the move, so a theorem for every provider holds for
  every node.
\<close>

section \<open>Library values that cross the interface\<close>

datatype tx_kind = Create | Call address

record tx_request =
  tq_to :: "tx_kind option"
  tq_nonce :: "u64 option"
  tq_gas :: "u64 option"
  tq_max_fee_per_gas :: "u128 option"
  tq_max_priority_fee_per_gas :: "u128 option"
  tq_value :: "u256 option"
  tq_input :: "bytes option"

definition tx_request_default :: tx_request where
  "tx_request_default =
     \<lparr>tq_to = None, tq_nonce = None, tq_gas = None, tq_max_fee_per_gas = None,
      tq_max_priority_fee_per_gas = None, tq_value = None, tq_input = None\<rparr>"

record log_filter =
  lf_address :: address
  lf_event_signature :: b256
  lf_topic1 :: "b256 option"
  lf_from_block :: u64
  lf_to_block :: u64

record event_log =
  lg_topics :: "b256 list"
  lg_data :: bytes
  lg_transaction_hash :: "b256 option"

record block =
  bk_hash :: b256
  bk_parent_hash :: b256
  bk_base_fee_per_gas :: "u64 option"
  bk_timestamp :: u64

record tx_receipt =
  tr_block_number :: "u64 option"

section \<open>Requests\<close>

type_synonym ('w, 'a) io = "'w \<Rightarrow> (provider_error + 'a) \<times> 'w"

text \<open>The question mark operator on an awaited request: continue, or return the error.\<close>

definition io_bind :: "('w \<Rightarrow> ('e + 'a) \<times> 'w) \<Rightarrow> ('a \<Rightarrow> 'w \<Rightarrow> ('e + 'b) \<times> 'w) \<Rightarrow> 'w \<Rightarrow> ('e + 'b) \<times> 'w" where
  "io_bind c k w = (case c w of (Inl e, w') \<Rightarrow> (Inl e, w') | (Inr a, w') \<Rightarrow> k a w')"

definition io_return :: "'a \<Rightarrow> 'w \<Rightarrow> ('e + 'a) \<times> 'w" where
  "io_return a w = (Inr a, w)"

definition io_fail :: "'e \<Rightarrow> 'w \<Rightarrow> ('e + 'a) \<times> 'w" where
  "io_fail e w = (Inl e, w)"

definition io_map_err :: "('e \<Rightarrow> 'f) \<Rightarrow> ('w \<Rightarrow> ('e + 'a) \<times> 'w) \<Rightarrow> 'w \<Rightarrow> ('f + 'a) \<times> 'w" where
  "io_map_err f c w = (case c w of (r, w') \<Rightarrow> (map_sum f id r, w'))"

lemma io_bind_return [simp]: "io_bind (io_return a) k = k a" "io_bind c io_return = c"
  by (auto simp: fun_eq_iff io_bind_def io_return_def split: prod.split sum.split)

lemma io_bind_fail [simp]: "io_bind (io_fail e) k = io_fail e"
  by (simp add: fun_eq_iff io_bind_def io_fail_def)

lemma io_bind_assoc: "io_bind (io_bind c k) l = io_bind c (\<lambda>a. io_bind (k a) l)"
  by (auto simp: fun_eq_iff io_bind_def split: prod.split sum.split)

lemma io_bind_Inr_iff:
  "io_bind c k w = (Inr b, w'') \<longleftrightarrow> (\<exists>a w'. c w = (Inr a, w') \<and> k a w' = (Inr b, w''))"
  by (auto simp: io_bind_def split: prod.split sum.split)

text \<open>
  A component with state of its own runs on pairs of its state and the node.
\<close>

definition on_node :: "('w \<Rightarrow> ('e + 'a) \<times> 'w) \<Rightarrow> 's \<times> 'w \<Rightarrow> ('e + 'a) \<times> 's \<times> 'w" where
  "on_node c sw = (case c (snd sw) of (r, w') \<Rightarrow> (r, fst sw, w'))"

definition get_state :: "'s \<times> 'w \<Rightarrow> ('e + 's) \<times> 's \<times> 'w" where
  "get_state sw = (Inr (fst sw), sw)"

definition modify_state :: "('s \<Rightarrow> 's) \<Rightarrow> 's \<times> 'w \<Rightarrow> ('e + unit) \<times> 's \<times> 'w" where
  "modify_state f sw = (Inr (), f (fst sw), snd sw)"

lemmas io_defs = io_bind_def io_return_def io_fail_def io_map_err_def on_node_def get_state_def
  modify_state_def

lemma io_bind_on_node:
  "io_bind (on_node c) k (s, w) =
     (case c w of (Inl e, w') \<Rightarrow> (Inl e, s, w') | (Inr a, w') \<Rightarrow> k a (s, w'))"
  by (auto simp: io_bind_def on_node_def split: prod.split sum.split)

lemma io_bind_state [simp]:
  "io_bind get_state k (s, w) = k s (s, w)"
  "io_bind (modify_state f) l (s, w) = l () (f s, w)"
  by (simp_all add: io_bind_def get_state_def modify_state_def)

section \<open>The traits\<close>

record 'w evm_provider =
  evm_call :: "tx_request \<Rightarrow> u64 option \<Rightarrow> ('w, bytes) io"
  evm_get_logs :: "log_filter \<Rightarrow> ('w, event_log list) io"
  evm_get_block :: "u64 \<Rightarrow> ('w, block option) io"
  evm_get_block_number :: "('w, u64) io"
  evm_get_nonce :: "address \<Rightarrow> ('w, u64) io"
  evm_get_balance :: "address \<Rightarrow> ('w, u256) io"
  evm_send_raw_transaction :: "bytes \<Rightarrow> ('w, b256) io"
  evm_get_transaction_receipt :: "b256 \<Rightarrow> ('w, tx_receipt option) io"
  evm_get_chain_id :: "('w, u64) io"
  evm_get_base_fee :: "('w, u128) io"
  evm_get_max_priority_fee :: "('w, u128) io"

text \<open>\<open>crates/types/src/validation.rs\<close>\<close>

record stake_info =
  si_stake :: u256
  si_unstake_delay_sec :: u64

definition is_staked :: "stake_info \<Rightarrow> u256 \<Rightarrow> u64 \<Rightarrow> bool" where
  "is_staked s min_stake min_unstake_delay \<longleftrightarrow>
     min_stake \<le> si_stake s \<and> min_unstake_delay \<le> si_unstake_delay_sec s"

record validation_output =
  vo_pre_op_gas :: u128
  vo_prefund :: u256
  vo_valid_after :: u64
  vo_valid_until :: u64
  vo_account_sig_failed :: bool
  vo_paymaster_sig_failed :: bool
  vo_sender_info :: stake_info
  vo_factory_info :: stake_info
  vo_paymaster_info :: stake_info
  vo_aggregator :: "address option"

datatype validation_revert =
    VrFailedOp nat string
  | VrFailedOpWithRevert nat string bytes
  | VrSignatureValidationFailed address
  | VrUnknown bytes

record execution_result =
  er_pre_op_gas :: u128
  er_paid :: u256
  er_target_success :: bool
  er_target_result :: bytes

record 'w entry_point_provider =
  epp_simulate_validation :: "packed_uo \<Rightarrow> ('w, validation_revert + validation_output) io"
  epp_simulate_handle_op ::
    "packed_uo \<Rightarrow> address \<Rightarrow> bytes \<Rightarrow> ('w, validation_revert + execution_result) io"
  epp_encode_handle_ops :: "packed_uo list \<Rightarrow> address \<Rightarrow> bytes"
  epp_get_user_op_hash :: "packed_uo \<Rightarrow> ('w, b256) io"
  epp_get_balance_of :: "address \<Rightarrow> ('w, u256) io"

datatype handle_ops_out =
    HoSuccess
  | HoFailedOp nat string
  | HoSignatureValidationFailed address
  | HoRevert bytes

record 'w bundle_handler =
  bh_call_handle_ops :: "packed_uo list \<Rightarrow> address \<Rightarrow> u64 \<Rightarrow> gas_fees \<Rightarrow> ('w, handle_ops_out) io"
  bh_build_handle_ops_tx :: "packed_uo list \<Rightarrow> address \<Rightarrow> u64 \<Rightarrow> gas_fees \<Rightarrow> tx_request"

section \<open>The unit provider\<close>

definition no_provider :: provider_error where
  "no_provider = ProviderOther ''no provider configured''"

definition unit_evm_provider :: "'w evm_provider" where
  "unit_evm_provider =
     \<lparr>evm_call = (\<lambda>_ _. io_fail no_provider), evm_get_logs = (\<lambda>_. io_fail no_provider),
      evm_get_block = (\<lambda>_. io_fail no_provider), evm_get_block_number = io_fail no_provider,
      evm_get_nonce = (\<lambda>_. io_fail no_provider), evm_get_balance = (\<lambda>_. io_fail no_provider),
      evm_send_raw_transaction = (\<lambda>_. io_fail no_provider),
      evm_get_transaction_receipt = (\<lambda>_. io_fail no_provider),
      evm_get_chain_id = io_fail no_provider, evm_get_base_fee = io_fail no_provider,
      evm_get_max_priority_fee = io_fail no_provider\<rparr>"

definition no_entry_point_provider :: provider_error where
  "no_entry_point_provider = ProviderOther ''no entry point provider configured''"

definition unit_entry_point_provider :: "'w entry_point_provider" where
  "unit_entry_point_provider =
     \<lparr>epp_simulate_validation = (\<lambda>_. io_fail no_entry_point_provider),
      epp_simulate_handle_op = (\<lambda>_ _ _. io_fail no_entry_point_provider),
      epp_encode_handle_ops = (\<lambda>_ _. []),
      epp_get_user_op_hash = (\<lambda>_. io_fail no_entry_point_provider),
      epp_get_balance_of = (\<lambda>_. io_fail no_entry_point_provider)\<rparr>"

section \<open>A node for the examples\<close>

text \<open>
  Its state is the number of the latest block; the base fee is 100, the tip 7, no
  transaction is ever mined and every raw transaction is accepted.
\<close>

definition sample_provider :: "u64 evm_provider" where
  "sample_provider =
     \<lparr>evm_call = (\<lambda>_ _. io_return []), evm_get_logs = (\<lambda>_. io_return []),
      evm_get_block = (\<lambda>_. io_return None), evm_get_block_number = (\<lambda>w. (Inr w, w)),
      evm_get_nonce = (\<lambda>_. io_return 0), evm_get_balance = (\<lambda>_. io_return 0),
      evm_send_raw_transaction = (\<lambda>raw. io_return (of_nat (length raw))),
      evm_get_transaction_receipt = (\<lambda>_. io_return None),
      evm_get_chain_id = io_return 1, evm_get_base_fee = io_return 100,
      evm_get_max_priority_fee = io_return 7\<rparr>"

end
