(* ===== verification/Chain_Watcher.thy ===== *)
theory Chain_Watcher
  imports Validation Provider_Api
begin

text \<open>
  \<open>crates/pool/src/chain.rs\<close>: the poller that follows new blocks, removes mined operations
  from the pool, records their inclusion and watches for reorganisations.  The shared pool,
  reputation manager, base fee and event bus are fields of the watcher's state; the bus is
  the list of events published so far.
\<close>

section \<open>State\<close>

record block_entry =
  bn_number :: u64
  bn_hash :: b256
  bn_base_fee :: u128

record watcher =
  cw_block_history :: "block_entry list"
  cw_last_block :: u64
  cw_pool :: operation_pool
  cw_reputation :: reputation_manager
  cw_base_fee :: u64
  cw_events :: "chain_event list"

definition watcher_new :: "operation_pool \<Rightarrow> reputation_manager \<Rightarrow> watcher" where
  "watcher_new p m =
     \<lparr>cw_block_history = [], cw_last_block = 0, cw_pool = p, cw_reputation = m, cw_base_fee = 0,
      cw_events = []\<rparr>"

definition publish :: "chain_event \<Rightarrow> watcher \<Rightarrow> watcher" where
  "publish ev w = w\<lparr>cw_events := cw_events w @ [ev]\<rparr>"

section \<open>Mined operations\<close>

definition record_included_all :: "entity list \<Rightarrow> reputation_manager \<Rightarrow> reputation_manager" where
  "record_included_all ens m = foldl (\<lambda>m en. record_included (en_address en) m) m ens"

definition process_log :: "event_log \<Rightarrow> watcher \<Rightarrow> watcher" where
  "process_log lg w =
     (if length (lg_topics lg) < 2 then w
      else
        (case remove_by_hash (lg_topics lg ! 1) (cw_pool w) of
           (Some entry, p') \<Rightarrow>
             w\<lparr>cw_pool := p', cw_reputation := record_included_all (uo_entities (pe_uo entry)) (cw_reputation w)\<rparr>
         | (None, p') \<Rightarrow> w\<lparr>cw_pool := p'\<rparr>))"

text \<open>The topic of \<open>UserOperationEvent\<close>, as bytes of its signature.\<close>

definition event_topic :: "hashing \<Rightarrow> b256" where
  "event_topic H = keccak256 H
     (map of_char ''UserOperationEvent(bytes32,address,address,uint256,bool,uint256,uint256)'')"

definition scan_user_op_events ::
  "hashing \<Rightarrow> chain_spec \<Rightarrow> 'w evm_provider \<Rightarrow> u64 \<Rightarrow> (watcher \<times> 'w, unit) io" where
  "scan_user_op_events H cs P block_number =
     io_bind (on_node (evm_get_logs P
       \<lparr>lf_address = cs_entry_point_v0_7 cs, lf_event_signature = event_topic H, lf_topic1 = None,
        lf_from_block = block_number, lf_to_block = block_number\<rparr>)) (\<lambda>logs.
     modify_state (fold process_log logs))"

section \<open>Reorganisations\<close>

text \<open>The walk back through the history; the argument is the reversed history.\<close>

fun reorg_index :: "b256 \<Rightarrow> nat \<Rightarrow> block_entry list \<Rightarrow> nat option" where
  "reorg_index parent i [] = None"
| "reorg_index parent i (e # es) = (if bn_hash e = parent then Some i else reorg_index parent (Suc i) es)"

definition detect_reorg_depth :: "watcher \<Rightarrow> b256 \<Rightarrow> nat" where
  "detect_reorg_depth w new_parent_hash =
     (case reorg_index new_parent_hash 0 (rev (cw_block_history w)) of
        Some i \<Rightarrow> i
      | None \<Rightarrow> length (cw_block_history w))"

definition handle_reorg :: "nat \<Rightarrow> watcher \<Rightarrow> watcher" where
  "handle_reorg depth w =
     (let history = (butlast ^^ depth) (cw_block_history w);
          w' = w\<lparr>cw_block_history := history\<rparr>
      in if history = [] then w' else w'\<lparr>cw_last_block := bn_number (last history)\<rparr>)"

definition check_reorg :: "u64 \<Rightarrow> block \<Rightarrow> watcher \<Rightarrow> watcher" where
  "check_reorg block_number b w =
     (if cw_block_history w \<noteq> [] \<and> bk_parent_hash b \<noteq> bn_hash (last (cw_block_history w)) \<and>
         block_number = bn_number (last (cw_block_history w)) + 1
      then
        (let reorg_depth = detect_reorg_depth w (bk_parent_hash b)
         in if 0 < reorg_depth
            then publish (Reorg (of_nat reorg_depth) block_number) (handle_reorg reorg_depth w)
            else w)
      else w)"

section \<open>Blocks and polls\<close>

definition block_not_found :: "u64 \<Rightarrow> provider_error" where
  "block_not_found n = InvalidResponse (''block '' @ decimal (unat n) @ '' not found'')"

definition push_block :: "chain_spec \<Rightarrow> u64 \<Rightarrow> block \<Rightarrow> u128 \<Rightarrow> watcher \<Rightarrow> watcher" where
  "push_block cs block_number b base_fee w =
     (let entry = \<lparr>bn_number = block_number, bn_hash = bk_hash b, bn_base_fee = base_fee\<rparr>;
          w' = w\<lparr>cw_block_history :=
                   trim_front (unat (cs_chain_history_size cs)) (cw_block_history w @ [entry])\<rparr>
      in publish (NewBlock block_number (bk_hash b) base_fee (bk_timestamp b)) w')"

definition process_block ::
  "hashing \<Rightarrow> chain_spec \<Rightarrow> 'w evm_provider \<Rightarrow> u64 \<Rightarrow> (watcher \<times> 'w, unit) io" where
  "process_block H cs P block_number =
     io_bind (on_node (evm_get_block P block_number)) (\<lambda>found.
     case found of
       None \<Rightarrow> io_fail (block_not_found block_number)
     | Some b \<Rightarrow>
         (let base_fee = ucast (unwrap_or (bk_base_fee_per_gas b) 0) :: u128 in
          io_bind (modify_state (\<lambda>w. check_reorg block_number b (w\<lparr>cw_base_fee := ucast base_fee\<rparr>))) (\<lambda>_.
          io_bind (scan_user_op_events H cs P block_number) (\<lambda>_.
          modify_state (push_block cs block_number b base_fee)))))"

fun process_blocks ::
  "hashing \<Rightarrow> chain_spec \<Rightarrow> 'w evm_provider \<Rightarrow> u64 list \<Rightarrow> (watcher \<times> 'w, unit) io" where
  "process_blocks H cs P [] = io_return ()"
| "process_blocks H cs P (n # ns) = io_bind (process_block H cs P n) (\<lambda>_. process_blocks H cs P ns)"

text \<open>The range \<open>(last_block + 1)..=current_block\<close>.\<close>

definition block_range :: "u64 \<Rightarrow> u64 \<Rightarrow> u64 list" where
  "block_range last_block current_block = map of_nat [unat (last_block + 1)..<Suc (unat current_block)]"

definition watcher_poll :: "hashing \<Rightarrow> chain_spec \<Rightarrow> 'w evm_provider \<Rightarrow> (watcher \<times> 'w, unit) io" where
  "watcher_poll H cs P =
     io_bind (on_node (evm_get_block_number P)) (\<lambda>current_block.
     io_bind get_state (\<lambda>w.
       if current_block \<le> cw_last_block w then io_return ()
       else
         io_bind (process_blocks H cs P (block_range (cw_last_block w) current_block)) (\<lambda>_.
         modify_state (cw_last_block_update (\<lambda>_. current_block)))))"

text \<open>The first request of \<open>run\<close>: start from the node's block, or from 0 when it does not answer.\<close>

definition watcher_start :: "'w evm_provider \<Rightarrow> watcher \<times> 'w \<Rightarrow> watcher \<times> 'w" where
  "watcher_start P = (\<lambda>(w, node).
     case evm_get_block_number P node of
       (Inr n, node') \<Rightarrow> (w\<lparr>cw_last_block := n\<rparr>, node')
     | (Inl e, node') \<Rightarrow> (w, node'))"

section \<open>Facts about scanning\<close>

lemma record_included_all_facts:
  assumes "rm_inv m"
  shows "rm_inv (record_included_all ens m)"
    and "seen (record_included_all ens m) a = seen m a"
    and "included (record_included_all ens m) a =
      included m a + of_nat (length (filter (\<lambda>en. en_address en = a) ens))"
  using assms
  by (induction ens arbitrary: m)
    (simp_all add: record_included_all_def counters_record_included algebra_simps)

definition mined_hashes :: "event_log list \<Rightarrow> b256 set" where
  "mined_hashes logs = {lg_topics lg ! 1 | lg. lg \<in> set logs \<and> 2 \<le> length (lg_topics lg)}"

lemma mined_hashes_simps [simp]:
  "mined_hashes [] = {}"
  "mined_hashes (lg # logs) =
     (if 2 \<le> length (lg_topics lg) then insert (lg_topics lg ! 1) (mined_hashes logs) else mined_hashes logs)"
  by (auto simp: mined_hashes_def)

text \<open>How often the entries with the given hashes name an address.\<close>

definition mined_mentions :: "b256 set \<Rightarrow> pool_entry multiset \<Rightarrow> address \<Rightarrow> nat" where
  "mined_mentions hs M a = (\<Sum>e\<in>#{#e \<in># M. pe_hash e \<in> hs#}. mentions (pe_uo e) a)"

definition watcher_inv :: "hashing \<Rightarrow> watcher \<Rightarrow> bool" where
  "watcher_inv H w \<longleftrightarrow> pool_inv H (cw_pool w) \<and> rm_inv (cw_reputation w)"

lemma process_log_effect:
  assumes "watcher_inv H w"
  shows "watcher_inv H (process_log lg w)"
    and "entries_of (cw_pool (process_log lg w)) = {#e \<in># entries_of (cw_pool w). pe_hash e \<notin> mined_hashes [lg]#}"
    and "included (cw_reputation (process_log lg w)) a =
      included (cw_reputation w) a + of_nat (mined_mentions (mined_hashes [lg]) (entries_of (cw_pool w)) a)"
    and "seen (cw_reputation (process_log lg w)) a = seen (cw_reputation w) a"
proof -
  let ?p = "cw_pool w" and ?h = "lg_topics lg ! 1"
  have p: "pool_inv H ?p" and m: "rm_inv (cw_reputation w)" using assms by (simp_all add: watcher_inv_def)
  have "watcher_inv H (process_log lg w) \<and>
    entries_of (cw_pool (process_log lg w)) = {#e \<in># entries_of ?p. pe_hash e \<notin> mined_hashes [lg]#} \<and>
    included (cw_reputation (process_log lg w)) a =
      included (cw_reputation w) a + of_nat (mined_mentions (mined_hashes [lg]) (entries_of ?p) a) \<and>
    seen (cw_reputation (process_log lg w)) a = seen (cw_reputation w) a"
  proof (cases "2 \<le> length (lg_topics lg)")
    case False
    then show ?thesis using assms by (simp add: process_log_def mined_mentions_def)
  next
    case two: True
    have ent: "entries_of (snd (remove_by_hash ?h ?p)) = {#e \<in># entries_of ?p. pe_hash e \<noteq> ?h#}"
      by (rule remove_by_hash_entries [OF p])
    have inv: "pool_inv H (snd (remove_by_hash ?h ?p))" by (rule remove_by_hash_inv [OF p])
    show ?thesis
    proof (cases "hm_get (pl_by_hash ?p) ?h")
      case None
      then have "\<forall>e\<in>#entries_of ?p. pe_hash e \<noteq> ?h" using by_hash_iff [OF p, of ?h] by auto
      then have none: "{#e \<in># entries_of ?p. pe_hash e = ?h#} = {#}"
        by (intro multiset_eqI) (auto simp: not_in_iff [symmetric])
      have "mined_mentions {?h} (entries_of ?p) a = 0"
        unfolding mined_mentions_def singleton_iff none by simp
      then show ?thesis
        using None two ent inv m by (simp add: process_log_def remove_by_hash_def watcher_inv_def)
    next
      case (Some e)
      then have e: "e \<in># entries_of ?p" "pe_hash e = ?h" using by_hash_iff [OF p] by simp_all
      have r: "remove_by_hash ?h ?p = (Some e, remove_inner e ?p)" using Some by (simp add: remove_by_hash_def)
      have split: "entries_of ?p = add_mset e {#e \<in># entries_of ?p. pe_hash e \<noteq> ?h#}"
        using remove_inner_entries [OF p e(1)] ent r by simp
      have "{#e \<in># entries_of ?p. pe_hash e = ?h#} = {#e#}"
        by (subst split) (simp add: e filter_filter_mset)
      then show ?thesis
        using r two ent inv m record_included_all_facts [OF m, of "uo_entities (pe_uo e)"]
        by (simp add: process_log_def mined_mentions_def watcher_inv_def mentions_def)
    qed
  qed
  then show "watcher_inv H (process_log lg w)"
    and "entries_of (cw_pool (process_log lg w)) = {#e \<in># entries_of ?p. pe_hash e \<notin> mined_hashes [lg]#}"
    and "included (cw_reputation (process_log lg w)) a =
      included (cw_reputation w) a + of_nat (mined_mentions (mined_hashes [lg]) (entries_of ?p) a)"
    and "seen (cw_reputation (process_log lg w)) a = seen (cw_reputation w) a" by blast+
qed

lemma mined_mentions_split:
  "mined_mentions (A \<union> B) M a = mined_mentions A M a + mined_mentions B {#e \<in># M. pe_hash e \<notin> A#} a"
proof -
  have "{#e \<in># M. pe_hash e \<in> A \<union> B#} =
      {#e \<in># M. pe_hash e \<in> A#} + {#e \<in># M. pe_hash e \<notin> A \<and> pe_hash e \<in> B#}"
    by (induction M) auto
  then show ?thesis by (simp add: mined_mentions_def filter_filter_mset)
qed

lemma mined_hashes_Cons: "mined_hashes (lg # logs) = mined_hashes [lg] \<union> mined_hashes logs"
  by simp

lemma scan_effect:
  assumes "watcher_inv H w"
  shows "watcher_inv H (fold process_log logs w) \<and>
    entries_of (cw_pool (fold process_log logs w)) = {#e \<in># entries_of (cw_pool w). pe_hash e \<notin> mined_hashes logs#} \<and>
    included (cw_reputation (fold process_log logs w)) a =
      included (cw_reputation w) a + of_nat (mined_mentions (mined_hashes logs) (entries_of (cw_pool w)) a) \<and>
    seen (cw_reputation (fold process_log logs w)) a = seen (cw_reputation w) a"
  using assms
proof (induction logs arbitrary: w)
  case Nil
  then show ?case by (simp add: mined_mentions_def)
next
  case (Cons lg logs)
  note 1 = process_log_effect [OF Cons.prems, of lg]
  show ?case
    unfolding mined_hashes_Cons [of lg logs] mined_mentions_split
    using Cons.IH [OF 1(1)] 1(2-4) by (simp add: filter_filter_mset del: mined_hashes_simps)
qed

section \<open>Properties\<close>

text \<open>
  Claim C27.  Scanning the events of a block removes from the pool exactly the operations
  whose hashes the events carry, credits every address once for each time a removed
  operation names it, and keeps pool and reputation consistent.
\<close>

theorem scan_removes_mined:
  assumes "pool_inv H (cw_pool w)" "rm_inv (cw_reputation w)"
    and "scan_user_op_events H cs P n (w, node) = (Inr (), w', node')"
  shows "\<exists>logs. evm_get_logs P
      \<lparr>lf_address = cs_entry_point_v0_7 cs, lf_event_signature = event_topic H, lf_topic1 = None,
       lf_from_block = n, lf_to_block = n\<rparr> node = (Inr logs, node') \<and>
    (let hs = {lg_topics lg ! 1 | lg. lg \<in> set logs \<and> 2 \<le> length (lg_topics lg)} in
     pool_inv H (cw_pool w') \<and> rm_inv (cw_reputation w') \<and>
     entries_of (cw_pool w') = {#e \<in># entries_of (cw_pool w). pe_hash e \<notin> hs#} \<and>
     (\<forall>a. included (cw_reputation w') a = included (cw_reputation w) a +
        of_nat (\<Sum>e\<in>#{#e \<in># entries_of (cw_pool w). pe_hash e \<in> hs#}. mentions (pe_uo e) a)))"
proof -
  obtain logs where logs: "evm_get_logs P
      \<lparr>lf_address = cs_entry_point_v0_7 cs, lf_event_signature = event_topic H, lf_topic1 = None,
       lf_from_block = n, lf_to_block = n\<rparr> node = (Inr logs, node')" "w' = fold process_log logs w"
    using assms(3) by (auto simp: scan_user_op_events_def io_bind_on_node modify_state_def
        split: prod.splits sum.splits)
  have "watcher_inv H w" using assms by (simp add: watcher_inv_def)
  from scan_effect [OF this, of logs] logs show ?thesis
    unfolding mined_hashes_def mined_mentions_def watcher_inv_def Let_def by blast
qed

theorem scan_removes_mined_witness:
  "\<exists>w' node'. scan_user_op_events sample_hashing chain_spec_dev
      (sample_provider\<lparr>evm_get_logs := (\<lambda>_. io_return [\<lparr>lg_topics = [0, 11], lg_data = [], lg_transaction_hash = None\<rparr>])\<rparr>)
      3 (watcher_new sample_pool rm_default, 0) = (Inr (), w', node') \<and>
    entries_of (cw_pool w') = {#e \<in># entries_of sample_pool. pe_hash e \<noteq> 11#}"
proof -
  let ?lg = "\<lparr>lg_topics = [0, 11], lg_data = [], lg_transaction_hash = None\<rparr>"
  let ?P = "sample_provider\<lparr>evm_get_logs := (\<lambda>_. io_return [?lg])\<rparr>" and ?w = "watcher_new sample_pool rm_default"
  have run: "scan_user_op_events sample_hashing chain_spec_dev ?P 3 (?w, 0) = (Inr (), process_log ?lg ?w, 0)"
    by (simp add: scan_user_op_events_def io_defs)
  have "pool_inv sample_hashing (cw_pool ?w)" "rm_inv (cw_reputation ?w)"
    by (simp_all add: watcher_new_def sample_pool_def sample_pool_inv rm_default_def)
  from scan_removes_mined [OF this run] run show ?thesis
    by (auto simp: io_return_def watcher_new_def Let_def)
qed

lemma reorg_index_None: "parent \<notin> bn_hash ` set es \<Longrightarrow> reorg_index parent i es = None"
  by (induction es arbitrary: i) auto

lemma butlast_pow_length: "(butlast ^^ length xs) xs = []"
proof (induction xs rule: rev_induct)
  case (snoc x xs)
  then show ?case by (simp add: funpow_swap1)
qed simp

text \<open>
  Claim C37.  Whenever a reorganisation is noticed on a history of increasing blocks whose
  hashes determine their heights, the depth found is the length of the whole history,
  however shallow the reorganisation was: the history is emptied and that length reported.
\<close>

theorem reorg_forgets_history:
  assumes "sorted_wrt (<) (map bn_number (cw_block_history w))" "cw_block_history w \<noteq> []"
    and "\<forall>e\<in>set (cw_block_history w). height (bn_hash e) = bn_number e"
    and "height (bk_parent_hash b) + 1 = n" "n = bn_number (last (cw_block_history w)) + 1"
    and "bk_parent_hash b \<noteq> bn_hash (last (cw_block_history w))"
  shows "check_reorg n b w =
    w\<lparr>cw_block_history := [],
      cw_events := cw_events w @ [Reorg (of_nat (length (cw_block_history w))) n]\<rparr>"
proof -
  let ?h = "cw_block_history w"
  obtain xs y where h: "?h = xs @ [y]" using assms(2) by (metis append_butlast_last_id)
  have top: "height (bk_parent_hash b) = bn_number y" using assms(4,5) h by simp
  have "bk_parent_hash b \<notin> bn_hash ` set (rev ?h)"
  proof
    assume "bk_parent_hash b \<in> bn_hash ` set (rev ?h)"
    then obtain e where e: "e \<in> set ?h" "bn_hash e = bk_parent_hash b" by auto
    then have "bn_number e = bn_number y" using assms(3) top by metis
    moreover have "e \<in> set xs \<Longrightarrow> bn_number e < bn_number y"
      using assms(1) by (auto simp: h sorted_wrt_append)
    ultimately have "e = y" using e(1) h by auto
    then show False using e(2) assms(6) h by simp
  qed
  then have "detect_reorg_depth w (bk_parent_hash b) = length ?h"
    by (simp add: detect_reorg_depth_def reorg_index_None)
  then show ?thesis
    using assms(2,5,6)
    by (simp add: check_reorg_def handle_reorg_def butlast_pow_length publish_def Let_def)
qed

theorem reorg_forgets_history_witness:
  "let w = (watcher_new sample_pool rm_default)\<lparr>cw_block_history :=
        [\<lparr>bn_number = 7, bn_hash = 70, bn_base_fee = 1\<rparr>, \<lparr>bn_number = 8, bn_hash = 80, bn_base_fee = 1\<rparr>]\<rparr>;
       b = \<lparr>bk_hash = 90, bk_parent_hash = 81, bk_base_fee_per_gas = None, bk_timestamp = 0\<rparr>
   in cw_block_history (check_reorg 9 b w) = [] \<and> cw_events (check_reorg 9 b w) = [Reorg 2 9]"
proof -
  let ?w = "(watcher_new sample_pool rm_default)\<lparr>cw_block_history :=
        [\<lparr>bn_number = 7, bn_hash = 70, bn_base_fee = 1\<rparr>, \<lparr>bn_number = 8, bn_hash = 80, bn_base_fee = 1\<rparr>]\<rparr>"
  let ?b = "\<lparr>bk_hash = 90, bk_parent_hash = 81, bk_base_fee_per_gas = None, bk_timestamp = 0\<rparr>"
  let ?height = "\<lambda>h :: b256. if h = 70 then 7 else if h = 80 \<or> h = 81 then 8 else 0 :: u64"
  have "check_reorg 9 ?b ?w = ?w\<lparr>cw_block_history := [],
      cw_events := cw_events ?w @ [Reorg (of_nat (length (cw_block_history ?w))) 9]\<rparr>"
    by (rule reorg_forgets_history [where height = ?height]) simp_all
  then show ?thesis by (simp add: Let_def watcher_new_def)
qed

end
