(* ===== verification/Chain_Polls.thy ===== *)
theory Chain_Polls
  imports Chain_Watcher
begin

text \<open>
  The life of a chain watcher (\<open>crates/pool/src/chain.rs\<close>): any sequence of polls, failed or
  not, over a node that answers whatever it likes and beside tasks that change the shared
  pool and reputation.  The lemmas follow one poll block by block; the properties say which
  blocks the watcher announces and what a failed poll leaves behind.
\<close>

section \<open>Announcements\<close>

definition announced :: "chain_event list \<Rightarrow> u64 list" where
  "announced evs = concat (map (\<lambda>ev. case ev of NewBlock n h b t \<Rightarrow> [n] | Reorg d n \<Rightarrow> []) evs)"

definition is_reorg :: "chain_event \<Rightarrow> bool" where
  "is_reorg ev = (case ev of Reorg d n \<Rightarrow> True | NewBlock n h b t \<Rightarrow> False)"

lemma announced_simps [simp]:
  "announced [] = []"
  "announced (evs @ evs') = announced evs @ announced evs'"
  "announced [NewBlock n h b t] = [n]"
  "announced [Reorg d n] = []"
  by (simp_all add: announced_def)

lemma is_reorg_simps [simp]: "is_reorg (Reorg d n)" "\<not> is_reorg (NewBlock n h b t)"
  by (simp_all add: is_reorg_def)

section \<open>The invariant\<close>

text \<open>
  Every block above the starting one, up to the last block of the watcher and up to every
  block of its history, has been announced.
\<close>

definition announced_upto :: "u64 \<Rightarrow> chain_event list \<Rightarrow> u64 \<Rightarrow> bool" where
  "announced_upto start evs n \<longleftrightarrow> {start<..n} \<subseteq> set (announced evs)"

definition follow_inv :: "hashing \<Rightarrow> chain_spec \<Rightarrow> u64 \<Rightarrow> watcher \<Rightarrow> bool" where
  "follow_inv H cs start w \<longleftrightarrow>
     watcher_inv H w \<and>
     length (cw_block_history w) \<le> unat (cs_chain_history_size cs) \<and>
     announced_upto start (cw_events w) (cw_last_block w) \<and>
     (\<forall>e\<in>set (cw_block_history w). announced_upto start (cw_events w) (bn_number e))"

lemma announced_upto_mono:
  "announced_upto start evs n \<Longrightarrow> announced_upto start (evs @ evs') n"
  by (auto simp: announced_upto_def)

text \<open>All blocks before \<open>n\<close> have been announced: what processing block \<open>n\<close> relies on.\<close>

definition announced_before :: "u64 \<Rightarrow> chain_event list \<Rightarrow> u64 \<Rightarrow> bool" where
  "announced_before start evs n \<longleftrightarrow> {start<..<n} \<subseteq> set (announced evs)"

lemma announced_before_mono:
  "announced_before start evs n \<Longrightarrow> announced_before start (evs @ evs') n"
  by (auto simp: announced_before_def)

lemma announced_before_now:
  assumes "announced_before start evs n"
  shows "announced_upto start (evs @ [NewBlock n h b t]) n"
  using assms by (fastforce simp: announced_before_def announced_upto_def)

lemma announced_before_Suc:
  assumes "announced_upto start evs (of_nat k)" "Suc k < 2 ^ 64"
  shows "announced_before start evs (of_nat (Suc k))"
proof -
  have "x \<le> of_nat k" if "x < of_nat (Suc k)" for x :: u64
    using that assms(2) by (simp add: word_less_nat_alt word_le_nat_alt take_bit_nat_eq_self unat_of_nat del: of_nat_Suc)
  then show ?thesis using assms(1) by (auto simp: announced_before_def announced_upto_def)
qed

lemma funpow_butlast: "(butlast ^^ k) xs = take (length xs - k) xs"
proof (induction k)
  case (Suc k)
  then show ?case by (simp add: butlast_take)
qed simp

lemma funpow_butlast_last: "(butlast ^^ k) xs \<noteq> [] \<Longrightarrow> last ((butlast ^^ k) xs) \<in> set xs"
  unfolding funpow_butlast by (rule in_set_takeD, rule last_in_set)

lemma handle_reorg_effect:
  "cw_pool (handle_reorg d w) = cw_pool w" "cw_reputation (handle_reorg d w) = cw_reputation w"
  "cw_events (handle_reorg d w) = cw_events w"
  "set (cw_block_history (handle_reorg d w)) \<subseteq> set (cw_block_history w)"
  "length (cw_block_history (handle_reorg d w)) \<le> length (cw_block_history w)"
  "cw_last_block (handle_reorg d w) \<in> insert (cw_last_block w) (bn_number ` set (cw_block_history w))"
  by (auto simp: handle_reorg_def Let_def funpow_butlast_last)
    (auto simp: funpow_butlast dest: in_set_takeD)

lemma check_reorg_cases:
  obtains "check_reorg n b w = w" | d where "check_reorg n b w = publish (Reorg (of_nat d) n) (handle_reorg d w)"
  by (cases "check_reorg n b w = w") (auto simp: check_reorg_def Let_def split: if_splits)

lemma check_reorg_inv:
  assumes "follow_inv H cs start w"
  shows "follow_inv H cs start (check_reorg n b w)"
proof (cases rule: check_reorg_cases [of n b w])
  case 1
  then show ?thesis using assms by simp
next
  case (2 d)
  have "announced_upto start (cw_events w) (cw_last_block (handle_reorg d w))"
    using assms handle_reorg_effect(6) [of d w] by (auto simp: follow_inv_def)
  then show ?thesis
    using assms handle_reorg_effect [of d w]
    by (auto simp: 2 follow_inv_def watcher_inv_def publish_def intro!: announced_upto_mono)
qed

text \<open>What one step of a poll adds to the events: at most the given announcements, and a
reorganisation if the last block moves.\<close>

definition extends :: "u64 list \<Rightarrow> watcher \<Rightarrow> watcher \<Rightarrow> bool" where
  "extends ns w w' \<longleftrightarrow>
     (\<exists>evs. cw_events w' = cw_events w @ evs \<and> announced evs = ns \<and>
        (cw_last_block w' \<noteq> cw_last_block w \<longrightarrow> (\<exists>ev\<in>set evs. is_reorg ev)))"

lemma extends_refl: "extends [] w w"
  by (simp add: extends_def)

lemma extends_trans: "extends ns w w' \<Longrightarrow> extends ns' w' w'' \<Longrightarrow> extends (ns @ ns') w w''"
  unfolding extends_def by (smt (verit) Un_iff announced_simps(2) append_assoc set_append)

lemma check_reorg_extends: "extends [] w (check_reorg n b w)"
  by (cases rule: check_reorg_cases [of n b w])
    (simp_all add: extends_def publish_def handle_reorg_effect)

lemma fold_process_log_simps [simp]:
  "cw_events (fold process_log logs w) = cw_events w"
  "cw_block_history (fold process_log logs w) = cw_block_history w"
  "cw_last_block (fold process_log logs w) = cw_last_block w"
  by (induction logs arbitrary: w) (auto simp: process_log_def split: prod.split option.split)

section \<open>One block\<close>

definition reached :: "'e + unit \<Rightarrow> 'a list \<Rightarrow> 'a list" where
  "reached r ns = (case r of Inr _ \<Rightarrow> ns | Inl _ \<Rightarrow> [])"

lemma reached_simps [simp]: "reached (Inr u) ns = ns" "reached (Inl e) ns = []"
  by (simp_all add: reached_def)

lemma process_block_cases:
  assumes "process_block H cs P n (w, node) = (r, w', node')"
  obtains (no_block) e where "r = Inl e" "w' = w"
  | (no_logs) e b where "r = Inl e" "w' = check_reorg n b (w\<lparr>cw_base_fee := unwrap_or (bk_base_fee_per_gas b) 0\<rparr>)"
  | (processed) b logs f where "r = Inr ()"
      "w' = push_block cs n b f
         (fold process_log logs (check_reorg n b (w\<lparr>cw_base_fee := unwrap_or (bk_base_fee_per_gas b) 0\<rparr>)))"
  using assms
  by (auto simp: process_block_def io_bind_on_node scan_user_op_events_def io_fail_def Let_def io_bind_assoc
      ucast_down_ucast_id is_down modify_state_def
      split: prod.splits sum.splits option.splits)

lemma follow_inv_base_fee [simp]: "follow_inv H cs start (w\<lparr>cw_base_fee := f\<rparr>) = follow_inv H cs start w"
  by (simp add: follow_inv_def watcher_inv_def)

lemma extends_base_fee [simp]: "extends ns (w\<lparr>cw_base_fee := f\<rparr>) w' = extends ns w w'"
  by (simp add: extends_def)

lemma scan_follow:
  assumes "follow_inv H cs start w"
  shows "follow_inv H cs start (fold process_log logs w)"
  using assms scan_effect [of H w logs] by (simp add: follow_inv_def)

lemma push_block_follow:
  assumes "follow_inv H cs start w" "announced_before start (cw_events w) n"
  shows "follow_inv H cs start (push_block cs n b f w)"
    and "announced_upto start (cw_events (push_block cs n b f w)) n"
proof -
  show now: "announced_upto start (cw_events (push_block cs n b f w)) n"
    using assms(2) by (simp add: push_block_def publish_def Let_def announced_before_now)
  have "set (trim_front k (xs @ [x])) \<subseteq> insert x (set xs)" for k xs and x :: block_entry
    using set_trim_front [of k "xs @ [x]"] by auto
  then show "follow_inv H cs start (push_block cs n b f w)"
    using assms(1) now
    by (fastforce simp: follow_inv_def watcher_inv_def push_block_def publish_def Let_def length_trim_front
        intro: announced_upto_mono)
qed

lemma push_block_extends: "extends [n] w (push_block cs n b f w)"
  by (simp add: extends_def push_block_def publish_def Let_def)

lemma process_block_step:
  assumes "follow_inv H cs start w" "announced_before start (cw_events w) n"
    and "process_block H cs P n (w, node) = (r, w', node')"
  shows "follow_inv H cs start w' \<and> extends (reached r [n]) w w' \<and>
    (r = Inr () \<longrightarrow> announced_upto start (cw_events w') n)"
  using assms(3)
proof (cases rule: process_block_cases)
  case (no_block e)
  then show ?thesis using assms(1) by (simp add: extends_refl)
next
  case (no_logs e b)
  then show ?thesis
    using assms(1) check_reorg_inv [of H cs start "w\<lparr>cw_base_fee := _\<rparr>"] check_reorg_extends [of "w\<lparr>cw_base_fee := _\<rparr>"]
    by simp
next
  case (processed b logs f)
  let ?w1 = "fold process_log logs (check_reorg n b (w\<lparr>cw_base_fee := unwrap_or (bk_base_fee_per_gas b) 0\<rparr>))"
  have inv: "follow_inv H cs start ?w1"
    using assms(1) by (intro scan_follow check_reorg_inv) simp
  have ext: "extends [] w ?w1"
    using check_reorg_extends [of "w\<lparr>cw_base_fee := _\<rparr>" n b] by (simp add: extends_def)
  then have "announced_before start (cw_events ?w1) n"
    using assms(2) announced_before_mono unfolding extends_def by metis
  from push_block_follow [OF inv this] extends_trans [OF ext push_block_extends] processed
  show ?thesis by simp
qed

section \<open>One poll\<close>

definition blocks_between :: "nat \<Rightarrow> nat \<Rightarrow> u64 list" where
  "blocks_between a b = map of_nat [a..<b]"

lemma blocks_between_simps:
  "b \<le> a \<Longrightarrow> blocks_between a b = []"
  "a < b \<Longrightarrow> blocks_between a b = of_nat a # blocks_between (Suc a) b"
  by (simp_all add: blocks_between_def upt_conv_Cons)

lemma length_blocks_between [simp]: "length (blocks_between a b) = b - a"
  by (simp add: blocks_between_def)

text \<open>How far a poll over some blocks got: all of them when it succeeded, fewer when it failed.\<close>

definition got_to :: "'e + unit \<Rightarrow> u64 list \<Rightarrow> nat \<Rightarrow> bool" where
  "got_to r ns k \<longleftrightarrow> (case r of Inr _ \<Rightarrow> k = length ns | Inl _ \<Rightarrow> k < length ns)"

lemma got_to_simps [simp]:
  "got_to (Inr u) ns k \<longleftrightarrow> k = length ns"
  "got_to (Inl e) ns k \<longleftrightarrow> k < length ns"
  by (simp_all add: got_to_def)

lemma process_blocks_steps:
  assumes "follow_inv H cs start w" "announced_before start (cw_events w) (of_nat a)" "b \<le> 2 ^ 64" "a < b"
    and "process_blocks H cs P (blocks_between a b) (w, node) = (r, w', node')"
  shows "follow_inv H cs start w' \<and>
    (\<exists>k. got_to r (blocks_between a b) k \<and> extends (take k (blocks_between a b)) w w') \<and>
    (r = Inr () \<longrightarrow> announced_upto start (cw_events w') (of_nat (b - 1)))"
  using assms
proof (induction "b - a" arbitrary: a w node)
  case (Suc d)
  note cons = blocks_between_simps(2) [OF Suc.prems(4)]
  obtain r1 w1 node1 where 1: "process_block H cs P (of_nat a) (w, node) = (r1, w1, node1)"
    by (metis prod.collapse)
  note one = process_block_step [OF Suc.prems(1,2) 1]
  show ?case
  proof (cases r1)
    case (Inl e)
    then have "r = Inl e" "w' = w1" using Suc.prems(5) 1 by (auto simp: cons io_bind_def)
    then show ?thesis using one Inl Suc.prems(4) by (intro conjI exI [of _ 0]) (simp_all add: cons)
  next
    case (Inr u)
    then have rest: "process_blocks H cs P (blocks_between (Suc a) b) (w1, node1) = (r, w', node')"
      using Suc.prems(5) 1 by (simp add: cons io_bind_def)
    have ext: "extends [of_nat a] w w1" and up: "announced_upto start (cw_events w1) (of_nat a)"
      using one Inr by simp_all
    show ?thesis
    proof (cases "Suc a < b")
      case True
      then have before: "announced_before start (cw_events w1) (of_nat (Suc a))"
        using up Suc.prems(3) by (intro announced_before_Suc) simp_all
      have inv: "follow_inv H cs start w1" using one by simp
      have d: "d = b - Suc a" using Suc.hyps(2) by simp
      obtain k where k: "got_to r (blocks_between (Suc a) b) k" "extends (take k (blocks_between (Suc a) b)) w1 w'"
        "follow_inv H cs start w'" "r = Inr () \<longrightarrow> announced_upto start (cw_events w') (of_nat (b - 1))"
        using Suc.hyps(1) [OF d inv before Suc.prems(3) True rest] by blast
      have "extends (take (Suc k) (blocks_between a b)) w w'"
        using extends_trans [OF ext k(2)] by (simp add: cons)
      moreover have "got_to r (blocks_between a b) (Suc k)" using k(1) by (cases r) (simp_all add: cons)
      ultimately show ?thesis using k(3,4) by blast
    next
      case False
      then have b: "b = Suc a" using Suc.prems(4) by simp
      then have "r = Inr ()" "w' = w1" using rest by (simp_all add: blocks_between_simps io_return_def)
      then show ?thesis
        using one ext up b by (intro conjI exI [of _ "Suc 0"]) (simp_all add: cons blocks_between_simps)
    qed
  qed
qed simp

lemma unat_next: "last_block < (current :: u64) \<Longrightarrow> unat (last_block + 1) = Suc (unat last_block)"
  using unat_inc [of last_block] by (metis word_not_simps(3))

lemma unat_fits: "Suc (unat (n :: u64)) \<le> 2 ^ 64"
  using unsigned_less [of n, where 'a = nat] by simp

lemma follow_inv_before:
  assumes "follow_inv H cs start w" "cw_last_block w < n"
  shows "announced_before start (cw_events w) (cw_last_block w + 1)"
proof -
  have "x \<le> cw_last_block w" if "x < cw_last_block w + 1" for x
    using that unat_next [OF assms(2)] by (simp add: word_le_nat_alt word_less_nat_alt)
  then show ?thesis using assms(1) by (auto simp: follow_inv_def announced_before_def announced_upto_def)
qed

definition to_announce :: "u64 \<Rightarrow> u64 \<Rightarrow> u64 list" where
  "to_announce last_block current = blocks_between (Suc (unat last_block)) (Suc (unat current))"

lemma watcher_poll_cases:
  assumes "watcher_poll H cs P (w, node) = (r, w', node')"
  obtains (offline) e where "evm_get_block_number P node = (Inl e, node')" "r = Inl e" "w' = w"
  | (nothing) current where "evm_get_block_number P node = (Inr current, node')"
      "current \<le> cw_last_block w" "r = Inr ()" "w' = w"
  | (polled) current node1 w1 where "evm_get_block_number P node = (Inr current, node1)" "cw_last_block w < current"
      "process_blocks H cs P (to_announce (cw_last_block w) current) (w, node1) = (r, w1, node')"
      "w' = (if r = Inr () then w1\<lparr>cw_last_block := current\<rparr> else w1)"
proof (cases "evm_get_block_number P node")
  case (Pair n node1)
  show thesis
  proof (cases n)
    case (Inl e)
    then show thesis using assms Pair offline by (simp add: watcher_poll_def io_bind_on_node)
  next
    case (Inr current)
    show thesis
    proof (cases "current \<le> cw_last_block w")
      case True
      show thesis
        by (rule nothing [of current])
          (use assms Pair Inr True in \<open>simp_all add: watcher_poll_def io_bind_on_node io_return_def\<close>)
    next
      case False
      then have less: "cw_last_block w < current" by simp
      obtain r1 w1 node2 where run:
        "process_blocks H cs P (to_announce (cw_last_block w) current) (w, node1) = (r1, w1, node2)"
        by (metis prod.collapse)
      have range: "block_range (cw_last_block w) current = to_announce (cw_last_block w) current"
        unfolding block_range_def to_announce_def blocks_between_def unat_next [OF less] ..
      have "watcher_poll H cs P (w, node) =
          (case r1 of Inl e \<Rightarrow> (Inl e, w1, node2) | Inr _ \<Rightarrow> (Inr (), w1\<lparr>cw_last_block := current\<rparr>, node2))"
        using Pair Inr False run
        by (simp add: watcher_poll_def io_bind_on_node range io_bind_def [of "process_blocks _ _ _ _"] modify_state_def
            split: sum.split)
      then show thesis
        using assms polled [of current node1 w1] Pair Inr less run by (auto split: sum.splits)
    qed
  qed
qed

lemma poll_follows:
  assumes "follow_inv H cs start w" "watcher_poll H cs P (w, node) = (r, w', node')"
  shows "follow_inv H cs start w'"
  using assms(2)
proof (cases rule: watcher_poll_cases)
  case (polled current node1 w1)
  let ?a = "Suc (unat (cw_last_block w))" and ?b = "Suc (unat current)"
  have ab: "?a < ?b" using polled(2) by (simp add: word_less_nat_alt)
  have b: "?b \<le> 2 ^ 64" by (rule unat_fits)
  have "announced_before start (cw_events w) (of_nat ?a)"
    using follow_inv_before [OF assms(1) polled(2)] by (simp add: add.commute)
  note steps = process_blocks_steps [OF assms(1) this b ab polled(3) [unfolded to_announce_def]]
  have "of_nat (?b - 1) = current" by simp
  then show ?thesis using steps polled(4) by (auto simp: follow_inv_def watcher_inv_def)
qed (use assms(1) in simp_all)

section \<open>Any number of polls\<close>

text \<open>
  The runs of a watcher that started at block \<open>start\<close>.  Between polls the tasks that share
  the pool and the reputation tracker may change them, and the node moves on.
\<close>

inductive watcher_runs :: "hashing \<Rightarrow> chain_spec \<Rightarrow> 'w evm_provider \<Rightarrow> u64 \<Rightarrow> watcher \<Rightarrow> 'w \<Rightarrow> bool"
  for H cs P start where
  begins: "pool_inv H p \<Longrightarrow> rm_inv m \<Longrightarrow> watcher_start P (watcher_new p m, node) = (w, node') \<Longrightarrow>
    start = cw_last_block w \<Longrightarrow> watcher_runs H cs P start w node'"
| polls: "watcher_runs H cs P start w node \<Longrightarrow> watcher_poll H cs P (w, node) = (r, w', node') \<Longrightarrow>
    watcher_runs H cs P start w' node'"
| others: "watcher_runs H cs P start w node \<Longrightarrow> pool_inv H p \<Longrightarrow> rm_inv m \<Longrightarrow>
    watcher_runs H cs P start (w\<lparr>cw_pool := p, cw_reputation := m\<rparr>) node'"

lemma watcher_runs_inv: "watcher_runs H cs P start w node \<Longrightarrow> follow_inv H cs start w"
proof (induction rule: watcher_runs.induct)
  case (begins p m node w node')
  then show ?case
    by (auto simp: watcher_start_def watcher_new_def follow_inv_def watcher_inv_def announced_upto_def
        split: prod.splits sum.splits)
next
  case (polls w node r w' node')
  show ?case by (rule poll_follows [OF polls.IH polls.hyps(2)])
next
  case (others w node p m node')
  then show ?case by (simp add: follow_inv_def watcher_inv_def)
qed

section \<open>Properties\<close>

text \<open>
  Claim C10.  Whatever the node answers and however many polls fail, the watcher keeps the pool
  and the reputation tracker consistent, never remembers more blocks than configured, and
  skips no block: every block after the one it started from, up to its last block, has been
  announced, although reorganisations move the last block back.
\<close>

theorem watcher_skips_nothing:
  assumes "watcher_runs H cs P start w node"
  shows "pool_inv H (cw_pool w) \<and> rm_inv (cw_reputation w) \<and>
    length (cw_block_history w) \<le> unat (cs_chain_history_size cs) \<and>
    (\<forall>n. start < n \<and> n \<le> cw_last_block w \<longrightarrow> (\<exists>h b t. NewBlock n h b t \<in> set (cw_events w)))"
proof -
  have "\<exists>h b t. NewBlock n h b t \<in> set evs" if "n \<in> set (announced evs)" for n evs
    using that by (auto simp: announced_def split: chain_event.splits)
  then show ?thesis
    using watcher_runs_inv [OF assms] by (auto simp: follow_inv_def watcher_inv_def announced_upto_def subset_iff)
qed

text \<open>A node whose blocks all exist and carry their number plus 100 as hash, but for block 8.\<close>

definition walking_node :: "u64 evm_provider" where
  "walking_node = sample_provider\<lparr>evm_get_block := (\<lambda>n.
     if n = 8 then io_fail no_provider
     else io_return (Some \<lparr>bk_hash = ucast n + 100, bk_parent_hash = ucast n + 99, bk_base_fee_per_gas = Some 30, bk_timestamp = 0\<rparr>))\<rparr>"

definition fresh_watcher :: watcher where
  "fresh_watcher = (watcher_new sample_pool rm_default)\<lparr>cw_last_block := 5\<rparr>"

lemma fresh_watcher_runs: "watcher_runs sample_hashing chain_spec_dev walking_node 5 fresh_watcher 5"
proof -
  have "watcher_start walking_node (watcher_new sample_pool rm_default, 5) = (fresh_watcher, 5)"
    by (simp add: watcher_start_def walking_node_def sample_provider_def fresh_watcher_def)
  then show ?thesis
    by (intro watcher_runs.begins [of _ sample_pool rm_default])
      (simp_all add: sample_pool_def sample_pool_inv rm_default_def fresh_watcher_def)
qed

definition polled_watcher :: watcher where
  "polled_watcher = fresh_watcher\<lparr>cw_base_fee := 30,
     cw_block_history := [\<lparr>bn_number = 6, bn_hash = 106, bn_base_fee = 30\<rparr>, \<lparr>bn_number = 7, bn_hash = 107, bn_base_fee = 30\<rparr>],
     cw_last_block := 7, cw_events := [NewBlock 6 106 30 0, NewBlock 7 107 30 0]\<rparr>"

lemma walking_block:
  assumes "n \<noteq> 8" "cw_block_history w = [] \<or> bn_hash (last (cw_block_history w)) = ucast n + 99"
  shows "process_block sample_hashing chain_spec_dev walking_node n (w, node) =
    (Inr (), push_block chain_spec_dev n
       \<lparr>bk_hash = ucast n + 100, bk_parent_hash = ucast n + 99, bk_base_fee_per_gas = Some 30, bk_timestamp = 0\<rparr> 30
       (w\<lparr>cw_base_fee := 30\<rparr>), node)"
  using assms
  by (auto simp: process_block_def scan_user_op_events_def walking_node_def sample_provider_def io_defs
      check_reorg_def unwrap_or_def)

lemma walking_poll:
  "watcher_poll sample_hashing chain_spec_dev walking_node (fresh_watcher, 7) = (Inr (), polled_watcher, 7)"
  "watcher_poll sample_hashing chain_spec_dev walking_node (fresh_watcher, 8) =
     (Inl no_provider, polled_watcher\<lparr>cw_last_block := 5\<rparr>, 8)"
proof -
  have node: "evm_get_block_number walking_node = (\<lambda>w. (Inr w, w))"
    "process_block sample_hashing chain_spec_dev walking_node 8 = on_node (io_fail no_provider)"
    by (simp_all add: walking_node_def sample_provider_def process_block_def fun_eq_iff io_defs)
  have "block_range 5 7 = [6, 7]" "block_range 5 8 = [6, 7, 8]" by (simp_all add: block_range_def upt_conv_Cons)
  moreover have "cs_chain_history_size chain_spec_dev = 64" by (simp add: chain_spec_dev_def)
  ultimately show
    "watcher_poll sample_hashing chain_spec_dev walking_node (fresh_watcher, 7) = (Inr (), polled_watcher, 7)"
    "watcher_poll sample_hashing chain_spec_dev walking_node (fresh_watcher, 8) =
       (Inl no_provider, polled_watcher\<lparr>cw_last_block := 5\<rparr>, 8)"
    by (simp_all add: watcher_poll_def node fresh_watcher_def watcher_new_def polled_watcher_def
        walking_block io_defs push_block_def publish_def)
qed

theorem watcher_skips_nothing_witness:
  "watcher_runs sample_hashing chain_spec_dev walking_node 5 polled_watcher 7 \<and>
   (\<exists>h b t. NewBlock 6 h b t \<in> set (cw_events polled_watcher))"
proof -
  have "watcher_runs sample_hashing chain_spec_dev walking_node 5 (fresh_watcher\<lparr>cw_pool := cw_pool fresh_watcher, cw_reputation := cw_reputation fresh_watcher\<rparr>) 7"
    by (rule watcher_runs.others [OF fresh_watcher_runs])
      (simp_all add: fresh_watcher_def watcher_new_def sample_pool_def sample_pool_inv rm_default_def)
  then have run: "watcher_runs sample_hashing chain_spec_dev walking_node 5 polled_watcher 7"
    using watcher_runs.polls [OF _ walking_poll(1)] by simp
  then show ?thesis
    using watcher_skips_nothing [OF run] by (simp add: polled_watcher_def)
qed

text \<open>
  Claim C28.  A poll announces the blocks from the one after the last block to the node's
  current one, in order: all of them when it succeeds, a proper initial part when it fails.
  Then the last block does not move unless a reorganisation was announced, so the next poll
  announces that part again.
\<close>

theorem poll_announces_range:
  assumes "watcher_runs H cs P start w node" "watcher_poll H cs P (w, node) = (r, w', node')"
    and "evm_get_block_number P node = (Inr current, node1)" "cw_last_block w < current"
  shows "\<exists>evs k. cw_events w' = cw_events w @ evs \<and>
    concat (map (\<lambda>ev. case ev of NewBlock n h b t \<Rightarrow> [n] | Reorg d n \<Rightarrow> []) evs) =
      map of_nat (take k [Suc (unat (cw_last_block w))..<Suc (unat current)]) \<and>
    (case r of
       Inr _ \<Rightarrow> k = unat current - unat (cw_last_block w) \<and> cw_last_block w' = current
     | Inl _ \<Rightarrow> k < unat current - unat (cw_last_block w) \<and>
         (cw_last_block w' \<noteq> cw_last_block w \<longrightarrow> (\<exists>d n. Reorg d n \<in> set evs)))"
  using assms(2)
proof (cases rule: watcher_poll_cases)
  case (polled c nd w1)
  let ?a = "Suc (unat (cw_last_block w))" and ?b = "Suc (unat current)"
  have c: "c = current" using polled(1) assms(3) by simp
  have ab: "?a < ?b" using assms(4) by (simp add: word_less_nat_alt)
  have b: "?b \<le> 2 ^ 64" by (rule unat_fits)
  note inv = watcher_runs_inv [OF assms(1)]
  have "announced_before start (cw_events w) (of_nat ?a)"
    using follow_inv_before [OF inv assms(4)] by (simp add: add.commute)
  from process_blocks_steps [OF inv this b ab polled(3) [unfolded to_announce_def c]]
  obtain k where k: "got_to r (blocks_between ?a ?b) k" "extends (take k (blocks_between ?a ?b)) w w1" by blast
  obtain evs where evs: "cw_events w1 = cw_events w @ evs" "announced evs = take k (blocks_between ?a ?b)"
    "cw_last_block w1 \<noteq> cw_last_block w \<Longrightarrow> \<exists>ev\<in>set evs. is_reorg ev"
    using k(2) by (auto simp: extends_def)
  have reorg: "\<exists>d n. Reorg d n \<in> set evs" if moved: "cw_last_block w1 \<noteq> cw_last_block w"
  proof -
    obtain ev where "ev \<in> set evs" "is_reorg ev" using evs(3) [OF moved] by blast
    moreover from this(2) obtain d n where "ev = Reorg d n" by (cases ev) auto
    ultimately show ?thesis by blast
  qed
  have "cw_events w' = cw_events w @ evs" using evs(1) polled(4) by simp
  moreover have "case r of Inr _ \<Rightarrow> k = unat current - unat (cw_last_block w)
      | Inl _ \<Rightarrow> k < unat current - unat (cw_last_block w)"
    using k(1) by (simp add: got_to_def split: sum.splits)
  ultimately show ?thesis
    using evs(2) reorg polled(4) c
    by (intro exI [of _ evs] exI [of _ k])
      (auto simp: announced_def blocks_between_def take_map simp del: upt_Suc split: sum.splits)
qed (use assms(3,4) in simp_all)

theorem poll_announces_range_witness:
  "\<exists>w' evs k. watcher_poll sample_hashing chain_spec_dev walking_node (fresh_watcher, 8) = (Inl no_provider, w', 8) \<and>
     cw_last_block w' = 5 \<and> cw_events w' = cw_events fresh_watcher @ evs \<and> k < 3 \<and>
     concat (map (\<lambda>ev. case ev of NewBlock n h b t \<Rightarrow> [n] | Reorg d n \<Rightarrow> []) evs) = map of_nat (take k [6..<9])"
proof -
  have run: "watcher_runs sample_hashing chain_spec_dev walking_node 5 fresh_watcher 8"
    using watcher_runs.others [OF fresh_watcher_runs, of "cw_pool fresh_watcher" "cw_reputation fresh_watcher" 8]
    by (simp add: fresh_watcher_def watcher_new_def sample_pool_def sample_pool_inv rm_default_def)
  have "evm_get_block_number walking_node 8 = (Inr 8, 8)" "cw_last_block fresh_watcher < 8"
    "cw_last_block fresh_watcher = 5"
    by (simp_all add: walking_node_def sample_provider_def fresh_watcher_def)
  with poll_announces_range [OF run walking_poll(2) this(1,2)] walking_poll(2) show ?thesis
    by (simp add: conj_commute)
qed

end
