(* ===== verification/Rpc.thy ===== *)
theory Rpc
  imports Validation Provider_Api
begin

text \<open>
  \<open>crates/rpc/src/eth.rs\<close> and \<open>error.rs\<close>: the methods of the \<open>eth\<close> namespace over the
  pool and the validator.  A method is one function on the server state; the error
  messages are structured, and \<open>rpc_error_object\<close> gives the JSON-RPC code of each error.
\<close>

section \<open>Errors\<close>

datatype rpc_msg =
    UnsupportedEntryPoint address
  | ValidationFailed validation_error
  | NoEntryPointProvider
  | RpcSimulationFailed provider_error
  | ValidationReverted validation_revert
  | ExecutionReverted validation_revert
  | ProviderFailed provider_error

datatype rpc_error =
    InvalidParams rpc_msg
  | MethodNotFound string
  | InternalError rpc_msg
  | RpcPool pool_error
  | RpcOther string

definition execution_reverted :: int where
  "execution_reverted = -32521"

definition invalid_useroperation :: int where
  "invalid_useroperation = -32602"

text \<open>\<open>From<RpcError> for ErrorObjectOwned\<close>: the code of the error object.\<close>

fun rpc_error_code :: "rpc_error \<Rightarrow> int" where
  "rpc_error_code (InvalidParams msg) = invalid_useroperation"
| "rpc_error_code (MethodNotFound msg) = -32601"
| "rpc_error_code (InternalError msg) = -32603"
| "rpc_error_code (RpcPool err) = invalid_useroperation"
| "rpc_error_code (RpcOther msg) = -32603"

section \<open>State\<close>

record rpc_state =
  rs_pool :: operation_pool
  rs_reputation :: reputation_manager
  rs_base_fee :: u64

record uo_with_entry_point =
  uwe_user_operation :: user_operation
  uwe_entry_point :: address
  uwe_block_number :: "u64 option"
  uwe_block_hash :: "b256 option"
  uwe_transaction_hash :: "b256 option"

text \<open>The \<open>receipt\<close> field is the JSON form of the transaction receipt, null when there is none.\<close>

record uo_receipt =
  ur_user_op_hash :: b256
  ur_sender :: address
  ur_nonce :: u256
  ur_paymaster :: "address option"
  ur_actual_gas_cost :: u256
  ur_actual_gas_used :: u256
  ur_success :: bool
  ur_reason :: string
  ur_receipt :: "tx_receipt option"

definition rpc_new :: "operation_pool \<Rightarrow> reputation_manager \<Rightarrow> rpc_state" where
  "rpc_new p m = \<lparr>rs_pool = p, rs_reputation = m, rs_base_fee = 0\<rparr>"

definition set_base_fee :: "u128 \<Rightarrow> rpc_state \<Rightarrow> rpc_state" where
  "set_base_fee b s = s\<lparr>rs_base_fee := ucast b\<rparr>"

definition current_base_fee :: "rpc_state \<Rightarrow> u128" where
  "current_base_fee s = ucast (rs_base_fee s)"

section \<open>Methods\<close>

definition send_user_operation ::
  "hashing \<Rightarrow> chain_spec \<Rightarrow> user_operation \<Rightarrow> address \<Rightarrow> rpc_state \<Rightarrow> (rpc_error + b256) run \<times> rpc_state" where
  "send_user_operation H cs user_op entry_point s =
     (if \<not> is_entry_point cs entry_point
      then (Returns (Inl (InvalidParams (UnsupportedEntryPoint entry_point))), s)
      else
        (let uo = set_context H entry_point (cs_id cs) user_op;
             base_fee = current_base_fee s
         in case validate_sync cs (Some (rs_pool s)) uo base_fee (rs_reputation s) of
              (Panics, m) \<Rightarrow> (Panics, s\<lparr>rs_reputation := m\<rparr>)
            | (Returns (Inl e), m) \<Rightarrow>
                (Returns (Inl (InvalidParams (ValidationFailed e))), s\<lparr>rs_reputation := m\<rparr>)
            | (Returns (Inr _), m) \<Rightarrow>
                (case pool_add H uo base_fee (rs_pool s) of
                   (Inl e, p) \<Rightarrow> (Returns (Inl (RpcPool e)), s\<lparr>rs_reputation := m, rs_pool := p\<rparr>)
                 | (Inr h, p) \<Rightarrow> (Returns (Inr h), s\<lparr>rs_reputation := m, rs_pool := p\<rparr>))))"

definition get_user_operation_by_hash :: "chain_spec \<Rightarrow> b256 \<Rightarrow> rpc_state \<Rightarrow> uo_with_entry_point option" where
  "get_user_operation_by_hash cs h s =
     (case get_by_hash (rs_pool s) h of
        Some entry \<Rightarrow>
          Some \<lparr>uwe_user_operation = pe_uo entry, uwe_entry_point = cs_entry_point_v0_7 cs,
                uwe_block_number = None, uwe_block_hash = None, uwe_transaction_hash = None\<rparr>
      | None \<Rightarrow> None)"

text \<open>\<open>to::<u128>()\<close> of a \<open>U256\<close> panics when the value does not fit.\<close>

definition u256_to_u128 :: "u256 \<Rightarrow> u128 run" where
  "u256_to_u128 x = (if unat x < 2 ^ 128 then Returns (ucast x) else Panics)"

definition estimated_call_gas :: "execution_result \<Rightarrow> u128 \<Rightarrow> u128 \<Rightarrow> u128 run" where
  "estimated_call_gas res pre_op_gas base_fee =
     (if pre_op_gas < er_pre_op_gas res then Returns (er_pre_op_gas res - pre_op_gas)
      else
        (case u256_to_u128 (er_paid res) of
           Panics \<Rightarrow> Panics
         | Returns paid \<Rightarrow> Returns (paid div max base_fee 1)))"

definition estimate_user_operation_gas ::
  "hashing \<Rightarrow> chain_spec \<Rightarrow> 'w entry_point_provider option \<Rightarrow> uo_optional_gas \<Rightarrow> address \<Rightarrow> rpc_state \<Rightarrow>
   'w \<Rightarrow> (rpc_error + gas_estimate) run \<times> 'w" where
  "estimate_user_operation_gas H cs epp user_op entry_point s w =
     (if \<not> is_entry_point cs entry_point
      then (Returns (Inl (InvalidParams (UnsupportedEntryPoint entry_point))), w)
      else
        (case epp of
           None \<Rightarrow> (Returns (Inl (InternalError NoEntryPointProvider)), w)
         | Some ep \<Rightarrow>
             (let full_op = into_user_operation H user_op entry_point (cs_id cs) 1000000 10000000;
                  packed = pack full_op
              in case epp_simulate_validation ep packed w of
                   (Inl e, w1) \<Rightarrow> (Returns (Inl (InternalError (RpcSimulationFailed e))), w1)
                 | (Inr (Inl rv), w1) \<Rightarrow> (Returns (Inl (InvalidParams (ValidationReverted rv))), w1)
                 | (Inr (Inr validation_res), w1) \<Rightarrow>
                     (let pre_op_gas = vo_pre_op_gas validation_res in
                      case epp_simulate_handle_op ep packed 0 [] w1 of
                        (Inl e, w2) \<Rightarrow> (Returns (Inl (InternalError (RpcSimulationFailed e))), w2)
                      | (Inr (Inl rv), w2) \<Rightarrow> (Returns (Inl (InvalidParams (ExecutionReverted rv))), w2)
                      | (Inr (Inr res), w2) \<Rightarrow>
                          (case estimated_call_gas res pre_op_gas (current_base_fee s) of
                             Panics \<Rightarrow> (Panics, w2)
                           | Returns call_gas_limit \<Rightarrow>
                               (Returns (Inr
                                 \<lparr>ge_pre_verification_gas =
                                    calldata_gas_cost H full_op (cs_calldata_zero_byte_gas cs)
                                      (cs_calldata_non_zero_byte_gas cs)
                                    + ucast (cs_per_user_op_v0_7_gas cs),
                                  ge_call_gas_limit = call_gas_limit,
                                  ge_verification_gas_limit = pre_op_gas,
                                  ge_paymaster_verification_gas_limit =
                                    (if uo_paymaster full_op \<noteq> None then Some pre_op_gas else None)\<rparr>), w2))))))"

section \<open>Receipts\<close>

definition string_bytes :: "string \<Rightarrow> bytes" where
  "string_bytes s = map of_char s"

definition user_op_event_topic :: "hashing \<Rightarrow> b256" where
  "user_op_event_topic H =
     keccak256 H (string_bytes ''UserOperationEvent(bytes32,address,address,uint256,bool,uint256,uint256)'')"

text \<open>\<open>Address::from_slice(&topic[12..])\<close>: the low 20 bytes of a topic.\<close>

definition topic_address :: "b256 \<Rightarrow> address" where
  "topic_address t = from_be_bytes (drop 12 (to_be_bytes t))"

definition decode_user_op_event :: "b256 \<Rightarrow> event_log \<Rightarrow> uo_receipt" where
  "decode_user_op_event h lg =
     (let topics = lg_topics lg;
          sender = (if 2 < length topics then topic_address (topics ! 2) else 0);
          paymaster =
            (if 3 < length topics
             then (let pm = topic_address (topics ! 3) in if pm = 0 then None else Some pm)
             else None);
          dat = lg_data lg;
          (nonce, success, cost, used) =
            (if 128 \<le> length dat
             then (from_be_bytes (take 32 dat), dat ! 63 \<noteq> 0,
                   from_be_bytes (take 32 (drop 64 dat)), from_be_bytes (take 32 (drop 96 dat)))
             else (0, False, 0, 0))
      in \<lparr>ur_user_op_hash = h, ur_sender = sender, ur_nonce = nonce, ur_paymaster = paymaster,
          ur_actual_gas_cost = cost, ur_actual_gas_used = used, ur_success = success,
          ur_reason = [], ur_receipt = None\<rparr>)"

definition get_user_operation_receipt ::
  "hashing \<Rightarrow> chain_spec \<Rightarrow> 'w evm_provider option \<Rightarrow> b256 \<Rightarrow> 'w \<Rightarrow> (rpc_error + uo_receipt option) \<times> 'w" where
  "get_user_operation_receipt H cs provider h =
     (case provider of
        None \<Rightarrow> io_return None
      | Some P \<Rightarrow>
          io_bind (io_map_err (\<lambda>e. InternalError (ProviderFailed e)) (evm_get_block_number P)) (\<lambda>current_block.
          io_bind (io_map_err (\<lambda>e. InternalError (ProviderFailed e))
            (evm_get_logs P \<lparr>lf_address = cs_entry_point_v0_7 cs, lf_event_signature = user_op_event_topic H,
               lf_topic1 = Some h, lf_from_block = saturating_sub current_block 1000,
               lf_to_block = current_block\<rparr>)) (\<lambda>logs.
          case logs of
            [] \<Rightarrow> io_return None
          | lg # _ \<Rightarrow>
              (let tx_hash = unwrap_or (lg_transaction_hash lg) 0;
                   event = decode_user_op_event h lg
               in if tx_hash \<noteq> 0 then
                    io_bind (io_map_err (\<lambda>e. InternalError (ProviderFailed e))
                      (evm_get_transaction_receipt P tx_hash)) (\<lambda>rcpt.
                    io_return (Some (event\<lparr>ur_receipt := rcpt\<rparr>)))
                  else io_return (Some event)))))"

text \<open>\<open>format!("{:#x}", id)\<close>\<close>

fun hex_digits :: "nat \<Rightarrow> string" where
  "hex_digits n = (if n < 16 then [hex_digit n] else hex_digits (n div 16) @ [hex_digit (n mod 16)])"

declare hex_digits.simps [simp del]

definition chain_id :: "chain_spec \<Rightarrow> string" where
  "chain_id cs = ''0x'' @ hex_digits (unat (cs_id cs))"

section \<open>Facts about sending\<close>

lemma set_context_simps [simp]:
  "uo_sender (set_context H ep c uo) = uo_sender uo" "uo_nonce (set_context H ep c uo) = uo_nonce uo"
  "uo_hash H (set_context H ep c uo) = compute_hash H (uo\<lparr>uo_entry_point := ep, uo_chain_id := c\<rparr>)"
  by (simp_all add: set_context_def Let_def uo_hash_def)

definition rpc_inv :: "hashing \<Rightarrow> rpc_state \<Rightarrow> bool" where
  "rpc_inv H s \<longleftrightarrow> pool_inv H (rs_pool s) \<and> rm_inv (rs_reputation s)"

lemma rpc_new_inv [simp, inv_intros]: "rpc_inv H (rpc_new (pool_new cfg) (rm_new rcfg))"
  by (simp add: rpc_inv_def rpc_new_def)

lemma validate_never_panics: "fst (validate_sync cs pool uo b m) \<noteq> Panics"
  by (auto simp: validate_sync_def validate_reputation_eq check_entities_returns split: sum.split)

text \<open>The two outcomes: the operation passed validation and met the pool, or nothing changed.\<close>

lemma send_cases:
  assumes "send_user_operation H cs uo ep s = (r, s')"
  obtains (rejected) e where "r = Returns (Inl e)" "s' = s"
  | (validated) p' where "is_entry_point cs ep"
      "fst (validate_sync cs (Some (rs_pool s)) (set_context H ep (cs_id cs) uo) (current_base_fee s)
         (rs_reputation s)) = Returns (Inr ())"
      "s' = s\<lparr>rs_reputation := record_seen_all (uo_entities (set_context H ep (cs_id cs) uo)) (rs_reputation s),
              rs_pool := p'\<rparr>"
      "r = Returns (map_sum RpcPool id (fst (pool_add H (set_context H ep (cs_id cs) uo) (current_base_fee s) (rs_pool s))))"
      "p' = snd (pool_add H (set_context H ep (cs_id cs) uo) (current_base_fee s) (rs_pool s))"
proof (cases "is_entry_point cs ep")
  case False
  show thesis by (rule rejected [of "InvalidParams (UnsupportedEntryPoint ep)"]) (use assms False in \<open>simp_all add: send_user_operation_def\<close>)
next
  case True
  let ?uo = "set_context H ep (cs_id cs) uo" and ?b = "current_base_fee s"
  obtain v m where v: "validate_sync cs (Some (rs_pool s)) ?uo ?b (rs_reputation s) = (v, m)"
    by (cases "validate_sync cs (Some (rs_pool s)) ?uo ?b (rs_reputation s)")
  obtain a p' where a: "pool_add H ?uo ?b (rs_pool s) = (a, p')" by (cases "pool_add H ?uo ?b (rs_pool s)")
  have m: "m = (if v = Returns (Inr ()) then record_seen_all (uo_entities ?uo) (rs_reputation s) else rs_reputation s)"
    using validate_sync_manager [of cs "Some (rs_pool s)" ?uo ?b "rs_reputation s"] v by simp
  have np: "v \<noteq> Panics"
    using validate_never_panics [of cs "Some (rs_pool s)" ?uo ?b "rs_reputation s"] v by simp
  show thesis
  proof (cases "v = Returns (Inr ())")
    case ok: True
    show thesis
      by (rule validated [of p'])
        (use assms True v a m ok in \<open>auto simp: send_user_operation_def Let_def split: sum.splits\<close>)
  next
    case False
    then obtain e where "v = Returns (Inl e)" using np by (cases v; cases "case v of Returns x \<Rightarrow> x") auto
    then show thesis
      using assms True v m
      by (intro rejected [of "InvalidParams (ValidationFailed e)"])
        (auto simp: send_user_operation_def Let_def)
  qed
qed

lemma send_inv [inv_intros]:
  assumes "rpc_inv H s" "send_user_operation H cs uo ep s = (r, s')"
  shows "rpc_inv H s'"
  using assms(2)
proof (cases rule: send_cases)
  case (validated p')
  then show ?thesis using assms(1) by (simp add: rpc_inv_def pool_add_inv)
qed (use assms in simp)

text \<open>What the server asks of an operation before it offers it to the pool.\<close>

definition admissible :: "chain_spec \<Rightarrow> rpc_state \<Rightarrow> user_operation \<Rightarrow> bool" where
  "admissible cs s uo \<longleftrightarrow>
     static_ok cs uo \<and> covers (uo_gas_fees uo) (current_base_fee s) (cs_min_max_priority_fee_per_gas cs) \<and>
     nonce_ok (rs_pool s) uo \<and> (\<forall>en\<in>set (uo_entities uo). rm_status (rs_reputation s) (en_address en) = Ok)"

lemma validate_admissible:
  assumes "rpc_inv H s"
  shows "validate_sync cs (Some (rs_pool s)) uo (current_base_fee s) (rs_reputation s) =
      (Returns (Inr ()), record_seen_all (uo_entities uo) (rs_reputation s)) \<and> admissible cs s uo \<or>
    (\<exists>e. validate_sync cs (Some (rs_pool s)) uo (current_base_fee s) (rs_reputation s) =
      (Returns (Inl e), rs_reputation s)) \<and> \<not> admissible cs s uo"
proof -
  let ?v = "validate_sync cs (Some (rs_pool s)) uo (current_base_fee s) (rs_reputation s)"
  have ok: "fst ?v = Returns (Inr ()) \<longleftrightarrow> admissible cs s uo"
    using assms by (simp add: validate_sync_accepts validate_static_ok validate_gas_price_ok
        validate_nonce_ok [of H] admissible_def rpc_inv_def)
  have np: "fst ?v \<noteq> Panics" by (rule validate_never_panics)
  have man: "snd ?v = (if admissible cs s uo then record_seen_all (uo_entities uo) (rs_reputation s) else rs_reputation s)"
    unfolding validate_sync_manager ok by simp
  show ?thesis
  proof (cases "admissible cs s uo")
    case True
    then show ?thesis using ok man by (simp add: prod_eq_iff)
  next
    case False
    then have "fst ?v \<noteq> Returns (Inr ())" using ok by simp
    then obtain e where "fst ?v = Returns (Inl e)" using np by (cases "fst ?v"; cases "case fst ?v of Returns x \<Rightarrow> x") auto
    then show ?thesis using False man by (simp add: prod_eq_iff)
  qed
qed

text \<open>A submission against the abstract pool.\<close>

lemma send_abs:
  assumes "rpc_inv H s" "send_user_operation H cs user_op ep s = (r, s')"
  defines "uo \<equiv> set_context H ep (cs_id cs) user_op"
  shows "if is_entry_point cs ep \<and> admissible cs s uo
    then rs_reputation s' = record_seen_all (uo_entities uo) (rs_reputation s) \<and>
      (case abs_add H (pl_config (rs_pool s)) uo (new_entry H uo (current_base_fee s) (rs_pool s)) (abs_pool (rs_pool s)) of
         Inl err \<Rightarrow> r = Returns (Inl (RpcPool err)) \<and> rs_pool s' = rs_pool s
       | Inr m \<Rightarrow> r = Returns (Inr (uo_hash H uo)) \<and> abs_pool (rs_pool s') = m)
    else s' = s \<and> (\<exists>e. r = Returns (Inl (InvalidParams e)))"
proof (cases "is_entry_point cs ep \<and> admissible cs s uo")
  case True
  then have v: "validate_sync cs (Some (rs_pool s)) uo (current_base_fee s) (rs_reputation s) =
      (Returns (Inr ()), record_seen_all (uo_entities uo) (rs_reputation s))"
    using validate_admissible [OF assms(1), of cs uo] by blast
  have inv: "pool_inv H (rs_pool s)" using assms(1) by (simp add: rpc_inv_def)
  obtain a p' where a: "pool_add H uo (current_base_fee s) (rs_pool s) = (a, p')" by fastforce
  have "r = Returns (map_sum RpcPool id a)" "s' = s\<lparr>rs_reputation := record_seen_all (uo_entities uo) (rs_reputation s), rs_pool := p'\<rparr>"
    using assms(2) True v a by (auto simp: send_user_operation_def Let_def uo_def split: sum.splits)
  then show ?thesis
    using pool_add_abs [OF inv, of uo "current_base_fee s"] a True
    by (cases a) (auto simp del: set_context_simps split: sum.splits)
next
  case False
  then have "s' = s \<and> (\<exists>e. r = Returns (Inl (InvalidParams e)))"
    using assms(2) validate_admissible [OF assms(1), of cs uo]
    by (auto simp: send_user_operation_def Let_def uo_def split: if_splits)
  then show ?thesis using False by (simp only: if_False)
qed

section \<open>Nonces\<close>

text \<open>
  Consecutive numbers: an interval, or one that ends with the last number and is followed by
  the number 0, to which \<open>max_seq + 1\<close> wraps.
\<close>

definition contiguous :: "u64 set \<Rightarrow> bool" where
  "contiguous S \<longleftrightarrow> S = {} \<or> (\<exists>lo hi. lo \<le> hi \<and> S = {lo..hi}) \<or> (\<exists>lo. S = insert 0 {lo..- 1})"

lemma contiguous_singleton: "contiguous {x}"
  unfolding contiguous_def by (intro disjI2 disjI1 exI [of _ x]) auto

lemma interval_extend:
  fixes lo hi :: u64
  assumes "lo \<le> hi" "hi \<noteq> - 1"
  shows "lo \<le> hi + 1 \<and> insert (hi + 1) {lo..hi} = {lo..hi + 1}"
proof -
  have up: "unat (hi + 1) = Suc (unat hi)" using unat_inc [of hi] assms(2) by simp
  then have "x \<le> hi + 1 \<longleftrightarrow> x \<le> hi \<or> x = hi + 1" for x
    by (auto simp: word_le_nat_alt word_unat_eq_iff)
  then show ?thesis using assms(1) up by (auto simp: word_le_nat_alt)
qed

lemma Max_interval: "lo \<le> hi \<Longrightarrow> Max {lo..hi} = hi" for lo hi :: u64
  by (intro Max_eqI) auto

lemma Max_wrapped: "Max (insert 0 {lo..- 1}) = - 1" for lo :: u64
  by (intro Max_eqI) auto

lemma contiguous_extend:
  assumes "contiguous S" "S \<noteq> {}"
  shows "contiguous (insert (Max S + 1) S)"
proof -
  consider (interval) lo hi where "lo \<le> hi" "S = {lo..hi}" | (wrapped) lo where "S = insert 0 {lo..- 1}"
    using assms unfolding contiguous_def by blast
  then show ?thesis
  proof cases
    case interval
    show ?thesis
    proof (cases "hi = - 1")
      case True
      then show ?thesis using interval unfolding contiguous_def by (auto simp: Max_interval)
    next
      case False
      then show ?thesis
        using interval interval_extend [OF interval(1) False] unfolding contiguous_def by (auto simp: Max_interval)
    qed
  next
    case wrapped
    then show ?thesis using assms(1) by (simp add: Max_wrapped)
  qed
qed

lemma pool_add_sequences:
  assumes "pool_inv H p" "pool_add H uo b p = (Inr h, p')"
  shows "pool_sequences p' a k =
    (if a = uo_sender uo \<and> k = nonce_key (uo_id uo) then insert (nonce_sequence (uo_id uo)) (pool_sequences p a k)
     else pool_sequences p a k)"
proof -
  have ent: "entries_of p' = add_mset (new_entry H uo b p) {#e \<in># entries_of p. pe_id e \<noteq> uo_id uo#}"
    using pool_add_outcome [OF assms] by simp
  have "x \<in> pool_sequences p' a k \<longleftrightarrow>
      (a = uo_sender uo \<and> k = nonce_key (uo_id uo) \<and> x = nonce_sequence (uo_id uo)) \<or>
      (\<exists>e. e \<in># entries_of p \<and> pe_id e \<noteq> uo_id uo \<and> id_sender (pe_id e) = a \<and> nonce_key (pe_id e) = k \<and>
         x = nonce_sequence (pe_id e))" for x
    unfolding pool_sequences_def ent by (auto intro: exI [of _ "new_entry H uo b p"])
  then show ?thesis unfolding pool_sequences_def by (auto simp: set_eq_iff)
qed

lemma add_known_id_fails_or_keeps:
  assumes "pool_inv H p" "get_by_id p (uo_id uo) \<noteq> None"
  shows "nonce_sequence (uo_id uo) \<in> pool_sequences p (uo_sender uo) (nonce_key (uo_id uo))"
proof -
  obtain e where "e \<in># entries_of p" "pe_id e = uo_id uo"
    using assms by (auto simp: get_by_id_def by_id_iff)
  then show ?thesis unfolding pool_sequences_def by force
qed

definition nonces_contiguous :: "operation_pool \<Rightarrow> bool" where
  "nonces_contiguous p \<longleftrightarrow> (\<forall>a k. contiguous (pool_sequences p a k))"

text \<open>The nonce rule lets a sequence in that is held already, is the first, or follows the largest.\<close>

lemma nonce_ok_contiguous:
  assumes "pool_inv H p" "nonces_contiguous p" "nonce_ok p uo"
  shows "contiguous (insert (nonce_sequence (uo_id uo)) (pool_sequences p (uo_sender uo) (nonce_key (uo_id uo))))"
proof -
  let ?S = "pool_sequences p (uo_sender uo) (nonce_key (uo_id uo))" and ?q = "nonce_sequence (uo_id uo)"
  have S: "contiguous ?S" using assms(2) by (simp add: nonces_contiguous_def)
  have "?q \<in> ?S \<or> ?S = {} \<or> ?q = Max ?S + 1"
    using assms(3) add_known_id_fails_or_keeps [OF assms(1), of uo] by (auto simp: nonce_ok_def Let_def)
  then show ?thesis
    using S contiguous_extend [OF S] contiguous_singleton [of ?q]
    by (cases "?S = {}") (auto simp: insert_absorb)
qed

lemma send_contiguous:
  assumes "rpc_inv H s" "nonces_contiguous (rs_pool s)"
    and "send_user_operation H cs uo ep s = (r, s')"
  shows "nonces_contiguous (rs_pool s')"
  using assms(3)
proof (cases rule: send_cases)
  case (validated p')
  let ?uo = "set_context H ep (cs_id cs) uo" and ?p = "rs_pool s"
  have inv: "pool_inv H ?p" using assms(1) by (simp add: rpc_inv_def)
  obtain a where add: "pool_add H ?uo (current_base_fee s) ?p = (a, p')"
    using validated(5) by (metis prod.collapse)
  show ?thesis
  proof (cases a)
    case (Inl e)
    then have "p' = ?p" using pool_add_outcome [OF inv add] by simp
    then show ?thesis using assms(2) validated(3) by simp
  next
    case (Inr h)
    have "nonce_ok ?p ?uo"
      using validated(2) validate_nonce_ok [OF inv, of ?uo] by (simp add: validate_sync_accepts)
    from nonce_ok_contiguous [OF inv assms(2) this] show ?thesis
      using assms(2) validated(3) pool_add_sequences [OF inv add [unfolded Inr]]
      by (simp add: nonces_contiguous_def del: set_context_simps)
  qed
qed (use assms in simp)

text \<open>A run of calls, with the sender of each and its outcome.\<close>

fun send_all ::
  "hashing \<Rightarrow> chain_spec \<Rightarrow> (user_operation \<times> address) list \<Rightarrow> rpc_state \<Rightarrow>
   (address \<times> (rpc_error + b256) run) list \<times> rpc_state" where
  "send_all H cs [] s = ([], s)"
| "send_all H cs ((uo, ep) # calls) s =
     (case send_user_operation H cs uo ep s of
        (r, s1) \<Rightarrow> (case send_all H cs calls s1 of (rs, s2) \<Rightarrow> ((uo_sender uo, r) # rs, s2)))"

definition accepted :: "address \<Rightarrow> (address \<times> (rpc_error + b256) run) list \<Rightarrow> nat" where
  "accepted a rs = length (filter (\<lambda>(b, r). b = a \<and> (\<exists>h. r = Returns (Inr h))) rs)"

lemma send_all_inv:
  "rpc_inv H s \<Longrightarrow> send_all H cs calls s = (rs, s') \<Longrightarrow> rpc_inv H s'"
  by (induction H cs calls s arbitrary: rs rule: send_all.induct)
    (auto intro: send_inv split: prod.splits)

lemma send_all_contiguous:
  assumes "rpc_inv H s" "nonces_contiguous (rs_pool s)"
    and "send_all H cs calls s = (rs, s')"
  shows "nonces_contiguous (rs_pool s')"
  using assms
proof (induction H cs calls s arbitrary: rs rule: send_all.induct)
  case (2 H cs uo ep calls s)
  obtain r s1 where 1: "send_user_operation H cs uo ep s = (r, s1)"
    by (cases "send_user_operation H cs uo ep s")
  obtain rs1 where rest: "send_all H cs calls s1 = (rs1, s')"
    using 2(4) by (auto simp: 1 split: prod.splits)
  have "rpc_inv H s1" using send_inv [OF 2(2) 1] .
  moreover have "nonces_contiguous (rs_pool s1)" using send_contiguous [OF 2(2,3) 1] .
  ultimately show ?case
    using "2.IH" [OF 1 [symmetric] _ _ rest] by simp
qed simp

section \<open>Reputation of a sender that only sends\<close>

text \<open>Inclusions are never recorded in the validator's manager; ten counted operations are tolerated.\<close>

definition never_included :: "reputation_manager \<Rightarrow> bool" where
  "never_included m \<longleftrightarrow>
     rm_inv m \<and> rm_config m = reputation_config_default \<and>
     (\<forall>a. included m a = 0 \<and> unat (seen m a) \<le> 13)"

lemma never_included_Ok:
  assumes "never_included m"
  shows "rm_status m a = Ok \<longleftrightarrow> unat (seen m a) \<le> 10"
proof -
  have "unat (seen m a) \<le> 13" "included m a = 0" using assms by (auto simp: never_included_def)
  then have "unat (seen m a) < 2 ^ 53" by (intro le_less_trans [of "unat (seen m a)" 13]) simp_all
  then show ?thesis
    using assms default_status_cases [of "\<lparr>re_ops_seen = seen m a, re_ops_included = 0\<rparr>"]
    by (simp add: rm_status_counters never_included_def)
qed

lemma seen_after_validation:
  assumes "never_included m" "\<forall>en\<in>set (uo_entities uo). rm_status m (en_address en) = Ok"
  shows "never_included (record_seen_all (uo_entities uo) m)"
    and "unat (seen (record_seen_all (uo_entities uo) m) a) = unat (seen m a) + mentions uo a"
proof -
  have inv: "rm_inv m" using assms(1) by (simp add: never_included_def)
  have le: "unat (seen m a) + mentions uo a \<le> 13" for a
  proof (cases "\<exists>en\<in>set (uo_entities uo). en_address en = a")
    case True
    then have "rm_status m a = Ok" using assms(2) by blast
    then show ?thesis using never_included_Ok [OF assms(1)] mentions_bounds(1) [of uo a] by simp
  next
    case False
    then have "mentions uo a = 0" by (auto simp: mentions_def filter_empty_conv)
    then show ?thesis using assms(1) by (simp add: never_included_def)
  qed
  have eq: "unat (seen (record_seen_all (uo_entities uo) m) a) = unat (seen m a) + mentions uo a" for a
  proof -
    have small: "mentions uo a < 2 ^ 64" using mentions_bounds(1) [of uo a] by simp
    then have "unat (of_nat (mentions uo a) :: u64) = mentions uo a"
      by (simp add: unsigned_of_nat take_bit_nat_eq_self)
    then show ?thesis
      using le [of a]
      by (simp add: record_seen_all_seen [OF inv] mentions_def [symmetric] unat_add_fits)
  qed
  show "unat (seen (record_seen_all (uo_entities uo) m) a) = unat (seen m a) + mentions uo a" by (rule eq)
  show "never_included (record_seen_all (uo_entities uo) m)"
    using assms(1) le eq inv by (simp add: never_included_def record_seen_all_included)
qed

lemma send_counts:
  assumes "never_included (rs_reputation s)" "send_user_operation H cs uo ep s = (r, s')"
  shows "never_included (rs_reputation s') \<and> unat (seen (rs_reputation s) a) \<le> unat (seen (rs_reputation s') a) \<and>
    ((\<exists>h. r = Returns (Inr h)) \<longrightarrow>
       unat (seen (rs_reputation s) (uo_sender uo)) \<le> 10 \<and>
       unat (seen (rs_reputation s) (uo_sender uo)) < unat (seen (rs_reputation s') (uo_sender uo)))"
  using assms(2)
proof (cases rule: send_cases)
  case (validated p')
  let ?uo = "set_context H ep (cs_id cs) uo" and ?m = "rs_reputation s"
  have ok: "\<forall>en\<in>set (uo_entities ?uo). rm_status ?m (en_address en) = Ok"
    using validated(2) by (simp add: validate_sync_accepts)
  have "entity_account (uo_sender uo) \<in> set (uo_entities ?uo)" by (simp add: uo_entities_def)
  with ok have "rm_status ?m (en_address (entity_account (uo_sender uo))) = Ok" by (rule bspec)
  then have "unat (seen ?m (uo_sender uo)) \<le> 10"
    unfolding never_included_Ok [OF assms(1)] by (simp add: entity_defs)
  then show ?thesis
    using seen_after_validation [OF assms(1) ok] validated(3) mentions_bounds(2) [of ?uo] by simp
qed (use assms in simp)

lemma send_all_counts:
  assumes "never_included (rs_reputation s)" "send_all H cs calls s = (rs, s')"
  shows "never_included (rs_reputation s') \<and>
    accepted a rs + unat (seen (rs_reputation s) a) \<le> unat (seen (rs_reputation s') a) \<and>
    (unat (seen (rs_reputation s) a) \<le> 11 \<longrightarrow> accepted a rs + unat (seen (rs_reputation s) a) \<le> 11) \<and>
    (10 < unat (seen (rs_reputation s) a) \<longrightarrow> accepted a rs = 0)"
  using assms
proof (induction H cs calls s arbitrary: rs rule: send_all.induct)
  case (1 H cs s)
  then show ?case by (simp add: accepted_def)
next
  case (2 H cs uo ep calls s)
  obtain r s1 where 1: "send_user_operation H cs uo ep s = (r, s1)"
    by (cases "send_user_operation H cs uo ep s")
  obtain rs1 where rest: "send_all H cs calls s1 = (rs1, s')" "rs = (uo_sender uo, r) # rs1"
    using 2(3) by (auto simp: 1 split: prod.splits)
  note step = send_counts [OF 2(2) 1, of a]
  have IH: "never_included (rs_reputation s') \<and>
    accepted a rs1 + unat (seen (rs_reputation s1) a) \<le> unat (seen (rs_reputation s') a) \<and>
    (unat (seen (rs_reputation s1) a) \<le> 11 \<longrightarrow> accepted a rs1 + unat (seen (rs_reputation s1) a) \<le> 11) \<and>
    (10 < unat (seen (rs_reputation s1) a) \<longrightarrow> accepted a rs1 = 0)"
    using "2.IH" [OF 1 [symmetric] _ rest(1)] step by simp
  have acc: "accepted a rs = (if uo_sender uo = a \<and> (\<exists>h. r = Returns (Inr h)) then 1 else 0) + accepted a rs1"
    by (simp add: accepted_def rest(2))
  show ?case
    using IH step acc by (cases "unat (seen (rs_reputation s1) a) \<le> 10") (auto split: if_splits)
qed

section \<open>Properties\<close>

text \<open>
  Claim C9.  \<open>eth_sendUserOperation\<close> never panics and keeps the pool and the reputation
  tracker consistent.  When it returns a hash, the entry point is supported, the hash is
  the one computed for the operation on that entry point and chain, and looking the hash
  up returns that operation; when it returns an error the pool is unchanged.
\<close>

theorem send_user_operation_spec:
  assumes "rpc_inv H s" "send_user_operation H cs uo ep s = (r, s')"
  shows "r \<noteq> Panics \<and> rpc_inv H s' \<and>
    (\<forall>h. r = Returns (Inr h) \<longrightarrow>
       is_entry_point cs ep \<and> h = compute_hash H (uo\<lparr>uo_entry_point := ep, uo_chain_id := cs_id cs\<rparr>) \<and>
       get_user_operation_by_hash cs h s' =
         Some \<lparr>uwe_user_operation = set_context H ep (cs_id cs) uo, uwe_entry_point = ep,
               uwe_block_number = None, uwe_block_hash = None, uwe_transaction_hash = None\<rparr>) \<and>
    (\<forall>e. r = Returns (Inl e) \<longrightarrow> rs_pool s' = rs_pool s)"
  using assms(2)
proof (cases rule: send_cases)
  case (rejected e)
  then show ?thesis using assms by simp
next
  case (validated p')
  let ?uo = "set_context H ep (cs_id cs) uo" and ?p = "rs_pool s"
  have inv: "pool_inv H ?p" using assms(1) by (simp add: rpc_inv_def)
  obtain a where add: "pool_add H ?uo (current_base_fee s) ?p = (a, p')"
    using validated(5) by (metis prod.collapse)
  have inv': "rpc_inv H s'" using send_inv [OF assms] .
  then have p': "pool_inv H p'" using validated(3) by (simp add: rpc_inv_def)
  show ?thesis
  proof (cases a)
    case (Inl e)
    then show ?thesis
      using pool_add_outcome [OF inv add] validated(1,3,4) add inv' by simp
  next
    case (Inr h)
    have h: "h = uo_hash H ?uo" and ent: "entries_of p' =
        add_mset (new_entry H ?uo (current_base_fee s) ?p) {#e \<in># entries_of ?p. pe_id e \<noteq> uo_id ?uo#}"
      using pool_add_outcome [OF inv add] Inr by simp_all
    then have "get_by_hash p' h = Some (new_entry H ?uo (current_base_fee s) ?p)"
      using by_hash_iff [OF p', of h] by (simp add: get_by_hash_def del: set_context_simps)
    then show ?thesis
      using validated(1,3,4) inv' add Inr h by (simp add: get_user_operation_by_hash_def is_entry_point_def)
  qed
qed

definition mainnet_uo :: user_operation where
  "mainnet_uo = (sample_uo 1 0 300000000 11)\<lparr>uo_max_priority_fee_per_gas := 100000000\<rparr>"

definition mainnet_rpc :: rpc_state where
  "mainnet_rpc = rpc_new (pool_new (pool_config_from chain_spec_mainnet)) rm_default"

abbreviation mainnet_entry_point :: address where
  "mainnet_entry_point \<equiv> cs_entry_point_v0_7 chain_spec_mainnet"

theorem send_user_operation_spec_witness:
  "\<exists>r s'. send_user_operation sample_hashing chain_spec_mainnet mainnet_uo mainnet_entry_point mainnet_rpc = (r, s') \<and>
     r \<noteq> Panics \<and> rpc_inv sample_hashing s'"
proof -
  have inv: "rpc_inv sample_hashing mainnet_rpc" by (simp add: mainnet_rpc_def rm_default_def)
  obtain r s' where r: "send_user_operation sample_hashing chain_spec_mainnet mainnet_uo mainnet_entry_point mainnet_rpc = (r, s')"
    by (metis prod.collapse)
  show ?thesis using send_user_operation_spec [OF inv r] r by blast
qed

text \<open>
  Claim C36.  Whatever submissions a fresh server serves one after another, the sequence
  numbers the pool holds for a sender and nonce key are consecutive: an interval, or, once
  the last number 2^64 - 1 is in use, an interval up to it and the number 0, at which the
  check stops letting new numbers in.
\<close>

theorem sent_nonces_contiguous:
  "let S = pool_sequences (rs_pool (snd (send_all H cs calls (rpc_new (pool_new cfg) (rm_new rcfg))))) a k in
    S = {} \<or> (\<exists>lo hi. lo \<le> hi \<and> S = {lo..hi}) \<or> (\<exists>lo. S = insert 0 {lo..- 1})"
proof -
  have "nonces_contiguous (rs_pool (rpc_new (pool_new cfg) (rm_new rcfg)))"
    by (simp add: nonces_contiguous_def rpc_new_def pool_sequences_def pool_new_def entries_of_def contiguous_def)
  from send_all_contiguous [OF rpc_new_inv this prod.collapse [symmetric]] show ?thesis
    unfolding nonces_contiguous_def contiguous_def Let_def by blast
qed

text \<open>
  As the program is wired, with a default reputation tracker in which nobody
  records inclusions and nothing decays, at most eleven operations of a sender are ever
  accepted, mined or not: after that the sender is banned for the life of the process.
\<close>

theorem eleven_operations_per_sender:
  assumes "send_all H cs calls (rpc_new p rm_default) = (rs, s')"
  shows "accepted a rs \<le> 11"
proof -
  have "never_included (rs_reputation (rpc_new p rm_default))"
    by (simp add: never_included_def rpc_new_def rm_default_def)
  moreover have "unat (seen (rs_reputation (rpc_new p rm_default)) a) = 0"
    by (simp add: rpc_new_def rm_default_def)
  ultimately show ?thesis using send_all_counts [OF _ assms, of a] by simp
qed

theorem eleven_operations_per_sender_witness:
  "\<exists>rs s'. send_all sample_hashing chain_spec_mainnet (replicate 20 (mainnet_uo, mainnet_entry_point))
      mainnet_rpc = (rs, s') \<and> accepted 1 rs \<le> 11"
proof -
  obtain rs s' where r: "send_all sample_hashing chain_spec_mainnet (replicate 20 (mainnet_uo, mainnet_entry_point))
      mainnet_rpc = (rs, s')" by (metis prod.collapse)
  then show ?thesis using eleven_operations_per_sender [OF r [unfolded mainnet_rpc_def]] by blast
qed

end
