(* ===== verification/Contracts.thy ===== *)
theory Contracts
  imports Provider_Api
begin

text \<open>
  \<open>crates/provider/src/contracts.rs\<close>: the Solidity types of the entry point, as the
  \<open>sol!\<close> macro declares them, with one constructor per function and per error of its two
  interfaces.  The ABI coders that the macro generates are not part of the sources: they are
  the fields of the record \<open>abi\<close>, together with the hex decoder of the library.  An ABI
  string is the list of its bytes.
\<close>

section \<open>Structs\<close>

record sol_packed_uo =
  so_sender :: address
  so_nonce :: u256
  so_init_code :: bytes
  so_call_data :: bytes
  so_account_gas_limits :: bytes  \<comment> \<open>\<open>bytes32\<close>\<close>
  so_pre_verification_gas :: u256
  so_gas_fees :: bytes  \<comment> \<open>\<open>bytes32\<close>\<close>
  so_paymaster_and_data :: bytes
  so_signature :: bytes

record uops_per_aggregator =
  ua_user_ops :: "sol_packed_uo list"
  ua_aggregator :: address
  ua_signature :: bytes

record return_info =
  ri_pre_op_gas :: u256
  ri_prefund :: u256
  ri_account_validation_data :: u256
  ri_paymaster_validation_data :: u256
  ri_paymaster_context :: bytes

record sol_stake_info =
  ss_stake :: u256
  ss_unstake_delay_sec :: u256

record aggregator_stake_info =
  as_aggregator :: address
  as_stake_info :: sol_stake_info

record validation_result =
  vr_return_info :: return_info
  vr_sender_info :: sol_stake_info
  vr_factory_info :: sol_stake_info
  vr_paymaster_info :: sol_stake_info
  vr_aggregator_info :: aggregator_stake_info

record sol_execution_result =
  se_pre_op_gas :: u256
  se_paid :: u256
  se_account_validation_data :: u256
  se_paymaster_validation_data :: u256
  se_target_success :: bool
  se_target_result :: bytes

record deposit_info =
  di_deposit :: u256
  di_staked :: bool
  di_stake :: "112 word"
  di_unstake_delay_sec :: u32
  di_withdraw_time :: "48 word"

section \<open>Interfaces\<close>

datatype entry_point_call =
    HandleOps "sol_packed_uo list" address
  | HandleAggregatedOps "uops_per_aggregator list" address
  | GetUserOpHash sol_packed_uo
  | BalanceOf address
  | GetDepositInfo address

datatype simulation_call =
    SimulateValidation sol_packed_uo
  | SimulateHandleOp sol_packed_uo address bytes

datatype entry_point_event =
    UserOperationEvent b256 address address u256 bool u256 u256
  | AccountDeployed b256 address address address

datatype entry_point_error =
    SolFailedOp u256 string
  | SolFailedOpWithRevert u256 string bytes
  | SolSignatureValidationFailed address

section \<open>The generated coders\<close>

record abi =
  ab_encode_call :: "entry_point_call \<Rightarrow> bytes"
  ab_encode_simulation :: "simulation_call \<Rightarrow> bytes"
  ab_decode_validation_result :: "bytes \<Rightarrow> string + validation_result"
  ab_decode_execution_result :: "bytes \<Rightarrow> string + sol_execution_result"
  ab_decode_user_op_hash :: "bytes \<Rightarrow> string + b256"
  ab_decode_balance :: "bytes \<Rightarrow> string + u256"
  ab_decode_error :: "bytes \<Rightarrow> string + entry_point_error"
  ab_hex_decode :: "string \<Rightarrow> bytes option"

end
