(* ===== verification/Rpc_Queries.thy ===== *)
theory Rpc_Queries
  imports Rpc Contracts
begin

text \<open>
  The queries of the \<open>eth\<close> namespace against the world they ask: receipts are read from the
  events that the entry point of \<open>crates/provider/src/contracts.rs\<close> emits, gas estimates from
  its simulations.
\<close>

section \<open>Emitted events\<close>

text \<open>
  The log of an event by the rules of the contract ABI: the signature and the indexed
  arguments are topics, the other arguments are words of the data.
\<close>

fun emitted :: "hashing \<Rightarrow> b256 option \<Rightarrow> entry_point_event \<Rightarrow> event_log" where
  "emitted H tx (UserOperationEvent h sender paymaster nonce success cost used) =
     \<lparr>lg_topics = [user_op_event_topic H, h, ucast sender, ucast paymaster],
      lg_data = to_be_bytes nonce @ to_be_bytes (if success then 1 else 0 :: u256) @ to_be_bytes cost @ to_be_bytes used,
      lg_transaction_hash = tx\<rparr>"
| "emitted H tx (AccountDeployed h sender factory paymaster) =
     \<lparr>lg_topics = [keccak256 H (string_bytes ''AccountDeployed(bytes32,address,address,address)''), h, ucast sender],
      lg_data = to_be_bytes (ucast factory :: u256) @ to_be_bytes (ucast paymaster :: u256),
      lg_transaction_hash = tx\<rparr>"

lemma be_bytes_split: "be_bytes (m + n) v = be_bytes m (v div 256 ^ n) @ be_bytes n v"
  by (induction n arbitrary: v) (simp_all add: div_mult2_eq)

lemma topic_address_ucast [simp]: "topic_address (ucast a) = a"
proof -
  have "unat (ucast a :: b256) = unat a" by (simp add: unat_ucast_up)
  then have "to_be_bytes (ucast a :: b256) = be_bytes 12 (unat a div 256 ^ 20) @ to_be_bytes a"
    using be_bytes_split [of 12 20 "unat a"] by (simp add: to_be_bytes_def)
  then show ?thesis using be160.dec_enc [of a] by (simp add: topic_address_def)
qed

lemma last_byte: "to_be_bytes (w :: u256) ! 31 = ucast w"
proof -
  have "be_bytes (Suc 31) (unat w) ! 31 = word_of_nat (unat w)" by (simp only: be_bytes.simps nth_append length_be_bytes) simp
  then show ?thesis by (simp add: to_be_bytes_def)
qed

lemma decode_emitted:
  "decode_user_op_event h (emitted H tx (UserOperationEvent h' sender paymaster nonce success cost used)) =
     \<lparr>ur_user_op_hash = h, ur_sender = sender, ur_nonce = nonce,
      ur_paymaster = (if paymaster = 0 then None else Some paymaster),
      ur_actual_gas_cost = cost, ur_actual_gas_used = used, ur_success = success,
      ur_reason = [], ur_receipt = None\<rparr>"
proof -
  let ?flag = "to_be_bytes (if success then 1 else 0 :: u256)"
  let ?data = "to_be_bytes nonce @ ?flag @ to_be_bytes cost @ to_be_bytes used"
  have "?data ! 63 = ?flag ! 31" by (simp add: nth_append)
  then have "?data ! 63 \<noteq> 0 \<longleftrightarrow> success" by (simp add: last_byte)
  then show ?thesis
    by (simp add: decode_user_op_event_def be256.dec_enc be256.dec_prefix Let_def)
qed

section \<open>The base fee of the server\<close>

lemma send_base_fee:
  assumes "send_user_operation H cs uo ep s = (r, s')"
  shows "rs_base_fee s' = rs_base_fee s"
  using assms by (cases rule: send_cases) simp_all

lemma send_all_base_fee: "send_all H cs calls s = (rs, s') \<Longrightarrow> rs_base_fee s' = rs_base_fee s"
proof (induction H cs calls s arbitrary: rs rule: send_all.induct)
  case (2 H cs uo ep calls s)
  obtain r s1 where 1: "send_user_operation H cs uo ep s = (r, s1)"
    by (cases "send_user_operation H cs uo ep s")
  then show ?case using 2 send_base_fee [OF 1] by (auto split: prod.splits)
qed simp

section \<open>Properties\<close>

text \<open>
  Claim C26.  What the entry point emits for an operation is what its receipt says: when the
  first log the node finds is the event, the receipt has the sender, nonce, costs and outcome
  of the event, no paymaster exactly when the event has the zero address, and the receipt of
  the transaction when the log names one.
\<close>

theorem receipt_roundtrip:
  assumes "evm_get_block_number P w = (Inr current, w1)"
    and "evm_get_logs P
       \<lparr>lf_address = cs_entry_point_v0_7 cs, lf_event_signature = user_op_event_topic H, lf_topic1 = Some h,
        lf_from_block = saturating_sub current 1000, lf_to_block = current\<rparr> w1 =
       (Inr (emitted H tx (UserOperationEvent h sender paymaster nonce success cost used) # later), w2)"
  shows "get_user_operation_receipt H cs (Some P) h w =
    (let found = \<lparr>ur_user_op_hash = h, ur_sender = sender, ur_nonce = nonce,
       ur_paymaster = (if paymaster = 0 then None else Some paymaster),
       ur_actual_gas_cost = cost, ur_actual_gas_used = used, ur_success = success,
       ur_reason = [], ur_receipt = None\<rparr>
     in if tx = None \<or> tx = Some 0 then (Inr (Some found), w2)
        else (case evm_get_transaction_receipt P (the tx) w2 of
            (Inl e, w3) \<Rightarrow> (Inl (InternalError (ProviderFailed e)), w3)
          | (Inr rcpt, w3) \<Rightarrow> (Inr (Some (found\<lparr>ur_receipt := rcpt\<rparr>)), w3)))"
proof -
  have "lg_transaction_hash (emitted H tx (UserOperationEvent h sender paymaster nonce success cost used)) = tx"
    by simp
  then show ?thesis
    using assms decode_emitted [of h H tx h sender paymaster nonce success cost used]
    by (cases tx)
      (auto simp: get_user_operation_receipt_def io_bind_def io_map_err_def io_return_def unwrap_or_def Let_def
        simp del: emitted.simps split: prod.splits sum.splits)
qed

theorem receipt_roundtrip_witness:
  "\<exists>rcpt. get_user_operation_receipt sample_hashing chain_spec_dev
      (Some (sample_provider\<lparr>evm_get_logs := (\<lambda>_. io_return
         [emitted sample_hashing None (UserOperationEvent 11 1 0 5 True 700 70)])\<rparr>)) 11 2000 = (Inr (Some rcpt), 2000) \<and>
    ur_sender rcpt = 1 \<and> ur_nonce rcpt = 5 \<and> ur_paymaster rcpt = None \<and> ur_success rcpt \<and>
    ur_actual_gas_cost rcpt = 700 \<and> ur_actual_gas_used rcpt = 70"
proof -
  let ?P = "sample_provider\<lparr>evm_get_logs := (\<lambda>_. io_return
         [emitted sample_hashing None (UserOperationEvent 11 1 0 5 True 700 70)])\<rparr>"
  have "evm_get_block_number ?P 2000 = (Inr 2000, 2000)" by (simp add: sample_provider_def)
  moreover have "evm_get_logs ?P f 2000 =
      (Inr (emitted sample_hashing None (UserOperationEvent 11 1 0 5 True 700 70) # []), 2000)" for f
    by (simp add: io_return_def)
  ultimately show ?thesis
    using receipt_roundtrip [of ?P 2000 2000 2000 chain_spec_dev sample_hashing 11 None 1 0 5 True 700 70 "[]" 2000]
    by (simp add: Let_def del: emitted.simps)
qed

text \<open>
  Claim C32.  Since nothing sets the base fee of the server, an estimate whose two simulations
  agree on the gas before execution reports as call gas the amount paid in wei, undivided,
  whatever was sent before; the request panics when that amount exceeds 128 bits.
\<close>

theorem estimated_call_gas_is_wei:
  assumes "send_all H cs calls (rpc_new pool reputation) = (rs, s)" "is_entry_point cs ep"
    and "epp_simulate_validation E (pack (into_user_operation H g ep (cs_id cs) 1000000 10000000)) w = (Inr (Inr v), w1)"
    and "epp_simulate_handle_op E (pack (into_user_operation H g ep (cs_id cs) 1000000 10000000)) 0 [] w1 =
      (Inr (Inr res), w2)"
    and "er_pre_op_gas res = vo_pre_op_gas v"
  shows "if unat (er_paid res) < 2 ^ 128
    then \<exists>est. estimate_user_operation_gas H cs (Some E) g ep s w = (Returns (Inr est), w2) \<and>
      unat (ge_call_gas_limit est) = unat (er_paid res) \<and> ge_verification_gas_limit est = vo_pre_op_gas v
    else estimate_user_operation_gas H cs (Some E) g ep s w = (Panics, w2)"
proof -
  have "rs_base_fee s = 0" using send_all_base_fee [OF assms(1)] by (simp add: rpc_new_def)
  then have fee: "max (current_base_fee s) 1 = 1" by (simp add: current_base_fee_def max_def)
  have "unat (ucast (er_paid res) :: u128) = unat (er_paid res)" if "unat (er_paid res) < 2 ^ 128"
    using that by (simp add: unsigned_ucast_eq take_bit_nat_eq_self)
  then show ?thesis
    using assms(2-5)
    by (simp add: estimate_user_operation_gas_def estimated_call_gas_def u256_to_u128_def fee Let_def)
qed

definition sample_validation :: validation_output where
  "sample_validation =
     \<lparr>vo_pre_op_gas = 50000, vo_prefund = 0, vo_valid_after = 0, vo_valid_until = 0, vo_account_sig_failed = False,
      vo_paymaster_sig_failed = False, vo_sender_info = \<lparr>si_stake = 0, si_unstake_delay_sec = 0\<rparr>,
      vo_factory_info = \<lparr>si_stake = 0, si_unstake_delay_sec = 0\<rparr>,
      vo_paymaster_info = \<lparr>si_stake = 0, si_unstake_delay_sec = 0\<rparr>, vo_aggregator = None\<rparr>"

definition sample_execution :: execution_result where
  "sample_execution =
     \<lparr>er_pre_op_gas = 50000, er_paid = 3000000000000000, er_target_success = True, er_target_result = []\<rparr>"

definition sample_estimator :: "u64 entry_point_provider" where
  "sample_estimator = unit_entry_point_provider\<lparr>
     epp_simulate_validation := (\<lambda>_. io_return (Inr sample_validation)),
     epp_simulate_handle_op := (\<lambda>_ _ _. io_return (Inr sample_execution))\<rparr>"

definition sample_request_gas :: uo_optional_gas where
  "sample_request_gas =
     \<lparr>og_sender = 1, og_nonce = 0, og_call_data = [1], og_signature = [2], og_factory = None, og_factory_data = [],
      og_paymaster = None, og_paymaster_data = [], og_call_gas_limit = None, og_verification_gas_limit = None,
      og_pre_verification_gas = None, og_max_fee_per_gas = None, og_max_priority_fee_per_gas = None,
      og_paymaster_verification_gas_limit = None, og_paymaster_post_op_gas_limit = None\<rparr>"

theorem estimated_call_gas_is_wei_witness:
  "\<exists>est. estimate_user_operation_gas sample_hashing chain_spec_mainnet (Some sample_estimator) sample_request_gas
      mainnet_entry_point mainnet_rpc 5 = (Returns (Inr est), 5) \<and> unat (ge_call_gas_limit est) = 3000000000000000"
proof -
  have sent: "send_all sample_hashing chain_spec_mainnet []
      (rpc_new (pool_new (pool_config_from chain_spec_mainnet)) rm_default) = ([], mainnet_rpc)"
    by (simp add: mainnet_rpc_def)
  have calls: "epp_simulate_validation sample_estimator p 5 = (Inr (Inr sample_validation), 5)"
    "epp_simulate_handle_op sample_estimator p 0 [] 5 = (Inr (Inr sample_execution), 5)" for p
    by (simp_all add: sample_estimator_def io_return_def)
  have "is_entry_point chain_spec_mainnet mainnet_entry_point" by (simp add: is_entry_point_def)
  from estimated_call_gas_is_wei [OF sent this calls] show ?thesis
    by (auto simp: sample_validation_def sample_execution_def)
qed

end
