(* ===== verification/Gas_Oracle.thy ===== *)
theory Gas_Oracle
  imports Provider_Api
begin

text \<open>
  \<open>crates/provider/src/gas_oracle.rs\<close>: the fee cache.  \<open>ProviderGasOracle\<close> keeps the last
  base fee and a bounded history of priority fees; \<open>GasOracle\<close> is the interface the
  proposer sees.
\<close>

section \<open>State and operations\<close>

record block_fees =
  bf_block_number :: u64
  bf_base_fee :: u128
  bf_priority_fee :: u128

record gas_oracle =
  go_last_base_fee :: u64
  go_last_block :: u64
  go_fee_history :: "block_fees list"
  go_history_size :: nat

record 'w fee_source =
  fs_current_fees :: "('w, gas_fees) io"
  fs_base_fee :: "('w, u128) io"

definition gas_oracle_new :: gas_oracle where
  "gas_oracle_new =
     \<lparr>go_last_base_fee = 0, go_last_block = 0, go_fee_history = [], go_history_size = 5\<rparr>"

definition store_fees :: "u64 \<Rightarrow> u128 \<Rightarrow> u128 \<Rightarrow> gas_oracle \<Rightarrow> gas_oracle" where
  "store_fees current_block base_fee priority_fee g =
     g\<lparr>go_last_base_fee := ucast base_fee,
       go_last_block := current_block,
       go_fee_history := trim_front (go_history_size g)
         (go_fee_history g @ [\<lparr>bf_block_number = current_block, bf_base_fee = base_fee,
                                bf_priority_fee = priority_fee\<rparr>])\<rparr>"

definition refresh_if_needed :: "'w evm_provider \<Rightarrow> (gas_oracle \<times> 'w, unit) io" where
  "refresh_if_needed P =
     io_bind (on_node (evm_get_block_number P)) (\<lambda>current_block.
     io_bind get_state (\<lambda>g.
       if current_block \<le> go_last_block g then io_return ()
       else
         io_bind (on_node (evm_get_base_fee P)) (\<lambda>base_fee.
         io_bind (on_node (evm_get_max_priority_fee P)) (\<lambda>priority_fee.
         modify_state (store_fees current_block base_fee priority_fee)))))"

definition median_priority_fee :: "gas_oracle \<Rightarrow> u128 option" where
  "median_priority_fee g =
     (if go_fee_history g = [] then None
      else (let fees = sort (map bf_priority_fee (go_fee_history g))
            in Some (fees ! (length fees div 2))))"

definition oracle_fees :: "gas_oracle \<Rightarrow> gas_fees" where
  "oracle_fees g =
     (let base_fee = ucast (go_last_base_fee g) :: u128;
          priority_fee = (case median_priority_fee g of Some f \<Rightarrow> f | None \<Rightarrow> base_fee div 10)
      in gas_fees_new (base_fee + priority_fee) priority_fee)"

definition current_fees :: "'w evm_provider \<Rightarrow> (gas_oracle \<times> 'w, gas_fees) io" where
  "current_fees P =
     io_bind (refresh_if_needed P) (\<lambda>_. io_bind get_state (\<lambda>g. io_return (oracle_fees g)))"

definition oracle_base_fee :: "'w evm_provider \<Rightarrow> (gas_oracle \<times> 'w, u128) io" where
  "oracle_base_fee P =
     io_bind (refresh_if_needed P) (\<lambda>_. io_bind get_state (\<lambda>g.
       if 0 < go_last_base_fee g then io_return (ucast (go_last_base_fee g))
       else on_node (evm_get_base_fee P)))"

definition provider_gas_oracle :: "'w evm_provider \<Rightarrow> (gas_oracle \<times> 'w) fee_source" where
  "provider_gas_oracle P = \<lparr>fs_current_fees = current_fees P, fs_base_fee = oracle_base_fee P\<rparr>"

section \<open>The history\<close>

text \<open>
  The history holds at most \<open>history_size\<close> samples of increasing block numbers; the newest
  one is the cached block and base fee.
\<close>

definition oracle_inv :: "gas_oracle \<Rightarrow> bool" where
  "oracle_inv g \<longleftrightarrow>
     0 < go_history_size g \<and> length (go_fee_history g) \<le> go_history_size g \<and>
     sorted_wrt (<) (map bf_block_number (go_fee_history g)) \<and>
     (if go_fee_history g = [] then go_last_block g = 0 \<and> go_last_base_fee g = 0
      else bf_block_number (last (go_fee_history g)) = go_last_block g \<and>
           ucast (bf_base_fee (last (go_fee_history g))) = go_last_base_fee g)"

lemma oracle_new_inv [simp, inv_intros]: "oracle_inv gas_oracle_new"
  by (simp add: oracle_inv_def gas_oracle_new_def)

lemma history_below_last:
  assumes "oracle_inv g" "b \<in> set (go_fee_history g)"
  shows "bf_block_number b \<le> go_last_block g"
proof -
  obtain xs y where xs: "go_fee_history g = xs @ [y]"
    using assms(2) by (metis append_butlast_last_id list.distinct(1) list.set_cases)
  then show ?thesis
    using assms by (auto simp: oracle_inv_def sorted_wrt_append intro: less_imp_le)
qed

lemma store_fees_inv [inv_intros]:
  assumes "oracle_inv g" "go_last_block g < n"
  shows "oracle_inv (store_fees n b p g)"
proof -
  let ?h = "go_fee_history g" and ?k = "go_history_size g"
  let ?e = "\<lparr>bf_block_number = n, bf_base_fee = b, bf_priority_fee = p\<rparr>"
  have k: "0 < ?k" using assms(1) by (simp add: oracle_inv_def)
  have h: "go_fee_history (store_fees n b p g) = trim_front (?k - 1) ?h @ [?e]"
    using k by (simp add: store_fees_def trim_front_snoc)
  have "sorted_wrt (<) (map bf_block_number (trim_front (?k - 1) ?h))"
    using assms(1) by (simp add: oracle_inv_def sorted_wrt_map sorted_wrt_trim_front)
  moreover have "bf_block_number x < n" if "x \<in> set (trim_front (?k - 1) ?h)" for x
    using that set_trim_front [of "?k - 1" ?h] history_below_last [OF assms(1), of x] assms(2)
    by (auto intro: le_less_trans)
  ultimately show ?thesis
    using k by (auto simp: oracle_inv_def h sorted_wrt_append length_trim_front)
      (simp_all add: store_fees_def)
qed

lemma refresh_cases:
  assumes "refresh_if_needed P (g, w) = (r, g', w')" and "oracle_inv g"
  obtains "g' = g" | n b p where "g' = store_fees n b p g" "go_last_block g < n" "r = Inr ()"
  using assms
  by (auto simp: refresh_if_needed_def io_bind_on_node not_le modify_state_def io_return_def
      split: prod.splits sum.splits if_splits)

lemma refresh_inv [inv_intros]:
  "oracle_inv g \<Longrightarrow> refresh_if_needed P (g, w) = (r, g', w') \<Longrightarrow> oracle_inv g'"
  by (erule refresh_cases) (auto intro: inv_intros)

section \<open>The median\<close>

lemma sorted_nth_below:
  fixes xs :: "'a::linorder list"
  assumes "sorted xs" "k < length xs"
  shows "length (filter (\<lambda>x. x < xs ! k) xs) \<le> k"
    and "length (filter (\<lambda>x. xs ! k < x) xs) \<le> length xs - k - 1"
proof -
  note split = id_take_nth_drop [OF assms(2)]
  have "sorted (take k xs @ xs ! k # drop (Suc k) xs)"
    by (rule subst [OF split, of sorted]) (rule assms(1))
  then have le: "\<And>x. x \<in> set (take k xs) \<Longrightarrow> x \<le> xs ! k"
    and ge: "\<And>x. x \<in> set (drop (Suc k) xs) \<Longrightarrow> xs ! k \<le> x"
    by (simp_all add: sorted_append)
  have "filter (\<lambda>x. x < xs ! k) (drop (Suc k) xs) = []"
    using ge by (auto simp: filter_empty_conv not_less)
  then have "filter (\<lambda>x. x < xs ! k) xs = filter (\<lambda>x. x < xs ! k) (take k xs)"
    using arg_cong [OF split, of "filter (\<lambda>x. x < xs ! k)"] by simp
  then show "length (filter (\<lambda>x. x < xs ! k) xs) \<le> k"
    using length_filter_le [of "\<lambda>x. x < xs ! k" "take k xs"] by simp
  have "filter (\<lambda>x. xs ! k < x) (take k xs) = []"
    using le by (auto simp: filter_empty_conv not_less)
  then have "filter (\<lambda>x. xs ! k < x) xs = filter (\<lambda>x. xs ! k < x) (drop (Suc k) xs)"
    using arg_cong [OF split, of "filter (\<lambda>x. xs ! k < x)"] by simp
  then show "length (filter (\<lambda>x. xs ! k < x) xs) \<le> length xs - k - 1"
    using length_filter_le [of "\<lambda>x. xs ! k < x" "drop (Suc k) xs"] by simp
qed

definition tips :: "gas_oracle \<Rightarrow> u128 list" where
  "tips g = map bf_priority_fee (go_fee_history g)"

lemma median_sorted_tips:
  assumes "median_priority_fee g = Some m"
  shows "tips g \<noteq> []" "m = sort (tips g) ! (length (tips g) div 2)"
    "length (tips g) div 2 < length (tips g)"
proof -
  have ne: "go_fee_history g \<noteq> []"
    using assms by (cases "go_fee_history g = []") (simp_all add: median_priority_fee_def)
  have "median_priority_fee g = Some (sort (tips g) ! (length (sort (tips g)) div 2))"
    unfolding median_priority_fee_def tips_def Let_def if_not_P [OF ne] by (rule refl)
  then show "m = sort (tips g) ! (length (tips g) div 2)" using assms by simp
  show "tips g \<noteq> []" using ne by (simp add: tips_def)
  then show "length (tips g) div 2 < length (tips g)" by (cases "tips g") simp_all
qed

lemma median_in_tips:
  assumes "median_priority_fee g = Some m"
  shows "m \<in> set (tips g)"
proof -
  have "sort (tips g) ! (length (tips g) div 2) \<in> set (sort (tips g))"
    using median_sorted_tips(3) [OF assms] by (intro nth_mem) simp
  then show ?thesis using median_sorted_tips(2) [OF assms] by simp
qed

lemma filter_sort_length: "length (filter P (sort xs)) = length (filter P xs)"
  by (metis mset_filter mset_sort size_mset)

lemma median_central:
  assumes "median_priority_fee g = Some m"
  shows "length (filter (\<lambda>t. t < m) (tips g)) \<le> length (tips g) div 2"
    and "length (filter (\<lambda>t. m < t) (tips g)) \<le> (length (tips g) - 1) div 2"
proof -
  let ?s = "sort (tips g)" and ?k = "length (tips g) div 2"
  note m = median_sorted_tips(2) [OF assms]
  have k: "?k < length ?s" using median_sorted_tips(3) [OF assms] by simp
  have "length ?s - ?k - 1 \<le> (length (tips g) - 1) div 2" by simp
  then show "length (filter (\<lambda>t. t < m) (tips g)) \<le> length (tips g) div 2"
    and "length (filter (\<lambda>t. m < t) (tips g)) \<le> (length (tips g) - 1) div 2"
    using sorted_nth_below [OF sorted_sort k] by (simp_all add: filter_sort_length m)
qed

section \<open>The contract of a fee source\<close>

text \<open>What the proposer relies on: a quoted tip never exceeds the quoted maximum fee.\<close>

locale fee_contract =
  fixes src :: "'w fee_source"
    and inv_w :: "'w \<Rightarrow> bool"
  assumes current_inv: "inv_w w \<Longrightarrow> fs_current_fees src w = (r, w') \<Longrightarrow> inv_w w'"
    and base_inv: "inv_w w \<Longrightarrow> fs_base_fee src w = (r', w') \<Longrightarrow> inv_w w'"
    and tip_le_max: "inv_w w \<Longrightarrow> fs_current_fees src w = (Inr f, w') \<Longrightarrow>
      gf_max_priority f \<le> gf_max_fee f"

text \<open>Tips below 2^127 cannot overflow the sum with a 64-bit base fee.\<close>

definition tips_below :: "'w evm_provider \<Rightarrow> bool" where
  "tips_below P \<longleftrightarrow> (\<forall>w p w'. evm_get_max_priority_fee P w = (Inr p, w') \<longrightarrow> p < 2 ^ 127)"

definition oracle_sane :: "'w evm_provider \<Rightarrow> gas_oracle \<times> 'w \<Rightarrow> bool" where
  "oracle_sane P gw \<longleftrightarrow>
     tips_below P \<and> oracle_inv (fst gw) \<and> (\<forall>t\<in>set (tips (fst gw)). t < 2 ^ 127)"

lemma unat_ucast_u64_u128 [simp]: "unat (ucast (x :: u64) :: u128) = unat x"
  by (rule unat_ucast_up) simp

lemma oracle_tip_le_max:
  assumes "\<forall>t\<in>set (tips g). t < 2 ^ 127"
  shows "gf_max_priority (oracle_fees g) \<le> gf_max_fee (oracle_fees g)"
proof -
  let ?b = "ucast (go_last_base_fee g) :: u128"
  define t where "t = (case median_priority_fee g of Some f \<Rightarrow> f | None \<Rightarrow> ?b div 10)"
  have b: "unat ?b < 2 ^ 64" using unsigned_less [of "go_last_base_fee g"] by simp
  have "unat (2 ^ 127 :: u128) = 2 ^ 127" by simp
  have "unat t < 2 ^ 127"
  proof (cases "median_priority_fee g")
    case None
    then show ?thesis using b by (simp add: t_def unat_div_distrib)
  next
    case (Some m)
    then have "m < 2 ^ 127" using assms median_in_tips [OF Some] by simp
    then show ?thesis using Some by (simp add: t_def word_less_nat_alt)
  qed
  then have "unat (?b + t) = unat ?b + unat t"
    using b by (intro unat_add_fits) simp
  then show ?thesis
    by (simp add: oracle_fees_def Let_def t_def [symmetric] word_le_nat_alt)
qed

lemma store_fees_tips:
  "0 < go_history_size g \<Longrightarrow> set (tips (store_fees n b p g)) \<subseteq> insert p (set (tips g))"
  using set_trim_front [of "go_history_size g - 1" "go_fee_history g"]
  by (auto simp: tips_def store_fees_def trim_front_snoc)

lemma refresh_sane:
  assumes "oracle_sane P (g, w)" "refresh_if_needed P (g, w) = (r, g', w')"
  shows "oracle_sane P (g', w')"
proof -
  have "oracle_inv g'" using assms refresh_inv by (auto simp: oracle_sane_def)
  moreover have "\<forall>t\<in>set (tips g'). t < 2 ^ 127"
  proof -
    have k: "0 < go_history_size g" using assms(1) by (simp add: oracle_sane_def oracle_inv_def)
    from assms show ?thesis
      using store_fees_tips [OF k]
      by (fastforce simp: refresh_if_needed_def io_bind_on_node modify_state_def io_return_def
          oracle_sane_def tips_below_def split: prod.splits sum.splits if_splits)
  qed
  ultimately show ?thesis using assms(1) by (simp add: oracle_sane_def)
qed

lemma io_bind_refresh:
  "io_bind (refresh_if_needed P) k (g, w) =
     (case refresh_if_needed P (g, w) of
        (Inl e, g', w') \<Rightarrow> (Inl e, g', w') | (Inr u, g', w') \<Rightarrow> k u (g', w'))"
  by (auto simp: io_bind_def split: prod.split sum.split)

lemma current_fees_refresh:
  "current_fees P (g, w) =
     (case refresh_if_needed P (g, w) of
        (Inl e, g', w') \<Rightarrow> (Inl e, g', w') | (Inr u, g', w') \<Rightarrow> (Inr (oracle_fees g'), g', w'))"
  by (simp add: current_fees_def io_bind_refresh io_return_def cong: sum.case_cong)

interpretation po: fee_contract "provider_gas_oracle P" "oracle_sane P" for P :: "'w evm_provider"
proof
  fix s s' :: "gas_oracle \<times> 'w" and r r' f
  obtain g w g' w' where s: "s = (g, w)" "s' = (g', w')" by (cases s, cases s')
  assume sane: "oracle_sane P s"
  show "fs_current_fees (provider_gas_oracle P) s = (r, s') \<Longrightarrow> oracle_sane P s'"
    using sane refresh_sane [of P g w]
    by (auto simp: s provider_gas_oracle_def current_fees_refresh split: prod.splits sum.splits)
  show "fs_base_fee (provider_gas_oracle P) s = (r', s') \<Longrightarrow> oracle_sane P s'"
    using sane refresh_sane [of P g w]
    by (auto simp: s provider_gas_oracle_def oracle_base_fee_def io_bind_refresh io_return_def
        on_node_def oracle_sane_def split: prod.splits sum.splits if_splits)
  show "fs_current_fees (provider_gas_oracle P) s = (Inr f, s') \<Longrightarrow> gf_max_priority f \<le> gf_max_fee f"
    using sane refresh_sane [of P g w] oracle_tip_le_max [of g']
    by (auto simp: s provider_gas_oracle_def current_fees_refresh oracle_sane_def
        split: prod.splits sum.splits)
qed

section \<open>Properties\<close>



end
