(* ===== verification/Proposer.thy ===== *)
theory Proposer
  imports Op_Pool Gas_Oracle "HOL-Library.Sublist"
begin

text \<open>
  \<open>crates/builder/src/proposer.rs\<close> and \<open>bundle.rs\<close>: building a bundle from the best
  operations of the pool, simulating it against the entry point and dropping the
  operations the entry point blames.  The bundle handler and the gas oracle are interfaces
  over the same node; the pool is read once, so it is an argument.
\<close>

section \<open>Bundles and errors\<close>

text \<open>The reason of a rejected operation is the string the entry point returned.\<close>

record rejected_op =
  rj_hash :: b256
  rj_reason :: string

record op_bundle =
  bd_ops :: "packed_uo list"
  bd_beneficiary :: address
  bd_gas_estimate :: u64
  bd_gas_fees :: gas_fees
  bd_rejected_ops :: "rejected_op list"

definition bundle_is_empty :: "op_bundle \<Rightarrow> bool" where
  "bundle_is_empty b \<longleftrightarrow> bd_ops b = []"

definition bundle_len :: "op_bundle \<Rightarrow> nat" where
  "bundle_len b = length (bd_ops b)"

datatype proposer_msg =
    AggregatorSignatureFailed address
  | HandleOpsReverted bytes

datatype proposer_error =
    ProposerProvider provider_error
  | NoOperations
  | ProposerOther proposer_msg

record 'w bundle_proposer =
  bp_make_bundle :: "operation_pool \<Rightarrow> 'w \<Rightarrow> (proposer_error + op_bundle) \<times> 'w"

record proposer =
  pp_chain_spec :: chain_spec
  pp_beneficiary :: address
  pp_max_retries :: nat

definition proposer_new :: "chain_spec \<Rightarrow> address \<Rightarrow> proposer" where
  "proposer_new cs beneficiary =
     \<lparr>pp_chain_spec = cs, pp_beneficiary = beneficiary, pp_max_retries = 3\<rparr>"

section \<open>Building a bundle\<close>

definition estimate_bundle_gas :: "proposer \<Rightarrow> pool_entry list \<Rightarrow> u64" where
  "estimate_bundle_gas c ops =
     (let per_op_gas = cs_per_user_op_v0_7_gas (pp_chain_spec c);
          intrinsic = cs_transaction_intrinsic_gas (pp_chain_spec c);
          ops_gas = sum_list (map (\<lambda>e. ucast (total_gas_limit (pe_uo e))) ops)
      in intrinsic + ops_gas + per_op_gas * of_nat (length ops))"

definition gas_with_buffer :: "u64 \<Rightarrow> u64" where
  "gas_with_buffer total_gas = total_gas + total_gas div 20"

definition packed_ops :: "pool_entry list \<Rightarrow> packed_uo list" where
  "packed_ops ops = map (\<lambda>e. pack (pe_uo e)) ops"

definition bundle_of :: "proposer \<Rightarrow> gas_fees \<Rightarrow> pool_entry list \<Rightarrow> rejected_op list \<Rightarrow> op_bundle" where
  "bundle_of c fees ops rejected =
     \<lparr>bd_ops = packed_ops ops, bd_beneficiary = pp_beneficiary c,
      bd_gas_estimate = gas_with_buffer (estimate_bundle_gas c ops),
      bd_gas_fees = fees, bd_rejected_ops = rejected\<rparr>"

text \<open>The code after the loop, reached by its two \<open>break\<close>s.\<close>

definition after_loop ::
  "proposer \<Rightarrow> gas_fees \<Rightarrow> pool_entry list \<Rightarrow> rejected_op list \<Rightarrow> proposer_error + op_bundle" where
  "after_loop c fees ops rejected =
     (if packed_ops ops = [] then Inl NoOperations else Inr (bundle_of c fees ops rejected))"

text \<open>\<open>Vec::remove\<close> at an index in bounds.\<close>

definition remove_at :: "nat \<Rightarrow> 'a list \<Rightarrow> 'a list" where
  "remove_at i xs = take i xs @ drop (Suc i) xs"

text \<open>
  The loop \<open>for attempt in 0..=max_retries\<close>; \<open>left\<close> is \<open>max_retries - attempt\<close>.
\<close>

fun propose_loop ::
  "proposer \<Rightarrow> 'w bundle_handler \<Rightarrow> gas_fees \<Rightarrow> nat \<Rightarrow> pool_entry list \<Rightarrow> rejected_op list \<Rightarrow>
   'w \<Rightarrow> (proposer_error + op_bundle) \<times> 'w" where
  "propose_loop c B fees left ops rejected w =
     (if packed_ops ops = [] then (Inl NoOperations, w)
      else
        (case bh_call_handle_ops B (packed_ops ops) (pp_beneficiary c)
                (estimate_bundle_gas c ops) fees w of
           (Inl e, w') \<Rightarrow> (Inl (ProposerProvider e), w')
         | (Inr HoSuccess, w') \<Rightarrow> (Inr (bundle_of c fees ops rejected), w')
         | (Inr (HoFailedOp idx reason), w') \<Rightarrow>
             if left = 0 then (after_loop c fees ops rejected, w')
             else if idx < length ops then
               propose_loop c B fees (left - 1) (remove_at idx ops)
                 (rejected @ [\<lparr>rj_hash = pe_hash (ops ! idx), rj_reason = reason\<rparr>]) w'
             else (after_loop c fees ops rejected, w')
         | (Inr (HoSignatureValidationFailed addr), w') \<Rightarrow>
             (Inl (ProposerOther (AggregatorSignatureFailed addr)), w')
         | (Inr (HoRevert dat), w') \<Rightarrow> (Inl (ProposerOther (HandleOpsReverted dat)), w')))"

declare propose_loop.simps [simp del]

text \<open>The candidates: the best operations whose fees cover the base fee.\<close>

definition affordable :: "proposer \<Rightarrow> u128 \<Rightarrow> pool_entry list \<Rightarrow> pool_entry list" where
  "affordable c base_fee candidates =
     filter (\<lambda>e. covers (uo_gas_fees (pe_uo e)) base_fee
        (cs_min_max_priority_fee_per_gas (pp_chain_spec c))) candidates"

definition make_bundle ::
  "proposer \<Rightarrow> 'w bundle_handler \<Rightarrow> 'w fee_source \<Rightarrow> operation_pool \<Rightarrow> 'w \<Rightarrow>
   (proposer_error + op_bundle) \<times> 'w" where
  "make_bundle c B G pool =
     io_bind (io_map_err ProposerProvider (fs_current_fees G)) (\<lambda>fees.
     io_bind (io_map_err ProposerProvider (fs_base_fee G)) (\<lambda>base_fee.
       let candidates = best_operations pool (cs_max_bundle_size (pp_chain_spec c))
       in if candidates = [] then io_fail NoOperations
          else
            (let ops = affordable c base_fee candidates
             in if ops = [] then io_fail NoOperations
                else propose_loop c B fees (pp_max_retries c) ops [])))"

definition bundle_proposer_impl ::
  "proposer \<Rightarrow> 'w bundle_handler \<Rightarrow> 'w fee_source \<Rightarrow> 'w bundle_proposer" where
  "bundle_proposer_impl c B G = \<lparr>bp_make_bundle = make_bundle c B G\<rparr>"

section \<open>The loop\<close>

lemma packed_ops_empty [simp]: "packed_ops ops = [] \<longleftrightarrow> ops = []" "[] = packed_ops ops \<longleftrightarrow> ops = []"
  by (auto simp: packed_ops_def)

lemma remove_at_subseq: "subseq (remove_at i xs) xs"
proof -
  have "subseq (drop (Suc i) xs) (drop i xs)"
    by (intro suffix_imp_subseq) (metis drop_Suc suffix_drop drop_drop plus_1_eq_Suc)
  then have "subseq (take i xs @ drop (Suc i) xs) (take i xs @ drop i xs)"
    by (rule list_emb_append_mono [OF subseq_order.refl])
  then show ?thesis by (simp add: remove_at_def)
qed

lemma remove_at_mset: "i < length xs \<Longrightarrow> mset xs = add_mset (xs ! i) (mset (remove_at i xs))"
  by (metis id_take_nth_drop mset.simps(2) mset_append remove_at_def union_mset_add_mset_right)

text \<open>
  What a bundle produced by the loop is: a subsequence of the candidates, the others
  rejected, after at most as many rejections as retries, and the outcome of the last
  simulation, which was run on exactly the operations of the bundle.
\<close>

definition loop_result ::
  "proposer \<Rightarrow> 'w bundle_handler \<Rightarrow> gas_fees \<Rightarrow> nat \<Rightarrow> pool_entry list \<Rightarrow> rejected_op list \<Rightarrow>
   op_bundle \<Rightarrow> 'w \<Rightarrow> bool" where
  "loop_result c B fees left ops rejected b w' \<longleftrightarrow>
     (\<exists>kept rej w1 r. b = bundle_of c fees kept (rejected @ rej) \<and> kept \<noteq> [] \<and> subseq kept ops \<and>
        mset (map pe_hash ops) = mset (map pe_hash kept) + mset (map rj_hash rej) \<and>
        length rej \<le> left \<and>
        bh_call_handle_ops B (packed_ops kept) (pp_beneficiary c) (estimate_bundle_gas c kept) fees w1
          = (Inr r, w') \<and>
        (r = HoSuccess \<or>
         (\<exists>idx reason. r = HoFailedOp idx reason \<and> (length rej = left \<or> length kept \<le> idx))))"

lemma propose_loop_result:
  "propose_loop c B fees left ops rejected w = (Inr b, w') \<Longrightarrow>
   loop_result c B fees left ops rejected b w'"
proof (induction c B fees left ops rejected w rule: propose_loop.induct)
  case (1 c B fees left ops rejected w)
  let ?call = "bh_call_handle_ops B (packed_ops ops) (pp_beneficiary c) (estimate_bundle_gas c ops) fees"
  note step = propose_loop.simps [of c B fees left ops rejected w]
  have ne: "ops \<noteq> []" using 1(2) step by auto
  obtain r w1 where call: "?call w = (r, w1)" by (cases "?call w")
  have stop: "loop_result c B fees left ops rejected (bundle_of c fees ops rejected) w1"
    if "r = Inr out" "out = HoSuccess \<or> (\<exists>idx reason. out = HoFailedOp idx reason \<and>
      (left = 0 \<or> length ops \<le> idx))" for out
    unfolding loop_result_def using that call ne
    by (intro exI [of _ ops] exI [of _ "[]"] exI [of _ w] exI [of _ out]) auto
  show ?case
  proof (cases "\<exists>idx reason. r = Inr (HoFailedOp idx reason) \<and> left \<noteq> 0 \<and> idx < length ops")
    case True
    then obtain idx reason where r: "r = Inr (HoFailedOp idx reason)" "left \<noteq> 0" "idx < length ops"
      by blast
    let ?rj = "\<lparr>rj_hash = pe_hash (ops ! idx), rj_reason = reason\<rparr>"
    have "propose_loop c B fees (left - 1) (remove_at idx ops) (rejected @ [?rj]) w1 = (Inr b, w')"
      using 1(2) by (simp add: step ne call r)
    then have "loop_result c B fees (left - 1) (remove_at idx ops) (rejected @ [?rj]) b w'"
      using 1(1) ne call r by simp
    then obtain kept rej w2 out where
      b: "b = bundle_of c fees kept ((rejected @ [?rj]) @ rej)" "kept \<noteq> []"
        "subseq kept (remove_at idx ops)"
        "mset (map pe_hash (remove_at idx ops)) = mset (map pe_hash kept) + mset (map rj_hash rej)"
        "length rej \<le> left - 1"
        "bh_call_handle_ops B (packed_ops kept) (pp_beneficiary c) (estimate_bundle_gas c kept) fees w2
          = (Inr out, w')"
        "out = HoSuccess \<or> (\<exists>idx reason. out = HoFailedOp idx reason \<and>
           (length rej = left - 1 \<or> length kept \<le> idx))"
      unfolding loop_result_def by blast
    have "subseq kept ops" using b(3) remove_at_subseq subseq_order.trans by blast
    moreover have "mset (map pe_hash ops) = mset (map pe_hash kept) + mset (map rj_hash (?rj # rej))"
      using b(4) remove_at_mset [OF r(3)] by simp
    ultimately show ?thesis
      unfolding loop_result_def using b r(2)
      by (intro exI [of _ kept] exI [of _ "?rj # rej"] exI [of _ w2] exI [of _ out]) auto
  next
    case False
    with 1(2) show ?thesis
      using stop ne call
      by (auto simp: step after_loop_def
          split: sum.splits handle_ops_out.splits if_splits)
  qed
qed

lemma make_bundle_loop:
  assumes "make_bundle c B G pool w = (Inr b, w')"
  obtains fees base w1 w2 where "fs_current_fees G w = (Inr fees, w1)" "fs_base_fee G w1 = (Inr base, w2)"
    "propose_loop c B fees (pp_max_retries c)
       (affordable c base (best_operations pool (cs_max_bundle_size (pp_chain_spec c)))) [] w2 = (Inr b, w')"
  using assms
  by (auto simp: make_bundle_def io_bind_def io_map_err_def io_fail_def Let_def map_sum_def
      split: prod.splits sum.splits if_splits)

lemma propose_loop_fees:
  assumes "propose_loop c B fees left ops rejected w = (Inr b, w')"
  shows "bd_gas_fees b = fees" "bd_beneficiary b = pp_beneficiary c" "bd_ops b \<noteq> []"
  using propose_loop_result [OF assms] by (auto simp: loop_result_def bundle_of_def)

text \<open>
  An entry is blamed when a simulation of operations of the pool, it among them, answers
  \<open>FailedOp\<close> with its index.
\<close>

definition blamed ::
  "proposer \<Rightarrow> 'w bundle_handler \<Rightarrow> gas_fees \<Rightarrow> operation_pool \<Rightarrow> pool_entry \<Rightarrow> string \<Rightarrow> bool" where
  "blamed c B fees pool e reason \<longleftrightarrow>
     (\<exists>ops idx w w'. set ops \<subseteq> set_mset (entries_of pool) \<and> idx < length ops \<and> ops ! idx = e \<and>
        bh_call_handle_ops B (packed_ops ops) (pp_beneficiary c) (estimate_bundle_gas c ops) fees w =
          (Inr (HoFailedOp idx reason), w'))"

lemma propose_loop_blames:
  assumes "propose_loop c B fees left ops rejected w = (Inr b, w')" "set ops \<subseteq> set_mset (entries_of pool)"
    and "r \<in> set (bd_rejected_ops b)"
  shows "r \<in> set rejected \<or> (\<exists>e\<in>#entries_of pool. pe_hash e = rj_hash r \<and> blamed c B fees pool e (rj_reason r))"
  using assms
proof (induction c B fees left ops rejected w rule: propose_loop.induct)
  case (1 c B fees left ops rejected w)
  let ?call = "bh_call_handle_ops B (packed_ops ops) (pp_beneficiary c) (estimate_bundle_gas c ops) fees"
  note step = propose_loop.simps [of c B fees left ops rejected w]
  have ne: "ops \<noteq> []" using 1(2) step by auto
  obtain a w1 where call: "?call w = (a, w1)" by (cases "?call w")
  show ?case
  proof (cases "\<exists>idx reason. a = Inr (HoFailedOp idx reason) \<and> left \<noteq> 0 \<and> idx < length ops")
    case True
    then obtain idx reason where a: "a = Inr (HoFailedOp idx reason)" "left \<noteq> 0" "idx < length ops" by blast
    let ?rj = "\<lparr>rj_hash = pe_hash (ops ! idx), rj_reason = reason\<rparr>"
    have rest: "propose_loop c B fees (left - 1) (remove_at idx ops) (rejected @ [?rj]) w1 = (Inr b, w')"
      using 1(2) by (simp add: step ne call a)
    have "set (remove_at idx ops) \<subseteq> set_mset (entries_of pool)"
      using 1(3) by (auto simp: remove_at_def dest: in_set_takeD in_set_dropD)
    then have IH: "r \<in> set (rejected @ [?rj]) \<or> (\<exists>e\<in>#entries_of pool. pe_hash e = rj_hash r \<and> blamed c B fees pool e (rj_reason r))"
      using 1(1) rest ne call a 1(4) by simp
    have "blamed c B fees pool (ops ! idx) reason" unfolding blamed_def using 1(3) a call by blast
    moreover have "ops ! idx \<in># entries_of pool" using 1(3) a(3) by (auto dest: nth_mem)
    ultimately show ?thesis using IH by auto
  next
    case False
    then have "bd_rejected_ops b = rejected"
      using 1(2) ne call
      by (auto simp: step after_loop_def bundle_of_def split: sum.splits handle_ops_out.splits if_splits)
    then show ?thesis using 1(4) by simp
  qed
qed

context fee_contract
begin

text \<open>A bundle carries the fees of the source, so its tip never exceeds its maximum.\<close>

lemma make_bundle_tip:
  assumes "inv_w w" "make_bundle c B src pool w = (Inr b, w')"
  shows "gf_max_priority (bd_gas_fees b) \<le> gf_max_fee (bd_gas_fees b)"
proof -
  from assms(2) obtain fees base w1 w2 where
    "fs_current_fees src w = (Inr fees, w1)"
    "propose_loop c B fees (pp_max_retries c)
       (affordable c base (best_operations pool (cs_max_bundle_size (pp_chain_spec c)))) [] w2 = (Inr b, w')"
    by (rule make_bundle_loop)
  then show ?thesis using tip_le_max [OF assms(1)] propose_loop_fees by metis
qed

end

section \<open>The contract of a proposer\<close>

text \<open>
  What the bundler task relies on: a proposed bundle is not empty, its operations are the
  packed operations of entries of the pool and its rejected hashes name other entries.
\<close>

definition bundle_from :: "hashing \<Rightarrow> operation_pool \<Rightarrow> op_bundle \<Rightarrow> bool" where
  "bundle_from H pool b \<longleftrightarrow>
     (\<exists>kept. bd_ops b = packed_ops kept \<and> kept \<noteq> [] \<and>
        mset (map pe_hash kept) + mset (map rj_hash (bd_rejected_ops b))
          \<subseteq># image_mset pe_hash (entries_of pool) \<and> set kept \<subseteq> set_mset (entries_of pool))"

locale proposer_contract =
  fixes bp :: "'w bundle_proposer"
    and H :: hashing
  assumes proposes: "pool_inv H pool \<Longrightarrow> bp_make_bundle bp pool w = (Inr b, w') \<Longrightarrow> bundle_from H pool b"
begin

lemma proposes_nonempty:
  "pool_inv H pool \<Longrightarrow> bp_make_bundle bp pool w = (Inr b, w') \<Longrightarrow> \<not> bundle_is_empty b"
  using proposes by (fastforce simp: bundle_from_def bundle_is_empty_def)

end

lemma best_operations_entries: "mset (best_operations pool n) \<subseteq># entries_of pool"
  by (metis append_take_drop_id best_operations_def entries_of_def mset_append mset_subset_eq_add_left)

lemma affordable_entries: "mset (affordable c base (best_operations pool n)) \<subseteq># entries_of pool"
  using best_operations_entries [of pool n] multiset_filter_subset subset_mset.order_trans
  unfolding affordable_def mset_filter by blast

lemma make_bundle_blames:
  assumes "make_bundle c B G pool w = (Inr b, w')" "r \<in> set (bd_rejected_ops b)"
  shows "\<exists>e\<in>#entries_of pool. pe_hash e = rj_hash r \<and> blamed c B (bd_gas_fees b) pool e (rj_reason r)"
proof -
  obtain fees base w1 w2 where loop: "propose_loop c B fees (pp_max_retries c)
       (affordable c base (best_operations pool (cs_max_bundle_size (pp_chain_spec c)))) [] w2 = (Inr b, w')"
    using assms(1) by (rule make_bundle_loop)
  have "set (affordable c base (best_operations pool (cs_max_bundle_size (pp_chain_spec c)))) \<subseteq> set_mset (entries_of pool)"
    using set_mset_mono [OF affordable_entries] by simp
  from propose_loop_blames [OF loop this assms(2)] propose_loop_fees(1) [OF loop] show ?thesis by simp
qed

lemma make_bundle_from:
  assumes "make_bundle c B G pool w = (Inr b, w')"
  shows "bundle_from H pool b"
proof -
  obtain fees base w1 w2 where "propose_loop c B fees (pp_max_retries c)
       (affordable c base (best_operations pool (cs_max_bundle_size (pp_chain_spec c)))) [] w2 = (Inr b, w')"
    using assms by (rule make_bundle_loop)
  from propose_loop_result [OF this]
  obtain kept rej where k: "b = bundle_of c fees kept rej" "kept \<noteq> []"
      "subseq kept (affordable c base (best_operations pool (cs_max_bundle_size (pp_chain_spec c))))"
      "mset (map pe_hash (affordable c base (best_operations pool (cs_max_bundle_size (pp_chain_spec c)))))
        = mset (map pe_hash kept) + mset (map rj_hash rej)"
    unfolding loop_result_def by auto
  note ent = affordable_entries [of c base pool "cs_max_bundle_size (pp_chain_spec c)"]
  have "mset (map pe_hash kept) + mset (map rj_hash rej) \<subseteq># image_mset pe_hash (entries_of pool)"
    using image_mset_subseteq_mono [OF ent, of pe_hash] k(4) by simp
  moreover have "set kept \<subseteq> set_mset (entries_of pool)"
    using set_mset_mono [OF ent] k(3) by (auto dest: list_emb_set)
  ultimately show ?thesis using k(1,2) by (auto simp: bundle_from_def bundle_of_def)
qed

interpretation bpi: proposer_contract "bundle_proposer_impl c B G" H for c B G H
  by unfold_locales (simp add: bundle_proposer_impl_def make_bundle_from)

section \<open>Properties\<close>

text \<open>
  Claim C11.  A proposed bundle is accounted for: its operations are, in pool order, the
  affordable candidates minus the rejected ones, which are at most as many as the retries;
  it carries the oracle's fees and the estimate of exactly its operations plus the buffer.
\<close>

theorem make_bundle_accounts:
  assumes "make_bundle c B G pool w = (Inr b, w')"
  shows "\<exists>base kept fees w1 w2. fs_current_fees G w = (Inr fees, w1) \<and> fs_base_fee G w1 = (Inr base, w2) \<and>
    (let cands = affordable c base (best_operations pool (cs_max_bundle_size (pp_chain_spec c))) in
      subseq kept cands \<and> kept \<noteq> [] \<and> bd_ops b = packed_ops kept \<and>
      mset (map pe_hash cands) = mset (map pe_hash kept) + mset (map rj_hash (bd_rejected_ops b)) \<and>
      length (bd_rejected_ops b) \<le> pp_max_retries c \<and> bd_gas_fees b = fees \<and>
      bd_gas_estimate b = gas_with_buffer (estimate_bundle_gas c kept))"
proof -
  obtain fees base w1 w2 where r: "fs_current_fees G w = (Inr fees, w1)" "fs_base_fee G w1 = (Inr base, w2)"
    "propose_loop c B fees (pp_max_retries c)
       (affordable c base (best_operations pool (cs_max_bundle_size (pp_chain_spec c)))) [] w2 = (Inr b, w')"
    using assms by (rule make_bundle_loop)
  from propose_loop_result [OF r(3)] obtain kept rej where "b = bundle_of c fees kept rej" "kept \<noteq> []"
      "subseq kept (affordable c base (best_operations pool (cs_max_bundle_size (pp_chain_spec c))))"
      "mset (map pe_hash (affordable c base (best_operations pool (cs_max_bundle_size (pp_chain_spec c)))))
        = mset (map pe_hash kept) + mset (map rj_hash rej)" "length rej \<le> pp_max_retries c"
    unfolding loop_result_def by auto
  then show ?thesis using r(1,2)
    by (intro exI [of _ base] exI [of _ kept] exI [of _ fees] exI [of _ w1] exI [of _ w2])
      (simp add: Let_def bundle_of_def)
qed

text \<open>A handler that accepts every bundle, and one that always blames the first operation.\<close>

definition happy_handler :: "'w bundle_handler" where
  "happy_handler =
     \<lparr>bh_call_handle_ops = (\<lambda>_ _ _ _. io_return HoSuccess),
      bh_build_handle_ops_tx = (\<lambda>_ _ _ _. tx_request_default)\<rparr>"

definition blaming_handler :: "string \<Rightarrow> 'w bundle_handler" where
  "blaming_handler reason =
     \<lparr>bh_call_handle_ops = (\<lambda>_ _ _ _. io_return (HoFailedOp 0 reason)),
      bh_build_handle_ops_tx = (\<lambda>_ _ _ _. tx_request_default)\<rparr>"

definition fixed_fees :: "gas_fees \<Rightarrow> u128 \<Rightarrow> 'w fee_source" where
  "fixed_fees fees base = \<lparr>fs_current_fees = io_return fees, fs_base_fee = io_return base\<rparr>"

lemma make_bundle_fixed:
  "make_bundle c B (fixed_fees fees base) pool w =
     (let cands = affordable c base (best_operations pool (cs_max_bundle_size (pp_chain_spec c)))
      in if cands = [] then (Inl NoOperations, w)
         else propose_loop c B fees (pp_max_retries c) cands [] w)"
  by (auto simp: make_bundle_def io_defs fixed_fees_def Let_def affordable_def)

abbreviation sample_proposer :: proposer where
  "sample_proposer \<equiv> proposer_new chain_spec_dev 5"

lemma sample_proposer_simps:
  "cs_max_bundle_size (pp_chain_spec sample_proposer) = 16" "pp_max_retries sample_proposer = 3"
  "cs_min_max_priority_fee_per_gas (pp_chain_spec sample_proposer) = 0"
  by (simp_all add: proposer_new_def chain_spec_dev_def)

lemma sample_candidates:
  "affordable sample_proposer 15 (best_operations sample_pool 16) \<noteq> []"
proof -
  have pool: "best_operations sample_pool 16 \<noteq> []"
    "\<forall>e\<in>set (best_operations sample_pool 16). pe_uo e \<in> {sample_uo 1 0 30 11, sample_uo 2 0 40 12}"
    by (simp_all add: sample_pool_def pool_run_def pool_eval best_operations_def)
  then have "affordable sample_proposer 15 (best_operations sample_pool 16) = best_operations sample_pool 16"
    by (auto simp: affordable_def covers_def uo_gas_fees_def sample_proposer_simps
        sample_uo_def intro!: filter_True)
  then show ?thesis using pool(1) by simp
qed

definition sample_bundle :: op_bundle where
  "sample_bundle = bundle_of sample_proposer (gas_fees_new 20 1)
     (affordable sample_proposer 15 (best_operations sample_pool 16)) []"

lemma sample_make_bundle:
  "make_bundle sample_proposer happy_handler (fixed_fees (gas_fees_new 20 1) 15) sample_pool w
     = (Inr sample_bundle, w)"
  using sample_candidates
  by (simp add: make_bundle_fixed propose_loop.simps happy_handler_def io_return_def Let_def
      sample_proposer_simps sample_bundle_def)

lemma sample_bundle_simps [simp]:
  "bd_ops sample_bundle \<noteq> []" "bd_rejected_ops sample_bundle = []"
  "bd_gas_fees sample_bundle = gas_fees_new 20 1"
  using sample_candidates by (simp_all add: sample_bundle_def bundle_of_def)

theorem make_bundle_accounts_witness:
  "\<exists>b. make_bundle sample_proposer happy_handler (fixed_fees (gas_fees_new 20 1) 15)
       sample_pool () = (Inr b, ()) \<and> bd_ops b \<noteq> [] \<and> length (bd_rejected_ops b) \<le> 3"
  using make_bundle_accounts [OF sample_make_bundle [of "()"]] sample_make_bundle [of "()"]
  by (auto simp: Let_def sample_proposer_simps)

text \<open>
  Claim C29.  The last simulation of a proposal ran on exactly the operations of the bundle.
  It succeeded, or it blamed an operation and the proposal gave up because its retries were
  used up or the index was out of range: then the bundle is returned all the same.
\<close>

theorem make_bundle_last_simulation:
  assumes "make_bundle c B G pool w = (Inr b, w')"
  shows "\<exists>gas w1 r. bh_call_handle_ops B (bd_ops b) (bd_beneficiary b) gas (bd_gas_fees b) w1 = (Inr r, w') \<and>
    bd_gas_estimate b = gas_with_buffer gas \<and>
    (r = HoSuccess \<or> (\<exists>idx reason. r = HoFailedOp idx reason \<and>
       (length (bd_rejected_ops b) = pp_max_retries c \<or> bundle_len b \<le> idx)))"
proof -
  obtain fees base w1 w2 where "propose_loop c B fees (pp_max_retries c)
       (affordable c base (best_operations pool (cs_max_bundle_size (pp_chain_spec c)))) [] w2 = (Inr b, w')"
    using assms by (rule make_bundle_loop)
  from propose_loop_result [OF this] show ?thesis
    unfolding loop_result_def by (fastforce simp: bundle_of_def bundle_len_def packed_ops_def)
qed

theorem make_bundle_last_simulation_witness:
  "\<exists>b gas. make_bundle sample_proposer happy_handler (fixed_fees (gas_fees_new 20 1) 15)
       sample_pool () = (Inr b, ()) \<and> bd_gas_estimate b = gas_with_buffer gas"
  using make_bundle_last_simulation [OF sample_make_bundle [of "()"]] sample_make_bundle [of "()"]
  by blast

lemma propose_loop_blamed:
  "propose_loop c (blaming_handler reason) fees left ops rejected w =
     (if length ops \<le> left \<or> ops = [] then (Inl NoOperations, w)
      else (Inr (bundle_of c fees (drop left ops)
        (rejected @ map (\<lambda>e. \<lparr>rj_hash = pe_hash e, rj_reason = reason\<rparr>) (take left ops))), w))"
proof (induction left arbitrary: ops rejected)
  case 0
  then show ?case
    by (simp add: propose_loop.simps blaming_handler_def io_return_def after_loop_def)
next
  case (Suc left)
  show ?case
  proof (cases ops)
    case Nil
    then show ?thesis by (simp add: propose_loop.simps)
  next
    case (Cons e es)
    then have "propose_loop c (blaming_handler reason) fees (Suc left) ops rejected w =
        propose_loop c (blaming_handler reason) fees left es
          (rejected @ [\<lparr>rj_hash = pe_hash e, rj_reason = reason\<rparr>]) w"
      by (subst propose_loop.simps) (simp add: blaming_handler_def io_return_def remove_at_def)
    then show ?thesis using Suc.IH Cons by simp
  qed
qed

text \<open>
  When the entry point blames the first operation in every simulation, up to
  \<open>max_retries\<close> candidates end in \<open>NoOperations\<close>, with the list of blamed operations lost,
  and more candidates end in a bundle of operations none of which passed a simulation.
\<close>

theorem always_blamed_outcome:
  "let cands = affordable c base (best_operations pool (cs_max_bundle_size (pp_chain_spec c)));
       r = make_bundle c (blaming_handler reason) (fixed_fees fees base) pool w
   in if length cands \<le> pp_max_retries c then r = (Inl NoOperations, w)
      else \<exists>b. r = (Inr b, w) \<and> bd_ops b = packed_ops (drop (pp_max_retries c) cands)"
  by (simp add: Let_def make_bundle_fixed propose_loop_blamed bundle_of_def)

lemma unat_gas_sum:
  assumes "(\<Sum>e\<leftarrow>ops. unat (total_gas_limit (pe_uo e))) < 2 ^ 64"
  shows "unat (\<Sum>e\<leftarrow>ops. ucast (total_gas_limit (pe_uo e)) :: u64) =
    (\<Sum>e\<leftarrow>ops. unat (total_gas_limit (pe_uo e)))"
  using assms
proof (induction ops)
  case (Cons e ops)
  let ?g = "total_gas_limit (pe_uo e)"
  have small: "unat ?g < 2 ^ 64" and rest: "(\<Sum>e\<leftarrow>ops. unat (total_gas_limit (pe_uo e))) < 2 ^ 64"
    using Cons.prems by simp_all
  have g: "unat (ucast ?g :: u64) = unat ?g"
    using small by (simp add: unsigned_ucast_eq take_bit_nat_eq_self)
  have "unat (ucast ?g + (\<Sum>e\<leftarrow>ops. ucast (total_gas_limit (pe_uo e))) :: u64) =
      unat ?g + (\<Sum>e\<leftarrow>ops. unat (total_gas_limit (pe_uo e)))"
    using Cons.prems Cons.IH [OF rest] g by (subst unat_add_fits) simp_all
  then show ?case by simp
qed simp

text \<open>
  The gas estimate is the intrinsic gas plus every operation's total limit and
  overhead, and the buffer adds a twentieth, as long as the buffered sum fits in 64 bits.
\<close>

theorem bundle_gas_exact:
  assumes "unat (cs_transaction_intrinsic_gas (pp_chain_spec c)) +
      (\<Sum>e\<leftarrow>ops. unat (total_gas_limit (pe_uo e))) +
      unat (cs_per_user_op_v0_7_gas (pp_chain_spec c)) * length ops = gas"
    and "gas + gas div 20 < 2 ^ 64"
  shows "unat (bd_gas_estimate (bundle_of c fees ops rejected)) = gas + gas div 20"
proof -
  let ?intr = "cs_transaction_intrinsic_gas (pp_chain_spec c)"
    and ?per = "cs_per_user_op_v0_7_gas (pp_chain_spec c)"
    and ?sum = "\<Sum>e\<leftarrow>ops. unat (total_gas_limit (pe_uo e))"
    and ?wsum = "\<Sum>e\<leftarrow>ops. ucast (total_gas_limit (pe_uo e)) :: u64"
  have fits: "gas < 2 ^ 64" "?sum < 2 ^ 64" "unat ?per * length ops < 2 ^ 64" using assms by linarith+
  note s = unat_gas_sum [OF fits(2)]
  have per: "unat (?per * of_nat (length ops)) = unat ?per * length ops"
  proof (cases "?per = 0")
    case False
    then have "length ops \<le> unat ?per * length ops" by (simp add: unat_gt_0 Suc_le_eq)
    then have "length ops < 2 ^ 64" using fits(3) by linarith
    then have "unat (of_nat (length ops) :: u64) = length ops"
      by (simp add: unsigned_of_nat take_bit_nat_eq_self)
    then show ?thesis using fits(3) by (subst unat_mult_fits) simp_all
  qed simp
  have "unat (?intr + ?wsum) = unat ?intr + ?sum"
    using assms(1) fits(1) s by (subst unat_add_fits) simp_all
  then have "unat (estimate_bundle_gas c ops) = gas"
    unfolding estimate_bundle_gas_def Let_def
    using assms(1) fits(1) per by (subst unat_add_fits) simp_all
  then show ?thesis
    unfolding bundle_of_def gas_with_buffer_def
    using assms(2) by (simp add: unat_add_fits unat_div_distrib)
qed

text \<open>
  Proposals over the node's own gas oracle carry a tip that does not exceed the
  maximum fee, as the entry point and the network require.
\<close>

theorem proposed_tip_le_max:
  assumes "oracle_sane P (g, w)"
    and "make_bundle c B (provider_gas_oracle P) pool (g, w) = (Inr b, w')"
  shows "gf_max_priority (bd_gas_fees b) \<le> gf_max_fee (bd_gas_fees b)"
  using assms by (rule po.make_bundle_tip)

theorem bundle_gas_exact_witness:
  "unat (bd_gas_estimate (bundle_of sample_proposer (gas_fees_new 20 1)
     [pool_entry_new sample_hashing (sample_uo 1 0 30 11) 15 0] [])) = 410025"
  using bundle_gas_exact [of sample_proposer "[pool_entry_new sample_hashing (sample_uo 1 0 30 11) 15 0]"
      390500 "gas_fees_new 20 1" "[]"]
  by (simp add: proposer_new_def chain_spec_dev_def sample_uo_def total_gas_limit_def)

theorem proposed_tip_le_max_witness:
  "\<exists>b w'. make_bundle sample_proposer happy_handler (provider_gas_oracle sample_provider)
       (pool_run sample_hashing (pool_new pool_config_default) [CmdAdd (sample_uo 1 0 200 11) 15])
       (gas_oracle_new, 3) = (Inr b, w') \<and> gf_max_priority (bd_gas_fees b) \<le> gf_max_fee (bd_gas_fees b)"
proof -
  let ?G = "provider_gas_oracle sample_provider" and ?g = "store_fees 3 100 7 gas_oracle_new"
    and ?p = "pool_run sample_hashing (pool_new pool_config_default) [CmdAdd (sample_uo 1 0 200 11) 15]"
  have sane: "oracle_sane sample_provider (gas_oracle_new, 3)"
    by (simp add: oracle_sane_def tips_below_def sample_provider_def io_return_def tips_def
        gas_oracle_new_def oracle_inv_def)
  have fees: "fs_current_fees ?G (gas_oracle_new, 3) = (Inr (oracle_fees ?g), ?g, 3)"
    by (simp add: provider_gas_oracle_def current_fees_refresh refresh_if_needed_def io_defs
        sample_provider_def gas_oracle_new_def)
  have base: "fs_base_fee ?G (?g, 3) = (Inr 100, ?g, 3)"
    by (simp add: provider_gas_oracle_def oracle_base_fee_def refresh_if_needed_def io_defs
        sample_provider_def gas_oracle_new_def store_fees_def)
  have cands: "affordable sample_proposer 100 (best_operations ?p 16) \<noteq> []"
    by (simp add: pool_run_def pool_eval best_operations_def affordable_def covers_def
        sample_proposer_simps)
  then have ne: "best_operations ?p 16 \<noteq> []" by (auto simp: affordable_def)
  obtain b w' where r: "make_bundle sample_proposer happy_handler ?G ?p (gas_oracle_new, 3) = (Inr b, w')"
    using cands ne
    by (auto simp: make_bundle_def io_bind_def io_map_err_def fees base sample_proposer_simps Let_def
        propose_loop.simps happy_handler_def io_return_def)
  then show ?thesis using proposed_tip_le_max [OF sane r] by blast
qed

section \<open>The number of simulations\<close>

text \<open>A handler that counts its simulations beside the node, and a fee source that leaves the count alone.\<close>

definition counting :: "'w bundle_handler \<Rightarrow> (nat \<times> 'w) bundle_handler" where
  "counting B =
     \<lparr>bh_call_handle_ops = (\<lambda>ops ben gas fees (n, w).
        case bh_call_handle_ops B ops ben gas fees w of (r, w') \<Rightarrow> (r, Suc n, w')),
      bh_build_handle_ops_tx = bh_build_handle_ops_tx B\<rparr>"

definition uncounted :: "'w fee_source \<Rightarrow> (nat \<times> 'w) fee_source" where
  "uncounted G = \<lparr>fs_current_fees = on_node (fs_current_fees G), fs_base_fee = on_node (fs_base_fee G)\<rparr>"

lemma counting_call:
  "bh_call_handle_ops (counting B) ops ben gas fees (n, w) =
     (case bh_call_handle_ops B ops ben gas fees w of (r, w') \<Rightarrow> (r, Suc n, w'))"
  by (simp add: counting_def)

lemma propose_loop_count:
  "propose_loop c (counting B) fees left ops rejected (n, w) = (r, n', w') \<Longrightarrow>
   n' \<le> n + left + 1 \<and> propose_loop c B fees left ops rejected w = (r, w')"
proof (induction left arbitrary: ops rejected n w)
  case 0
  then show ?case
    unfolding propose_loop.simps [of c _ fees 0] counting_call
    by (auto split: if_splits prod.splits sum.splits handle_ops_out.splits)
next
  case (Suc left)
  note step = propose_loop.simps [of c _ fees "Suc left" ops rejected]
  obtain o1 w1 where call: "bh_call_handle_ops B (packed_ops ops) (pp_beneficiary c) (estimate_bundle_gas c ops) fees w = (o1, w1)"
    by (cases "bh_call_handle_ops B (packed_ops ops) (pp_beneficiary c) (estimate_bundle_gas c ops) fees w")
  show ?case
  proof (cases "\<exists>idx reason. o1 = Inr (HoFailedOp idx reason) \<and> idx < length ops")
    case True
    then obtain idx reason where "o1 = Inr (HoFailedOp idx reason)" "idx < length ops" by blast
    moreover from this have "ops \<noteq> []" by auto
    ultimately show ?thesis
      using Suc.prems Suc.IH [of "remove_at idx ops" "rejected @ [\<lparr>rj_hash = pe_hash (ops ! idx), rj_reason = reason\<rparr>]" "Suc n" w1]
      by (simp add: step counting_call call)
  next
    case False
    then show ?thesis
      using Suc.prems
      by (auto simp: step counting_call call split: if_splits sum.splits handle_ops_out.splits)
  qed
qed

text \<open>
  Claim C34.  Building a bundle always ends, after at most \<open>max_retries + 1\<close> simulations,
  whatever the simulations answer.
\<close>

theorem simulations_bounded:
  "case make_bundle c (counting B) (uncounted G) pool (n, w) of
     (r, n', w') \<Rightarrow> n' \<le> n + pp_max_retries c + 1 \<and> make_bundle c B G pool w = (r, w')"
proof (cases "fs_current_fees G w")
  case (Pair f w1)
  note fees = Pair
  show ?thesis
  proof (cases f)
    case (Inl e)
    then show ?thesis by (simp add: make_bundle_def io_defs uncounted_def fees)
  next
    case f: (Inr fe)
    show ?thesis
    proof (cases "fs_base_fee G w1")
      case (Pair b w2)
      obtain r n' w' where loop: "propose_loop c (counting B) fe (pp_max_retries c)
          (affordable c (projr b) (best_operations pool (cs_max_bundle_size (pp_chain_spec c)))) [] (n, w2) = (r, n', w')"
        by (metis prod.collapse)
      from propose_loop_count [OF loop] loop show ?thesis
        using fees f Pair by (cases b) (auto simp: make_bundle_def io_defs uncounted_def Let_def)
    qed
  qed
qed

end
