(* ===== verification/Tracker.thy ===== *)
theory Tracker
  imports Provider_Api
begin

text \<open>
  \<open>crates/builder/src/tracker.rs\<close>: the nonce and the one pending transaction of the
  bundler's account, and the fees of a replacement.  \<open>Instant\<close> and \<open>Duration\<close> are natural
  numbers of nanoseconds on a clock that the operations reading it take as an argument.
\<close>

section \<open>State\<close>

record pending_transaction =
  pt_tx_hash :: b256
  pt_nonce :: u64
  pt_escalation_count :: u32
  pt_submitted_at :: nat
  pt_max_fee_per_gas :: u128
  pt_max_priority_fee_per_gas :: u128

datatype transaction_status = TxPending | TxMined u64 | TxDropped

datatype escalation_strategy = Linear | NetworkTracking

record escalation_config =
  ec_initial_wait :: nat
  ec_fee_bump_bps :: u32
  ec_max_attempts :: u32
  ec_strategy :: escalation_strategy
  ec_network_premium_bps :: u32

definition escalation_config_default :: escalation_config where
  "escalation_config_default =
     \<lparr>ec_initial_wait = from_secs 30, ec_fee_bump_bps = 1250, ec_max_attempts = 5,
      ec_strategy = NetworkTracking, ec_network_premium_bps = 1500\<rparr>"

record tracker =
  tk_signer_address :: address
  tk_pending :: "pending_transaction option"
  tk_current_nonce :: u64
  tk_escalation_config :: escalation_config

definition tracker_new :: "address \<Rightarrow> escalation_config \<Rightarrow> tracker" where
  "tracker_new a cfg =
     \<lparr>tk_signer_address = a, tk_pending = None, tk_current_nonce = 0, tk_escalation_config = cfg\<rparr>"

section \<open>Operations\<close>

definition tracker_initialize :: "'w evm_provider \<Rightarrow> (tracker \<times> 'w, unit) io" where
  "tracker_initialize P =
     io_bind get_state (\<lambda>t.
     io_bind (on_node (evm_get_nonce P (tk_signer_address t))) (\<lambda>n.
     modify_state (tk_current_nonce_update (\<lambda>_. n))))"

definition next_nonce :: "tracker \<Rightarrow> u64" where
  "next_nonce t = tk_current_nonce t"

definition tracker_balance :: "'w evm_provider \<Rightarrow> tracker \<Rightarrow> ('w, u256) io" where
  "tracker_balance P t = evm_get_balance P (tk_signer_address t)"

definition record_submission :: "nat \<Rightarrow> b256 \<Rightarrow> u64 \<Rightarrow> u128 \<Rightarrow> u128 \<Rightarrow> tracker \<Rightarrow> tracker" where
  "record_submission now tx_hash nonce max_fee max_priority t =
     t\<lparr>tk_pending := Some
         \<lparr>pt_tx_hash = tx_hash, pt_nonce = nonce, pt_escalation_count = 0, pt_submitted_at = now,
          pt_max_fee_per_gas = max_fee, pt_max_priority_fee_per_gas = max_priority\<rparr>\<rparr>"

definition check_pending :: "'w evm_provider \<Rightarrow> (tracker \<times> 'w, transaction_status option) io" where
  "check_pending P =
     io_bind get_state (\<lambda>t.
       case tk_pending t of
         None \<Rightarrow> io_return None
       | Some pending \<Rightarrow>
           io_bind (on_node (evm_get_transaction_receipt P (pt_tx_hash pending))) (\<lambda>receipt.
             case receipt of
               Some rc \<Rightarrow>
                 io_bind (modify_state (\<lambda>t. t\<lparr>tk_current_nonce := pt_nonce pending + 1, tk_pending := None\<rparr>))
                   (\<lambda>_. io_return (Some (TxMined (unwrap_or (tr_block_number rc) 0))))
             | None \<Rightarrow>
                 io_bind (on_node (evm_get_nonce P (tk_signer_address t))) (\<lambda>chain_nonce.
                   if pt_nonce pending < chain_nonce then
                     io_bind (modify_state (\<lambda>t. t\<lparr>tk_current_nonce := chain_nonce, tk_pending := None\<rparr>))
                       (\<lambda>_. io_return (Some TxDropped))
                   else io_return (Some TxPending))))"

definition needs_escalation :: "nat \<Rightarrow> tracker \<Rightarrow> bool" where
  "needs_escalation now t =
     (case tk_pending t of
        Some p \<Rightarrow>
          ec_initial_wait (tk_escalation_config t) \<le> now - pt_submitted_at p \<and>
          pt_escalation_count p < ec_max_attempts (tk_escalation_config t)
      | None \<Rightarrow> False)"

definition escalated_fees_network ::
  "'w evm_provider \<Rightarrow> tracker \<Rightarrow> 'w \<Rightarrow> (u128 \<times> u128) option \<times> 'w" where
  "escalated_fees_network P t w =
     (case tk_pending t of
        None \<Rightarrow> (None, w)
      | Some pending \<Rightarrow>
          (case evm_get_base_fee P w of
             (Inl _, w1) \<Rightarrow> (None, w1)
           | (Inr base_fee, w1) \<Rightarrow>
               (case evm_get_max_priority_fee P w1 of
                  (Inl _, w2) \<Rightarrow> (None, w2)
                | (Inr priority_fee, w2) \<Rightarrow>
                    (let cfg = tk_escalation_config t;
                         market_max_fee = mul_bps (base_fee + priority_fee) (ec_network_premium_bps cfg);
                         market_priority = mul_bps priority_fee (ec_network_premium_bps cfg);
                         min_max_fee = mul_bps (pt_max_fee_per_gas pending) (ec_fee_bump_bps cfg);
                         min_priority = mul_bps (pt_max_priority_fee_per_gas pending) (ec_fee_bump_bps cfg)
                     in (Some (max market_max_fee min_max_fee, max market_priority min_priority), w2)))))"

definition escalated_fees :: "'w evm_provider \<Rightarrow> tracker \<Rightarrow> 'w \<Rightarrow> (u128 \<times> u128) option \<times> 'w" where
  "escalated_fees P t w =
     (case tk_pending t of
        None \<Rightarrow> (None, w)
      | Some pending \<Rightarrow>
          (let cfg = tk_escalation_config t
           in if ec_max_attempts cfg \<le> pt_escalation_count pending then (None, w)
              else
                (case ec_strategy cfg of
                   Linear \<Rightarrow>
                     (Some (mul_bps (pt_max_fee_per_gas pending) (ec_fee_bump_bps cfg),
                            mul_bps (pt_max_priority_fee_per_gas pending) (ec_fee_bump_bps cfg)), w)
                 | NetworkTracking \<Rightarrow> escalated_fees_network P t w)))"

definition record_escalation :: "b256 \<Rightarrow> u128 \<Rightarrow> u128 \<Rightarrow> tracker \<Rightarrow> tracker" where
  "record_escalation new_tx_hash new_max_fee new_priority_fee t =
     (case tk_pending t of
        None \<Rightarrow> t
      | Some p \<Rightarrow>
          t\<lparr>tk_pending := Some
              (p\<lparr>pt_tx_hash := new_tx_hash, pt_max_fee_per_gas := new_max_fee,
                 pt_max_priority_fee_per_gas := new_priority_fee,
                 pt_escalation_count := pt_escalation_count p + 1\<rparr>)\<rparr>)"

definition clear_pending :: "tracker \<Rightarrow> tracker" where
  "clear_pending t = t\<lparr>tk_pending := None\<rparr>"

definition has_pending :: "tracker \<Rightarrow> bool" where
  "has_pending t \<longleftrightarrow> tk_pending t \<noteq> None"

section \<open>Facts about the tracker\<close>

lemma next_nonce_simps [simp]:
  "next_nonce (record_submission now h n f p t) = next_nonce t"
  "next_nonce (record_escalation h f p t) = next_nonce t"
  "next_nonce (clear_pending t) = next_nonce t"
  by (simp_all add: next_nonce_def record_submission_def record_escalation_def clear_pending_def
      split: option.split)

lemma tracker_config_simps [simp]:
  "tk_escalation_config (record_submission now h n f p t) = tk_escalation_config t"
  "tk_escalation_config (record_escalation h f p t) = tk_escalation_config t"
  "tk_escalation_config (clear_pending t) = tk_escalation_config t"
  by (simp_all add: record_submission_def record_escalation_def clear_pending_def split: option.split)

text \<open>The outcomes of a poll.\<close>

lemma check_pending_cases:
  assumes "check_pending P (t, w) = (r, t', w')"
  obtains (none) "tk_pending t = None" "r = Inr None" "t' = t"
  | (err) e where "tk_pending t \<noteq> None" "r = Inl e" "t' = t"
  | (still) p where "tk_pending t = Some p" "r = Inr (Some TxPending)" "t' = t"
  | (mined) p n where "tk_pending t = Some p" "r = Inr (Some (TxMined n))"
      "t' = t\<lparr>tk_current_nonce := pt_nonce p + 1, tk_pending := None\<rparr>"
  | (dropped) p n where "tk_pending t = Some p" "r = Inr (Some TxDropped)" "pt_nonce p < n"
      "t' = t\<lparr>tk_current_nonce := n, tk_pending := None\<rparr>"
proof (cases "tk_pending t")
  case None
  then show thesis using assms by (intro none) (simp_all add: check_pending_def io_return_def)
next
  case (Some p)
  obtain r1 w1 where rc: "evm_get_transaction_receipt P (pt_tx_hash p) w = (r1, w1)"
    by (cases "evm_get_transaction_receipt P (pt_tx_hash p) w")
  obtain r2 w2 where nc: "evm_get_nonce P (tk_signer_address t) w1 = (r2, w2)"
    by (cases "evm_get_nonce P (tk_signer_address t) w1")
  have run: "(r, t', w') =
     (case r1 of Inl e \<Rightarrow> (Inl e, t, w1)
      | Inr (Some rcpt) \<Rightarrow> (Inr (Some (TxMined (unwrap_or (tr_block_number rcpt) 0))),
          t\<lparr>tk_current_nonce := pt_nonce p + 1, tk_pending := None\<rparr>, w1)
      | Inr None \<Rightarrow>
         (case r2 of Inl e \<Rightarrow> (Inl e, t, w2)
          | Inr n \<Rightarrow> if pt_nonce p < n
              then (Inr (Some TxDropped), t\<lparr>tk_current_nonce := n, tk_pending := None\<rparr>, w2)
              else (Inr (Some TxPending), t, w2)))"
    using assms
    by (cases r1; cases "projr r1"; cases r2)
      (simp_all add: check_pending_def Some io_bind_on_node rc nc io_return_def split: if_splits)
  show thesis
  proof (cases r1)
    case (Inl e)
    show thesis by (rule err [of e]) (use run Some Inl in simp_all)
  next
    case (Inr ro)
    show thesis
    proof (cases ro)
      case (Some rcpt)
      show thesis
        by (rule mined [of p "unwrap_or (tr_block_number rcpt) 0"])
          (use run Inr Some \<open>tk_pending t = Some p\<close> in simp_all)
    next
      case None
      show thesis
      proof (cases r2)
        case (Inl e)
        show thesis by (rule err [of e]) (use run Inr None Inl \<open>tk_pending t = Some p\<close> in simp_all)
      next
        case r2: (Inr n)
        show thesis
        proof (cases "pt_nonce p < n")
          case True
          show thesis by (rule dropped [of p n]) (use run Inr None r2 True \<open>tk_pending t = Some p\<close> in simp_all)
        next
          case False
          show thesis by (rule still [of p]) (use run Inr None r2 False \<open>tk_pending t = Some p\<close> in simp_all)
        qed
      qed
    qed
  qed
qed

lemma escalated_fees_Some:
  assumes "escalated_fees P t w = (Some (f, q), w')"
  obtains p where "tk_pending t = Some p" "pt_escalation_count p < ec_max_attempts (tk_escalation_config t)"
    "mul_bps (pt_max_fee_per_gas p) (ec_fee_bump_bps (tk_escalation_config t)) \<le> f"
    "mul_bps (pt_max_priority_fee_per_gas p) (ec_fee_bump_bps (tk_escalation_config t)) \<le> q"
  using assms
  by (auto simp: escalated_fees_def escalated_fees_network_def Let_def not_le
      split: option.splits if_splits escalation_strategy.splits prod.splits sum.splits)

text \<open>When attempts are left, there are no fees only because the node did not answer.\<close>

lemma escalated_fees_None:
  assumes "tk_pending t = Some p" "pt_escalation_count p < ec_max_attempts (tk_escalation_config t)"
  shows "fst (escalated_fees P t w) = None \<longleftrightarrow>
    ec_strategy (tk_escalation_config t) = NetworkTracking \<and>
    (\<exists>e w1. evm_get_base_fee P w = (Inl e, w1) \<or>
       (\<exists>b. evm_get_base_fee P w = (Inr b, w1) \<and> (\<exists>w2. evm_get_max_priority_fee P w1 = (Inl e, w2))))"
  using assms
  by (auto simp: escalated_fees_def escalated_fees_network_def Let_def not_le
      split: escalation_strategy.splits prod.splits sum.splits)

text \<open>Neither the fees nor the clock of a tracker without a pending transaction matter.\<close>

lemma no_pending_no_escalation:
  "tk_pending t = None \<Longrightarrow> \<not> needs_escalation now t \<and> escalated_fees P t w = (None, w)"
  by (simp add: needs_escalation_def escalated_fees_def)

section \<open>Properties\<close>

text \<open>
  Under either strategy a replacement raises both fees of the pending
  transaction by at least the configured bump (rounded down), so the network accepts it
  as a replacement, as long as the old fees times the bumped 10000 fit in 128 bits.
\<close>

theorem escalation_bumps:
  assumes "escalated_fees P t w = (Some (f, q), w')" "tk_pending t = Some p"
    and "bps = unat (ec_fee_bump_bps (tk_escalation_config t))"
    and "unat (pt_max_fee_per_gas p) * (10000 + bps) < 2 ^ 128"
    and "unat (pt_max_priority_fee_per_gas p) * (10000 + bps) < 2 ^ 128"
  shows "unat (pt_max_fee_per_gas p) * (10000 + bps) div 10000 \<le> unat f \<and>
    unat (pt_max_priority_fee_per_gas p) * (10000 + bps) div 10000 \<le> unat q"
  using assms(1)
proof (rule escalated_fees_Some)
  fix p' assume "tk_pending t = Some p'"
    and le: "mul_bps (pt_max_fee_per_gas p') (ec_fee_bump_bps (tk_escalation_config t)) \<le> f"
      "mul_bps (pt_max_priority_fee_per_gas p') (ec_fee_bump_bps (tk_escalation_config t)) \<le> q"
  then have "p' = p" using assms(2) by simp
  then show ?thesis
    using le assms(3-5) unat_mul_bps by (simp add: word_le_nat_alt)
qed

theorem escalation_bumps_witness:
  "unat (800 :: u128) * (10000 + 1250) div 10000 \<le> unat (900 :: u128)"
proof -
  let ?t = "record_submission 0 1 0 800 80
    (tracker_new 7 (escalation_config_default\<lparr>ec_strategy := Linear\<rparr>))"
  have fees: "escalated_fees sample_provider ?t 0 = (Some (900, 90), 0)"
    by (simp add: escalated_fees_def record_submission_def tracker_new_def
        escalation_config_default_def mul_bps_def)
  obtain p where p: "tk_pending ?t = Some p" "pt_max_fee_per_gas p = 800"
      "pt_max_priority_fee_per_gas p = 80"
    by (simp add: record_submission_def)
  have "unat (ec_fee_bump_bps (tk_escalation_config ?t)) = 1250"
    by (simp add: tracker_new_def escalation_config_default_def)
  then show ?thesis
    using escalation_bumps [OF fees p(1), of 1250] p by simp
qed

end
