(* ===== verification/Signer.thy ===== *)
theory Signer
  imports Provider_Api
begin

text \<open>
  The signer crate: the \<open>BundlerSigner\<close> interface (\<open>lib.rs\<close>), the local key signer
  (\<open>local.rs\<close>) and the round-robin manager (\<open>manager.rs\<close>).  The elliptic-curve signer,
  the signature hash and the transaction encoding are library code: they are the record
  \<open>key_library\<close>.
\<close>

section \<open>The interface and the local signer\<close>

record 'w bundler_signer =
  sg_address :: address
  sg_sign_transaction :: "tx_request \<Rightarrow> u64 \<Rightarrow> 'w \<Rightarrow> (signer_error + bytes) \<times> 'w"

record tx_eip1559 =
  tx_chain_id :: u64
  tx_nonce :: u64
  tx_gas_limit :: u64
  tx_max_fee_per_gas :: u128
  tx_max_priority_fee_per_gas :: u128
  tx_to :: tx_kind
  tx_value :: u256
  tx_input :: bytes

record key_library =
  kl_address :: address
  kl_signature_hash :: "tx_eip1559 \<Rightarrow> b256"
  kl_sign_hash :: "b256 \<Rightarrow> string + bytes"
  kl_encode_signed :: "tx_eip1559 \<Rightarrow> bytes \<Rightarrow> bytes"

definition eip1559_of :: "tx_request \<Rightarrow> u64 \<Rightarrow> tx_eip1559" where
  "eip1559_of tx chain_id =
     \<lparr>tx_chain_id = chain_id,
      tx_nonce = unwrap_or (tq_nonce tx) 0,
      tx_gas_limit = unwrap_or (tq_gas tx) 0,
      tx_max_fee_per_gas = unwrap_or (tq_max_fee_per_gas tx) 0,
      tx_max_priority_fee_per_gas = unwrap_or (tq_max_priority_fee_per_gas tx) 0,
      tx_to = unwrap_or (tq_to tx) Create,
      tx_value = unwrap_or (tq_value tx) 0,
      tx_input = unwrap_or (tq_input tx) []\<rparr>"

definition local_sign :: "key_library \<Rightarrow> tx_request \<Rightarrow> u64 \<Rightarrow> signer_error + bytes" where
  "local_sign K tx chain_id =
     (let eip1559_tx = eip1559_of tx chain_id;
          sig_hash = kl_signature_hash K eip1559_tx
      in case kl_sign_hash K sig_hash of
           Inl e \<Rightarrow> Inl (SigningFailed e)
         | Inr sig \<Rightarrow> Inr (kl_encode_signed K eip1559_tx sig))"

definition local_signer :: "key_library \<Rightarrow> 'w bundler_signer" where
  "local_signer K =
     \<lparr>sg_address = kl_address K,
      sg_sign_transaction = (\<lambda>tx chain_id w. (local_sign K tx chain_id, w))\<rparr>"

section \<open>The manager\<close>

text \<open>\<open>next_index\<close> is an \<open>AtomicUsize\<close>; \<open>fetch_add\<close> wraps at 2^64.\<close>

record 'w signer_manager =
  sm_signers :: "'w bundler_signer list"
  sm_next_index :: u64

definition manager_new :: "'w bundler_signer list \<Rightarrow> 'w signer_manager" where
  "manager_new signers = \<lparr>sm_signers = signers, sm_next_index = 0\<rparr>"

definition manager_single :: "'w bundler_signer \<Rightarrow> 'w signer_manager" where
  "manager_single s = manager_new [s]"

definition manager_count :: "'w signer_manager \<Rightarrow> nat" where
  "manager_count m = length (sm_signers m)"

definition manager_addresses :: "'w signer_manager \<Rightarrow> address list" where
  "manager_addresses m = map sg_address (sm_signers m)"

record 'w signer_lease =
  sl_signer :: "'w bundler_signer"
  sl_index :: nat

text \<open>The remainder panics when there is no signer.\<close>

definition acquire :: "'w signer_manager \<Rightarrow> 'w signer_lease run \<times> 'w signer_manager" where
  "acquire m =
     (let old = sm_next_index m; m' = m\<lparr>sm_next_index := old + 1\<rparr>
      in if length (sm_signers m) = 0 then (Panics, m')
         else (let idx = unat old mod length (sm_signers m)
               in (Returns \<lparr>sl_signer = sm_signers m ! idx, sl_index = idx\<rparr>, m')))"

definition manager_get :: "'w signer_manager \<Rightarrow> nat \<Rightarrow> 'w bundler_signer option" where
  "manager_get m i = (if i < length (sm_signers m) then Some (sm_signers m ! i) else None)"

definition manager_get_by_address :: "'w signer_manager \<Rightarrow> address \<Rightarrow> 'w bundler_signer option" where
  "manager_get_by_address m a = find (\<lambda>s. sg_address s = a) (sm_signers m)"

definition lease_address :: "'w signer_lease \<Rightarrow> address" where
  "lease_address l = sg_address (sl_signer l)"

definition lease_sign :: "'w signer_lease \<Rightarrow> tx_request \<Rightarrow> u64 \<Rightarrow> 'w \<Rightarrow> (signer_error + bytes) \<times> 'w" where
  "lease_sign l = sg_sign_transaction (sl_signer l)"

section \<open>Fairness\<close>

text \<open>The lease indices of a run of acquisitions.\<close>

fun acquire_indices :: "nat \<Rightarrow> 'w signer_manager \<Rightarrow> nat list" where
  "acquire_indices 0 m = []"
| "acquire_indices (Suc k) m =
     (case acquire m of
        (Returns l, m') \<Rightarrow> sl_index l # acquire_indices k m'
      | (Panics, m') \<Rightarrow> [])"

lemma acquire_indices_eq:
  assumes "sm_signers m \<noteq> []" "unat (sm_next_index m) + k \<le> 2 ^ 64"
  shows "acquire_indices k m =
    map (\<lambda>i. i mod length (sm_signers m)) [unat (sm_next_index m)..<unat (sm_next_index m) + k]"
  using assms
proof (induction k arbitrary: m)
  case (Suc k)
  let ?m' = "m\<lparr>sm_next_index := sm_next_index m + 1\<rparr>"
  let ?n = "unat (sm_next_index m)"
  have split: "[?n..<?n + Suc k] = ?n # [Suc ?n..<Suc ?n + k]" by (simp add: upt_conv_Cons)
  show ?case
  proof (cases "k = 0")
    case True
    then show ?thesis using Suc.prems by (simp add: acquire_def Let_def)
  next
    case False
    then have "sm_next_index m \<noteq> - 1" using Suc.prems(2) by (auto simp: unat_max_word)
    then have n': "unat (sm_next_index ?m') = Suc ?n" by (simp add: unat_inc)
    have "acquire_indices k ?m' = map (\<lambda>i. i mod length (sm_signers m)) [Suc ?n..<Suc ?n + k]"
      using Suc.IH [of ?m'] Suc.prems n' by simp
    then show ?thesis using Suc.prems unfolding split by (simp add: acquire_def Let_def)
  qed
qed simp

lemma count_list_distinct: "distinct xs \<Longrightarrow> x \<in> set xs \<Longrightarrow> count_list xs x = 1"
  by (induction xs) (auto simp: count_list_0_iff)

lemma count_mod_window:
  assumes "j < n"
  shows "count_list (map (\<lambda>i. i mod n) [a..<a + n]) j = 1"
proof (induction a)
  case 0
  have "map (\<lambda>i. i mod n) [0..<n] = [0..<n]" by (intro nth_equalityI) simp_all
  then show ?case using assms by (simp add: count_list_distinct)
next
  case (Suc a)
  have n: "0 < n" using assms by simp
  have "count_list (map (\<lambda>i. i mod n) (a # [Suc a..<Suc a + n])) j =
      count_list (map (\<lambda>i. i mod n) ([a..<a + n] @ [a + n])) j"
    using n by (simp add: upt_conv_Cons)
  then show ?case using Suc by (simp split: if_splits)
qed

lemma count_mod_windows:
  assumes "j < n"
  shows "count_list (map (\<lambda>i. i mod n) [a..<a + k * n]) j = k"
proof (induction k)
  case (Suc k)
  have "[a..<a + Suc k * n] = [a..<a + k * n] @ [a + k * n..<(a + k * n) + n]"
    using upt_add_eq_append [of a "a + k * n" n] by (simp add: algebra_simps)
  then show ?case
    using Suc count_mod_window [OF assms, of "a + k * n"] by simp
qed simp

text \<open>
  Round-robin is fair: as long as the counter does not wrap, any \<open>k * n\<close>
  consecutive acquisitions from \<open>n\<close> signers lease every signer exactly \<open>k\<close> times.
\<close>

theorem acquire_fair:
  assumes "j < manager_count m" "unat (sm_next_index m) + k * manager_count m \<le> 2 ^ 64"
  shows "count_list (acquire_indices (k * manager_count m) m) j = k"
proof -
  have ne: "sm_signers m \<noteq> []" using assms(1) by (auto simp: manager_count_def)
  show ?thesis
    using acquire_indices_eq [OF ne] assms count_mod_windows by (simp add: manager_count_def)
qed

theorem acquire_fair_witness:
  "\<forall>s t. count_list (acquire_indices (3 * 2) (manager_new [s, t :: unit bundler_signer])) 1 = 3"
  using acquire_fair [of 1 "manager_new [s, t :: unit bundler_signer]" 3 for s t]
  by (simp add: manager_count_def manager_new_def)

end
