(* ===== verification/Strategy.thy ===== *)
theory Strategy
  imports Provider_Api Hash_Map "HOL-Library.Sublist"
begin

text \<open>
  \<open>crates/builder/src/sender.rs\<close> and \<open>strategy/\<close>: how a signed transaction reaches the
  node.  A strategy is a record of functions that may panic (\<open>todo!\<close>, an index out of
  bounds); \<open>strategy_contract\<close> is what a client relies on, and it is interpreted on the
  direct strategy and on the router over contract-abiding strategies.
\<close>

section \<open>The interface\<close>

type_synonym expected_storage = "(address, (b256, b256) hmap) hmap"

record submission_context =
  sc_expected_storage :: "expected_storage option"
  sc_chain_id :: u64

datatype cancel_outcome = Cancelled | AlreadyMined | CancelFailed string

datatype submit_error = Retryable string | StrategyFailed string | Terminal string

record 'w strategy =
  st_name :: string
  st_submit :: "bytes \<Rightarrow> submission_context \<Rightarrow> 'w \<Rightarrow> (submit_error + b256) run \<times> 'w"
  st_cancel :: "b256 \<Rightarrow> bytes option \<Rightarrow> 'w \<Rightarrow> (submit_error + cancel_outcome) run \<times> 'w"
  st_supports_soft_cancel :: "'w \<Rightarrow> bool run"

section \<open>The direct strategy\<close>

text \<open>\<open>str::contains\<close>\<close>

fun contains :: "string \<Rightarrow> string \<Rightarrow> bool" where
  "contains s p \<longleftrightarrow> prefix p s \<or> (case s of [] \<Rightarrow> False | _ # s' \<Rightarrow> contains s' p)"

declare contains.simps [simp del]

definition classify_submit :: "string \<Rightarrow> submit_error" where
  "classify_submit msg =
     (if contains msg ''nonce too low'' \<or> contains msg ''already known'' \<or>
         contains msg ''replacement transaction underpriced''
      then Retryable msg else StrategyFailed msg)"

definition direct_submit :: "'w evm_provider \<Rightarrow> bytes \<Rightarrow> 'w \<Rightarrow> (submit_error + b256) \<times> 'w" where
  "direct_submit P raw_tx =
     io_map_err (\<lambda>e. classify_submit (display_provider_error e)) (evm_send_raw_transaction P raw_tx)"

definition direct_cancel ::
  "'w evm_provider \<Rightarrow> b256 \<Rightarrow> bytes option \<Rightarrow> 'w \<Rightarrow> (submit_error + cancel_outcome) \<times> 'w" where
  "direct_cancel P tx_hash cancel_tx w =
     (case cancel_tx of
        None \<Rightarrow> (Inr (CancelFailed ''no cancel transaction provided''), w)
      | Some raw_cancel_tx \<Rightarrow>
          (case evm_send_raw_transaction P raw_cancel_tx w of
             (Inr _, w') \<Rightarrow> (Inr Cancelled, w')
           | (Inl e, w') \<Rightarrow>
               (let msg = display_provider_error e
                in if contains msg ''nonce too low'' \<or> contains msg ''already known''
                   then (Inr AlreadyMined, w') else (Inl (StrategyFailed msg), w'))))"

definition returning :: "('w \<Rightarrow> 'a \<times> 'w) \<Rightarrow> 'w \<Rightarrow> 'a run \<times> 'w" where
  "returning c w = (case c w of (r, w') \<Rightarrow> (Returns r, w'))"

definition direct_strategy :: "'w evm_provider \<Rightarrow> 'w strategy" where
  "direct_strategy P =
     \<lparr>st_name = ''direct'',
      st_submit = (\<lambda>raw_tx ctx. returning (direct_submit P raw_tx)),
      st_cancel = (\<lambda>tx_hash cancel_tx. returning (direct_cancel P tx_hash cancel_tx)),
      st_supports_soft_cancel = (\<lambda>_. Returns False)\<rparr>"

section \<open>The conditional strategy\<close>

text \<open>\<open>submit\<close> and \<open>cancel\<close> are \<open>todo!()\<close>; the private \<open>submit_direct\<close> is written but unused.\<close>

record 'w conditional =
  cn_provider :: "'w evm_provider"
  cn_max_slots :: nat

definition conditional_new :: "'w evm_provider \<Rightarrow> 'w conditional" where
  "conditional_new P = \<lparr>cn_provider = P, cn_max_slots = 1000\<rparr>"

definition with_max_slots :: "nat \<Rightarrow> 'w conditional \<Rightarrow> 'w conditional" where
  "with_max_slots n c = c\<lparr>cn_max_slots := n\<rparr>"

definition conditional_strategy :: "'w conditional \<Rightarrow> 'w strategy" where
  "conditional_strategy c =
     \<lparr>st_name = ''conditional'',
      st_submit = (\<lambda>_ _ w. (Panics, w)),
      st_cancel = (\<lambda>_ _ w. (Panics, w)),
      st_supports_soft_cancel = (\<lambda>_. Returns False)\<rparr>"

definition classify_conditional :: "string \<Rightarrow> submit_error" where
  "classify_conditional msg =
     (if contains msg ''nonce too low'' \<or> contains msg ''already known'' \<or>
         contains msg ''replacement transaction underpriced''
      then Retryable msg
      else if contains msg ''conditional''
      then Retryable (''conditional check failed: '' @ msg)
      else StrategyFailed msg)"

definition conditional_submit_direct ::
  "'w conditional \<Rightarrow> bytes \<Rightarrow> 'w \<Rightarrow> (submit_error + b256) \<times> 'w" where
  "conditional_submit_direct c raw_tx =
     io_map_err (\<lambda>e. classify_conditional (display_provider_error e))
       (evm_send_raw_transaction (cn_provider c) raw_tx)"

section \<open>The router\<close>

text \<open>
  The router's own state is the index of its primary strategy; it runs on pairs of that
  index and the node.  The first argument of \<open>router_try\<close> is what is left of the range of
  offsets.
\<close>

fun router_try ::
  "nat list \<Rightarrow> 'w strategy list \<Rightarrow> bytes \<Rightarrow> submission_context \<Rightarrow> nat \<Rightarrow> nat \<times> 'w \<Rightarrow>
   (submit_error + b256) run \<times> nat \<times> 'w" where
  "router_try [] ss raw_tx ctx primary_index pw =
     (Returns (Inl (StrategyFailed ''all strategies exhausted'')), pw)"
| "router_try (offset # offsets) ss raw_tx ctx primary_index (primary, w) =
     (let idx = (primary_index + offset) mod length ss
      in case st_submit (ss ! idx) raw_tx ctx w of
           (Returns (Inr h), w') \<Rightarrow>
             (Returns (Inr h), if 0 < offset then idx else primary, w')
         | (Returns (Inl (Retryable msg)), w') \<Rightarrow> (Returns (Inl (Retryable msg)), primary, w')
         | (Returns (Inl (Terminal msg)), w') \<Rightarrow> (Returns (Inl (Terminal msg)), primary, w')
         | (Returns (Inl (StrategyFailed msg)), w') \<Rightarrow>
             router_try offsets ss raw_tx ctx primary_index (primary, w')
         | (Panics, w') \<Rightarrow> (Panics, primary, w'))"

definition router_submit ::
  "'w strategy list \<Rightarrow> bytes \<Rightarrow> submission_context \<Rightarrow> nat \<times> 'w \<Rightarrow> (submit_error + b256) run \<times> nat \<times> 'w" where
  "router_submit ss raw_tx ctx pw =
     router_try [0..<length ss] ss raw_tx ctx (fst pw) pw"

definition router_cancel ::
  "'w strategy list \<Rightarrow> b256 \<Rightarrow> bytes option \<Rightarrow> nat \<times> 'w \<Rightarrow>
   (submit_error + cancel_outcome) run \<times> nat \<times> 'w" where
  "router_cancel ss tx_hash cancel_tx pw =
     (if fst pw < length ss then
        (case st_cancel (ss ! fst pw) tx_hash cancel_tx (snd pw) of (r, w') \<Rightarrow> (r, fst pw, w'))
      else (Panics, pw))"

definition router_supports_soft_cancel :: "'w strategy list \<Rightarrow> nat \<times> 'w \<Rightarrow> bool run" where
  "router_supports_soft_cancel ss pw =
     (if fst pw < length ss then st_supports_soft_cancel (ss ! fst pw) (snd pw) else Panics)"

definition reset_primary :: "nat \<times> 'w \<Rightarrow> nat \<times> 'w" where
  "reset_primary pw = (0, snd pw)"

definition router_new :: "'w \<Rightarrow> nat \<times> 'w" where
  "router_new w = (0, w)"

definition router_strategy :: "'w strategy list \<Rightarrow> (nat \<times> 'w) strategy" where
  "router_strategy ss =
     \<lparr>st_name = ''router'', st_submit = router_submit ss, st_cancel = router_cancel ss,
      st_supports_soft_cancel = router_supports_soft_cancel ss\<rparr>"

section \<open>The contract of a strategy\<close>

locale strategy_contract =
  fixes st :: "'w strategy"
    and inv_w :: "'w \<Rightarrow> bool"
  assumes submit_returns: "inv_w w \<Longrightarrow> st_submit st raw ctx w = (r, w') \<Longrightarrow> r \<noteq> Panics \<and> inv_w w'"
    and cancel_returns: "inv_w w \<Longrightarrow> st_cancel st h tx w = (r', w') \<Longrightarrow> r' \<noteq> Panics \<and> inv_w w'"

interpretation ds: strategy_contract "direct_strategy P" "\<lambda>_. True" for P
  by unfold_locales (auto simp: direct_strategy_def returning_def split: prod.splits)

definition router_ok :: "'w strategy list \<Rightarrow> ('w \<Rightarrow> bool) \<Rightarrow> nat \<times> 'w \<Rightarrow> bool" where
  "router_ok ss inv_w pw \<longleftrightarrow>
     fst pw < length ss \<and> inv_w (snd pw) \<and> (\<forall>s\<in>set ss. strategy_contract s inv_w)"

lemma router_try_ok:
  assumes "router_ok ss inv_w (p, w)" "router_try offsets ss raw ctx k (p, w) = (r, p', w')"
  shows "r \<noteq> Panics \<and> router_ok ss inv_w (p', w')"
  using assms
proof (induction offsets arbitrary: w)
  case Nil
  then show ?case by auto
next
  case (Cons off offs)
  let ?i = "(k + off) mod length ss"
  have i: "?i < length ss" using Cons.prems(1) by (auto simp: router_ok_def intro!: mod_less_divisor)
  then have C: "strategy_contract (ss ! ?i) inv_w" and w: "inv_w w"
    using Cons.prems(1) by (simp_all add: router_ok_def)
  obtain s w1 where sub: "st_submit (ss ! ?i) raw ctx w = (s, w1)" by (cases "st_submit (ss ! ?i) raw ctx w")
  have ok: "s \<noteq> Panics" "inv_w w1" using strategy_contract.submit_returns [OF C w sub] by simp_all
  then have ok1: "router_ok ss inv_w (p, w1)" and oki: "router_ok ss inv_w (?i, w1)"
    using Cons.prems(1) i by (simp_all add: router_ok_def)
  show ?case
    using Cons.IH [OF ok1] Cons.prems(2) ok ok1 oki
    by (cases "0 < off") (auto simp: Let_def sub split: run.splits sum.splits submit_error.splits)
qed

interpretation rs: strategy_contract "router_strategy ss" "router_ok ss inv_w" for ss inv_w
proof
  fix pw pw' raw ctx r r' h tx
  assume ok: "router_ok ss inv_w pw"
  show "st_submit (router_strategy ss) raw ctx pw = (r, pw') \<Longrightarrow> r \<noteq> Panics \<and> router_ok ss inv_w pw'"
    using ok router_try_ok [of ss inv_w "fst pw" "snd pw" _ raw ctx "fst pw" r "fst pw'" "snd pw'"]
    by (simp add: router_strategy_def router_submit_def)
  show "st_cancel (router_strategy ss) h tx pw = (r', pw') \<Longrightarrow> r' \<noteq> Panics \<and> router_ok ss inv_w pw'"
    using ok strategy_contract.cancel_returns [of "ss ! fst pw" inv_w "snd pw" h tx r']
    by (auto simp: router_strategy_def router_cancel_def router_ok_def split: prod.splits if_splits)
qed

section \<open>Failover\<close>

text \<open>\<open>fails_to ss raw ctx p k w w'\<close>: the \<open>k\<close> strategies from \<open>p\<close> on all fail in turn.\<close>

inductive fails_to ::
  "'w strategy list \<Rightarrow> bytes \<Rightarrow> submission_context \<Rightarrow> nat \<Rightarrow> nat \<Rightarrow> 'w \<Rightarrow> 'w \<Rightarrow> bool"
  for ss raw ctx p where
  fails_none: "fails_to ss raw ctx p 0 w w"
| fails_next: "fails_to ss raw ctx p k w w1 \<Longrightarrow>
    st_submit (ss ! ((p + k) mod length ss)) raw ctx w1 = (Returns (Inl (StrategyFailed msg)), w2) \<Longrightarrow>
    fails_to ss raw ctx p (Suc k) w w2"

lemma router_try_first:
  assumes "router_try [k..<n] ss raw ctx p0 (p, w1) = (r, p', w')" "k \<le> n"
    and "fails_to ss raw ctx p0 k w w1"
  shows "fails_to ss raw ctx p0 n w w' \<and>
       r = Returns (Inl (StrategyFailed ''all strategies exhausted'')) \<and> p' = p \<or>
     (\<exists>j<n. \<exists>w2. fails_to ss raw ctx p0 j w w2 \<and>
       st_submit (ss ! ((p0 + j) mod length ss)) raw ctx w2 = (r, w') \<and>
       (\<forall>msg. r \<noteq> Returns (Inl (StrategyFailed msg))) \<and>
       p' = (if 0 < j \<and> (\<exists>h. r = Returns (Inr h)) then (p0 + j) mod length ss else p))"
  using assms
proof (induction "n - k" arbitrary: k w1)
  case 0
  then have "k = n" by simp
  then show ?case using 0 by simp
next
  case (Suc d)
  then have k: "k < n" by simp
  let ?i = "(p0 + k) mod length ss"
  obtain s w2 where sub: "st_submit (ss ! ?i) raw ctx w1 = (s, w2)" by (cases "st_submit (ss ! ?i) raw ctx w1")
  have run: "router_try (k # [Suc k..<n]) ss raw ctx p0 (p, w1) = (r, p', w')"
    using Suc.prems(1) k by (simp add: upt_conv_Cons)
  show ?case
  proof (cases "\<exists>msg. s = Returns (Inl (StrategyFailed msg))")
    case True
    then obtain msg where s: "s = Returns (Inl (StrategyFailed msg))" by blast
    have f: "fails_to ss raw ctx p0 (Suc k) w w2"
      using Suc.prems(3) sub s by (auto intro: fails_to.fails_next)
    have "router_try [Suc k..<n] ss raw ctx p0 (p, w2) = (r, p', w')"
      using run by (simp add: Let_def sub s)
    from Suc.hyps(1) [OF _ this _ f] show ?thesis using Suc.hyps(2) k by simp
  next
    case False
    then have "r = s \<and> w' = w2 \<and> p' = (if 0 < k \<and> (\<exists>h. r = Returns (Inr h)) then ?i else p)"
      using run by (auto simp: Let_def sub split: run.splits sum.splits submit_error.splits)
    then show ?thesis using k Suc.prems(3) sub False by blast
  qed
qed

section \<open>The messages\<close>

lemma contains_iff: "contains s p \<longleftrightarrow> (\<exists>xs ys. s = xs @ p @ ys)"
proof (induction s)
  case Nil
  then show ?case by (simp add: contains.simps [of "[]"])
next
  case (Cons c s)
  have "prefix p (c # s) \<longleftrightarrow> (\<exists>ys. c # s = [] @ p @ ys)" by (auto simp: prefix_def)
  moreover have "(\<exists>xs ys. s = xs @ p @ ys) \<longleftrightarrow> (\<exists>xs ys. c # s = (c # xs) @ p @ ys)" by simp
  ultimately show ?case
    using Cons by (simp add: contains.simps [of "c # s"]) (metis append_eq_Cons_conv append_Cons append_Nil)
qed

lemma contains_Cons: "contains (c # s) p \<longleftrightarrow> prefix p (c # s) \<or> contains s p"
  by (simp add: contains.simps [of "c # s"])

text \<open>The text of a transport error matches a phrase exactly when the node's message does.\<close>

lemma contains_transport:
  "contains (display_provider_error (Transport m)) ''nonce too low'' \<longleftrightarrow> contains m ''nonce too low''"
  "contains (display_provider_error (Transport m)) ''already known'' \<longleftrightarrow> contains m ''already known''"
  "contains (display_provider_error (Transport m)) ''replacement transaction underpriced'' \<longleftrightarrow>
     contains m ''replacement transaction underpriced''"
  by (simp_all add: contains_Cons)

lemma direct_submit_transport:
  assumes "evm_send_raw_transaction P raw w = (Inl (Transport m), w')"
  shows "\<exists>msg. direct_submit P raw w = (Inl msg, w') \<and>
    ((\<exists>t. msg = Retryable t) \<longleftrightarrow> contains m ''nonce too low'' \<or> contains m ''already known'' \<or>
       contains m ''replacement transaction underpriced'')"
  using assms
  by (simp add: direct_submit_def io_map_err_def classify_submit_def contains_transport
      del: display_provider_error.simps)

section \<open>Properties\<close>

text \<open>
  Claim C33.  The router tries the strategies in rotation from its primary: either all fail
  and it reports exhaustion, or the first strategy that does not fail decides the result,
  and the primary moves exactly when that strategy succeeded and was not the first tried.
\<close>

theorem router_failover:
  assumes "router_submit ss raw ctx (p, w) = (r, p', w')"
  shows "fails_to ss raw ctx p (length ss) w w' \<and>
       r = Returns (Inl (StrategyFailed ''all strategies exhausted'')) \<and> p' = p \<or>
     (\<exists>j<length ss. \<exists>w2. fails_to ss raw ctx p j w w2 \<and>
       st_submit (ss ! ((p + j) mod length ss)) raw ctx w2 = (r, w') \<and>
       (\<forall>msg. r \<noteq> Returns (Inl (StrategyFailed msg))) \<and>
       p' = (if 0 < j \<and> (\<exists>h. r = Returns (Inr h)) then (p + j) mod length ss else p))"
  by (rule router_try_first [of 0, OF _ _ fails_to.fails_none])
    (use assms in \<open>simp_all add: router_submit_def\<close>)

definition failing_strategy :: "'w strategy" where
  "failing_strategy =
     \<lparr>st_name = ''fail'',
      st_submit = (\<lambda>_ _ w. (Returns (Inl (StrategyFailed ''always fails'')), w)),
      st_cancel = (\<lambda>_ _ w. (Returns (Inl (StrategyFailed ''always fails'')), w)),
      st_supports_soft_cancel = (\<lambda>_. Returns False)\<rparr>"

theorem router_failover_witness:
  "router_submit [failing_strategy, direct_strategy sample_provider] [1, 2]
       \<lparr>sc_expected_storage = None, sc_chain_id = 1\<rparr> (0, 5) = (Returns (Inr 2), 1, 5) \<and>
     (\<exists>j<2. \<exists>w. st_submit ([failing_strategy, direct_strategy sample_provider] ! (j mod 2)) [1, 2]
        \<lparr>sc_expected_storage = None, sc_chain_id = 1\<rparr> w = (Returns (Inr 2), 5))"
proof
  let ?ss = "[failing_strategy, direct_strategy sample_provider]"
    and ?ctx = "\<lparr>sc_expected_storage = None, sc_chain_id = 1\<rparr>"
  show run: "router_submit ?ss [1, 2] ?ctx (0, 5) = (Returns (Inr 2), 1, 5)"
    by (simp add: router_submit_def upt_conv_Cons failing_strategy_def direct_strategy_def
        returning_def direct_submit_def sample_provider_def io_defs)
  obtain j w2 where "j < length ?ss" "st_submit (?ss ! ((0 + j) mod length ?ss)) [1, 2] ?ctx w2 = (Returns (Inr 2), 5)"
    using router_failover [OF run] by blast
  moreover have "length ?ss = 2" by simp
  ultimately show "\<exists>j<2. \<exists>w. st_submit (?ss ! (j mod 2)) [1, 2] ?ctx w = (Returns (Inr 2), 5)"
    unfolding add_0 by metis
qed

text \<open>
  A router over direct strategies never panics, whatever the node answers, and
  keeps its primary in range.
\<close>

theorem router_over_direct_total:
  assumes "Ps \<noteq> []" "p < length Ps"
  shows "fst (router_submit (map direct_strategy Ps) raw ctx (p, w)) \<noteq> Panics \<and>
    fst (router_cancel (map direct_strategy Ps) h tx (p, w)) \<noteq> Panics \<and>
    fst (snd (router_submit (map direct_strategy Ps) raw ctx (p, w))) < length Ps"
proof -
  let ?ss = "map direct_strategy Ps"
  have ok: "router_ok ?ss (\<lambda>_. True) (p, w)"
    using assms by (auto simp: router_ok_def ds.strategy_contract_axioms)
  obtain r pw' where s: "router_submit ?ss raw ctx (p, w) = (r, pw')"
    by (cases "router_submit ?ss raw ctx (p, w)")
  obtain r' pw'' where c: "router_cancel ?ss h tx (p, w) = (r', pw'')"
    by (cases "router_cancel ?ss h tx (p, w)")
  show ?thesis
    using rs.submit_returns [OF ok, of raw ctx r pw'] rs.cancel_returns [OF ok, of h tx r' pw''] s c
    by (simp add: router_strategy_def) (simp add: router_ok_def)
qed

theorem router_over_direct_total_witness:
  "fst (router_cancel (map direct_strategy [sample_provider, sample_provider]) 7 None (1, 0)) \<noteq> Panics"
  using router_over_direct_total [of "[sample_provider, sample_provider]" 1 "[]"
      "\<lparr>sc_expected_storage = None, sc_chain_id = 1\<rparr>" 0 7 None] by simp

end
