(* ===== verification/Bundler_Task.thy ===== *)
theory Bundler_Task
  imports Proposer Tracker Signer Strategy
begin

text \<open>
  \<open>crates/builder/src/task.rs\<close> and the state enum of \<open>lib.rs\<close>: the bundle sender as a
  state machine.  A step runs one handler.  The pool is shared with the RPC server: what
  the server does to it while a handler awaits the node is the function \<open>env\<close>, and what it
  does between two steps is a rule of the reachability relation.
\<close>

section \<open>State\<close>

datatype bundle_sender_state =
    Idle | Building | Submitting | Pending | Escalating | Cancelling | Confirming | Confirmed
  | Abandoned

record task =
  ts_tracker :: tracker
  ts_state :: bundle_sender_state
  ts_current_bundle :: "op_bundle option"
  ts_idle_interval :: nat
  ts_pending_poll_interval :: nat
  ts_confirmation_depth :: u64
  ts_mined_block :: "u64 option"

text \<open>
  The parts the task is generic over, and the ABI encoder of \<open>handleOps\<close> that the build
  generates from the contract bindings.
\<close>

record 'w task_env =
  te_proposer :: "'w bundle_proposer"
  te_signer :: "'w bundler_signer"
  te_strategy :: "'w strategy"
  te_provider :: "'w evm_provider"
  te_chain_spec :: chain_spec
  te_hashing :: hashing
  te_encode_handle_ops :: "packed_uo list \<Rightarrow> address \<Rightarrow> bytes"

type_synonym 'w sys = "task \<times> operation_pool \<times> 'w"

definition from_millis :: "nat \<Rightarrow> nat" where
  "from_millis ms = ms * 1000000"

definition task_new :: "'w task_env \<Rightarrow> task" where
  "task_new E =
     \<lparr>ts_tracker = tracker_new (sg_address (te_signer E)) escalation_config_default,
      ts_state = Idle, ts_current_bundle = None,
      ts_idle_interval = from_millis (unat (cs_bundle_max_send_interval_millis (te_chain_spec E))),
      ts_pending_poll_interval = from_secs 2, ts_confirmation_depth = 3, ts_mined_block = None\<rparr>"

section \<open>Transactions and the pool\<close>

definition build_bundle_tx :: "'w task_env \<Rightarrow> op_bundle \<Rightarrow> u64 \<Rightarrow> tx_request" where
  "build_bundle_tx E b nonce =
     tx_request_default
       \<lparr>tq_to := Some (Call (cs_entry_point_v0_7 (te_chain_spec E))),
        tq_nonce := Some nonce,
        tq_gas := Some (bd_gas_estimate b),
        tq_max_fee_per_gas := Some (gf_max_fee (bd_gas_fees b)),
        tq_max_priority_fee_per_gas := Some (gf_max_priority (bd_gas_fees b)),
        tq_input := Some (te_encode_handle_ops E (bd_ops b) (bd_beneficiary b))\<rparr>"

definition remove_rejected :: "rejected_op list \<Rightarrow> operation_pool \<Rightarrow> operation_pool" where
  "remove_rejected rejected p = foldl (\<lambda>p r. snd (remove_by_hash (rj_hash r) p)) p rejected"

definition packed_id :: "'w task_env \<Rightarrow> packed_uo \<Rightarrow> user_operation_id" where
  "packed_id E packed_op =
     uo_id (unpack (te_hashing E) packed_op (cs_entry_point_v0_7 (te_chain_spec E))
       (cs_id (te_chain_spec E)))"

definition remove_bundled_ops :: "'w task_env \<Rightarrow> task \<Rightarrow> operation_pool \<Rightarrow> operation_pool" where
  "remove_bundled_ops E t p =
     (case ts_current_bundle t of
        None \<Rightarrow> p
      | Some b \<Rightarrow> foldl (\<lambda>p packed_op. snd (remove_by_id (packed_id E packed_op) p)) p (bd_ops b))"

definition submit_ctx :: "'w task_env \<Rightarrow> submission_context" where
  "submit_ctx E = \<lparr>sc_expected_storage = None, sc_chain_id = cs_id (te_chain_spec E)\<rparr>"

section \<open>The handlers\<close>

definition handle_idle :: "'w sys \<Rightarrow> bundle_sender_state run \<times> 'w sys" where
  "handle_idle = (\<lambda>(t, p, w).
     (Returns (if pool_size p = 0 then Idle else Building), t, p, w))"

definition handle_building ::
  "'w task_env \<Rightarrow> (operation_pool \<Rightarrow> operation_pool) \<Rightarrow> 'w sys \<Rightarrow> bundle_sender_state run \<times> 'w sys" where
  "handle_building E env = (\<lambda>(t, p, w).
     case bp_make_bundle (te_proposer E) p w of
       (Inl NoOperations, w1) \<Rightarrow> (Returns Idle, t, env p, w1)
     | (Inl e, w1) \<Rightarrow> (Returns Idle, t, env p, w1)
     | (Inr b, w1) \<Rightarrow>
         if bundle_is_empty b then (Returns Idle, t, env p, w1)
         else (Returns Submitting, t\<lparr>ts_current_bundle := Some b\<rparr>,
               remove_rejected (bd_rejected_ops b) (env p), w1))"

definition handle_submitting :: "'w task_env \<Rightarrow> nat \<Rightarrow> 'w sys \<Rightarrow> bundle_sender_state run \<times> 'w sys" where
  "handle_submitting E now = (\<lambda>(t, p, w).
     case ts_current_bundle t of
       None \<Rightarrow> (Returns Idle, t, p, w)
     | Some b \<Rightarrow>
         (let nonce = next_nonce (ts_tracker t);
              tx = build_bundle_tx E b nonce
          in case sg_sign_transaction (te_signer E) tx (cs_id (te_chain_spec E)) w of
               (Inl e, w1) \<Rightarrow> (Returns Abandoned, t, p, w1)
             | (Inr signed_tx, w1) \<Rightarrow>
                 (case st_submit (te_strategy E) signed_tx (submit_ctx E) w1 of
                    (Panics, w2) \<Rightarrow> (Panics, t, p, w2)
                  | (Returns (Inl e), w2) \<Rightarrow> (Returns Abandoned, t, p, w2)
                  | (Returns (Inr tx_hash), w2) \<Rightarrow>
                      (Returns Pending,
                       t\<lparr>ts_tracker := record_submission now tx_hash nonce (gf_max_fee (bd_gas_fees b))
                           (gf_max_priority (bd_gas_fees b)) (ts_tracker t)\<rparr>, p, w2))))"

definition handle_pending ::
  "'w task_env \<Rightarrow> (operation_pool \<Rightarrow> operation_pool) \<Rightarrow> nat \<Rightarrow> 'w sys \<Rightarrow> bundle_sender_state run \<times> 'w sys" where
  "handle_pending E env now = (\<lambda>(t, p, w).
     case check_pending (te_provider E) (ts_tracker t, w) of
       (r, tracker', w1) \<Rightarrow>
         (let t1 = t\<lparr>ts_tracker := tracker'\<rparr> in
          case r of
            Inr (Some (TxMined block_number)) \<Rightarrow>
              (let t2 = t1\<lparr>ts_mined_block := Some block_number\<rparr>
               in (Returns Confirming, t2, remove_bundled_ops E t2 (env p), w1))
          | Inr (Some TxDropped) \<Rightarrow> (Returns Abandoned, t1, env p, w1)
          | Inr (Some TxPending) \<Rightarrow>
              (Returns (if needs_escalation now (ts_tracker t1) then Escalating else Pending), t1, env p, w1)
          | Inr None \<Rightarrow> (Returns Idle, t1, env p, w1)
          | Inl e \<Rightarrow> (Returns Pending, t1, env p, w1)))"

definition escalation_tx :: "'w task_env \<Rightarrow> task \<Rightarrow> op_bundle \<Rightarrow> u128 \<Rightarrow> u128 \<Rightarrow> tx_request" where
  "escalation_tx E t b new_max_fee new_priority_fee =
     (let nonce = saturating_sub (next_nonce (ts_tracker t)) 1
      in (build_bundle_tx E b nonce)
           \<lparr>tq_max_fee_per_gas := Some new_max_fee, tq_max_priority_fee_per_gas := Some new_priority_fee\<rparr>)"

definition handle_escalating :: "'w task_env \<Rightarrow> 'w sys \<Rightarrow> bundle_sender_state run \<times> 'w sys" where
  "handle_escalating E = (\<lambda>(t, p, w).
     case escalated_fees (te_provider E) (ts_tracker t) w of
       (None, w1) \<Rightarrow> (Returns Abandoned, t\<lparr>ts_tracker := clear_pending (ts_tracker t)\<rparr>, p, w1)
     | (Some (new_max_fee, new_priority_fee), w1) \<Rightarrow>
         (case ts_current_bundle t of
            None \<Rightarrow> (Returns Abandoned, t\<lparr>ts_tracker := clear_pending (ts_tracker t)\<rparr>, p, w1)
          | Some b \<Rightarrow>
              (case sg_sign_transaction (te_signer E) (escalation_tx E t b new_max_fee new_priority_fee)
                      (cs_id (te_chain_spec E)) w1 of
                 (Inl e, w2) \<Rightarrow> (Returns Pending, t, p, w2)
               | (Inr signed_tx, w2) \<Rightarrow>
                   (case st_submit (te_strategy E) signed_tx (submit_ctx E) w2 of
                      (Panics, w3) \<Rightarrow> (Panics, t, p, w3)
                    | (Returns (Inl e), w3) \<Rightarrow> (Returns Pending, t, p, w3)
                    | (Returns (Inr new_tx_hash), w3) \<Rightarrow>
                        (Returns Pending,
                         t\<lparr>ts_tracker := record_escalation new_tx_hash new_max_fee new_priority_fee
                             (ts_tracker t)\<rparr>, p, w3)))))"

definition cancel_tx :: "'w task_env \<Rightarrow> pending_transaction \<Rightarrow> tx_request" where
  "cancel_tx E pending =
     tx_request_default
       \<lparr>tq_to := Some (Call (sg_address (te_signer E))),
        tq_nonce := Some (pt_nonce pending),
        tq_value := Some 0,
        tq_gas := Some 21000,
        tq_max_fee_per_gas := Some (pt_max_fee_per_gas pending * 2),
        tq_max_priority_fee_per_gas := Some (pt_max_priority_fee_per_gas pending * 2)\<rparr>"

definition handle_cancelling :: "'w task_env \<Rightarrow> 'w sys \<Rightarrow> bundle_sender_state run \<times> 'w sys" where
  "handle_cancelling E = (\<lambda>(t, p, w).
     case tk_pending (ts_tracker t) of
       None \<Rightarrow> (Returns Idle, t, p, w)
     | Some pending \<Rightarrow>
         (let t1 = t\<lparr>ts_tracker := clear_pending (ts_tracker t)\<rparr>
          in case sg_sign_transaction (te_signer E) (cancel_tx E pending) (cs_id (te_chain_spec E)) w of
               (Inl e, w1) \<Rightarrow> (Returns Abandoned, t1, p, w1)
             | (Inr raw, w1) \<Rightarrow>
                 (case st_cancel (te_strategy E) (pt_tx_hash pending) (Some raw) w1 of
                    (Panics, w2) \<Rightarrow> (Panics, t, p, w2)
                  | (Returns _, w2) \<Rightarrow> (Returns Abandoned, t1, p, w2))))"

definition handle_confirming :: "'w task_env \<Rightarrow> 'w sys \<Rightarrow> bundle_sender_state run \<times> 'w sys" where
  "handle_confirming E = (\<lambda>(t, p, w).
     case ts_mined_block t of
       None \<Rightarrow> (Returns Confirmed, t, p, w)
     | Some mined_at \<Rightarrow>
         (case evm_get_block_number (te_provider E) w of
            (Inl e, w1) \<Rightarrow> (Returns Confirming, t, p, w1)
          | (Inr current_block, w1) \<Rightarrow>
              (let confirmations = saturating_sub current_block mined_at
               in (Returns (if ts_confirmation_depth t \<le> confirmations then Confirmed else Confirming),
                   t, p, w1))))"

definition handle :: "'w task_env \<Rightarrow> (operation_pool \<Rightarrow> operation_pool) \<Rightarrow> nat \<Rightarrow> 'w sys \<Rightarrow>
    bundle_sender_state run \<times> 'w sys" where
  "handle E env now s =
     (case ts_state (fst s) of
        Idle \<Rightarrow> handle_idle s
      | Building \<Rightarrow> handle_building E env s
      | Submitting \<Rightarrow> handle_submitting E now s
      | Pending \<Rightarrow> handle_pending E env now s
      | Escalating \<Rightarrow> handle_escalating E s
      | Cancelling \<Rightarrow> handle_cancelling E s
      | Confirming \<Rightarrow> handle_confirming E s
      | Confirmed \<Rightarrow> (case s of (t, pw) \<Rightarrow>
          (Returns Idle, t\<lparr>ts_current_bundle := None, ts_mined_block := None\<rparr>, pw))
      | Abandoned \<Rightarrow> (case s of (t, pw) \<Rightarrow>
          (Returns Idle, t\<lparr>ts_current_bundle := None, ts_mined_block := None\<rparr>, pw)))"

definition task_step :: "'w task_env \<Rightarrow> (operation_pool \<Rightarrow> operation_pool) \<Rightarrow> nat \<Rightarrow> 'w sys \<Rightarrow> 'w sys run" where
  "task_step E env now s =
     (case handle E env now s of
        (Panics, _) \<Rightarrow> Panics
      | (Returns next_state, t, pw) \<Rightarrow> Returns (t\<lparr>ts_state := next_state\<rparr>, pw))"

text \<open>The sleep before the next step.\<close>

definition task_tick :: "task \<Rightarrow> nat" where
  "task_tick t =
     (case ts_state t of
        Idle \<Rightarrow> ts_idle_interval t
      | Pending \<Rightarrow> ts_pending_poll_interval t
      | Confirming \<Rightarrow> ts_pending_poll_interval t
      | _ \<Rightarrow> from_millis 10)"

text \<open>
  \<open>run\<close>: the tracker is initialised first, and the task ends when that fails; then steps
  follow one another until shutdown.  Between two steps the rest of the program and the
  node may do anything that keeps the pool consistent.  So this machine assumes of its
  environment that the pool it finds is consistent, and shows that the task keeps it so;
  \<open>Program\<close> runs the task with the server as its environment, where nothing is assumed.
\<close>

definition task_start :: "'w task_env \<Rightarrow> operation_pool \<Rightarrow> 'w \<Rightarrow> (provider_error + unit) \<times> 'w sys" where
  "task_start E p w =
     (let t = task_new E in
      case tracker_initialize (te_provider E) (ts_tracker t, w) of
        (r, tracker', w1) \<Rightarrow> (r, t\<lparr>ts_tracker := tracker'\<rparr>, p, w1))"

inductive reaches :: "'w task_env \<Rightarrow> 'w sys \<Rightarrow> bool" for E where
  started: "pool_inv (te_hashing E) p \<Longrightarrow> task_start E p w = (Inr (), s) \<Longrightarrow> reaches E s"
| stepped: "reaches E s \<Longrightarrow> (\<And>p. pool_inv (te_hashing E) p \<Longrightarrow> pool_inv (te_hashing E) (env p)) \<Longrightarrow>
    task_step E env now s = Returns s' \<Longrightarrow> reaches E s'"
| outside: "reaches E (t, p, w) \<Longrightarrow> pool_inv (te_hashing E) p' \<Longrightarrow> reaches E (t, p', w')"

inductive_cases reachesE: "reaches E s"

section \<open>The invariant of the machine\<close>

text \<open>
  One transaction is in flight exactly in \<open>Pending\<close> and \<open>Escalating\<close>, it uses the current
  nonce, it belongs to a non-empty bundle, and an escalation starts with attempts left.
\<close>

definition in_flight :: "bundle_sender_state \<Rightarrow> bool" where
  "in_flight s \<longleftrightarrow> s = Pending \<or> s = Escalating"

definition flight_ok :: "task \<Rightarrow> bool" where
  "flight_ok t \<longleftrightarrow>
     (case tk_pending (ts_tracker t) of
        None \<Rightarrow> \<not> in_flight (ts_state t)
      | Some q \<Rightarrow> in_flight (ts_state t) \<and> pt_nonce q = next_nonce (ts_tracker t) \<and>
          pt_escalation_count q \<le> ec_max_attempts (tk_escalation_config (ts_tracker t)) \<and>
          (ts_state t = Escalating \<longrightarrow>
             pt_escalation_count q < ec_max_attempts (tk_escalation_config (ts_tracker t))))"

definition bundle_ok :: "task \<Rightarrow> bool" where
  "bundle_ok t \<longleftrightarrow>
     (case ts_current_bundle t of
        None \<Rightarrow> ts_state t = Idle \<or> ts_state t = Building
      | Some b \<Rightarrow> bd_ops b \<noteq> [] \<and> ts_state t \<noteq> Idle \<and> ts_state t \<noteq> Building)"

definition task_inv :: "task \<Rightarrow> bool" where
  "task_inv t \<longleftrightarrow>
     ts_state t \<noteq> Cancelling \<and> flight_ok t \<and> bundle_ok t \<and>
     (ts_mined_block t = None \<longleftrightarrow> ts_state t \<noteq> Confirming \<and> ts_state t \<noteq> Confirmed)"

lemmas task_inv_defs = task_inv_def flight_ok_def bundle_ok_def in_flight_def

lemma task_start_inv:
  assumes "task_start E p w = (r, t, p', w')"
  shows "task_inv t" "p' = p"
  using assms
  by (auto simp: task_start_def Let_def task_inv_defs task_new_def tracker_initialize_def tracker_new_def
      io_bind_on_node modify_state_def split: prod.splits sum.splits)

lemma task_start_bundle: "task_start E p w = (r, t, p', w') \<Longrightarrow> ts_current_bundle t = None"
  by (auto simp: task_start_def Let_def task_new_def split: prod.splits)

text \<open>Every handler keeps the invariant, for the state it decides on.\<close>

abbreviation enters :: "bundle_sender_state run \<times> 'w sys \<Rightarrow> bool" where
  "enters r \<equiv> (\<forall>s. fst r = Returns s \<longrightarrow> task_inv ((fst (snd r))\<lparr>ts_state := s\<rparr>))"

lemma handle_building_inv:
  "task_inv t \<Longrightarrow> ts_state t = Building \<Longrightarrow> enters (handle_building E env (t, p, w))"
  by (auto simp: handle_building_def task_inv_defs bundle_is_empty_def
      split: prod.splits sum.splits proposer_error.splits option.splits)

lemma handle_submitting_inv:
  "task_inv t \<Longrightarrow> ts_state t = Submitting \<Longrightarrow> enters (handle_submitting E now (t, p, w))"
  by (auto simp: handle_submitting_def task_inv_defs record_submission_def next_nonce_def Let_def
      split: prod.splits sum.splits run.splits option.splits)

lemma handle_pending_inv:
  assumes "task_inv t" "ts_state t = Pending"
  shows "enters (handle_pending E env now (t, p, w))"
proof -
  obtain r k w1 where poll: "check_pending (te_provider E) (ts_tracker t, w) = (r, k, w1)"
    by (cases "check_pending (te_provider E) (ts_tracker t, w)")
  show ?thesis
    using poll
  proof (cases rule: check_pending_cases)
    case none
    then show ?thesis using assms by (simp add: task_inv_defs)
  next
    case (err e)
    then show ?thesis using assms poll
      by (auto simp: handle_pending_def task_inv_defs Let_def split: option.splits)
  next
    case (still q)
    then show ?thesis using assms poll
      by (auto simp: handle_pending_def task_inv_defs Let_def needs_escalation_def split: option.splits)
  next
    case (mined q n)
    then show ?thesis using assms poll
      by (auto simp: handle_pending_def task_inv_defs Let_def split: option.splits)
  next
    case (dropped q n)
    then show ?thesis using assms poll
      by (auto simp: handle_pending_def task_inv_defs Let_def split: option.splits)
  qed
qed

lemma count_inc_le: "(c :: u32) < m \<Longrightarrow> c + 1 \<le> m"
proof -
  assume less: "c < m"
  then have "c \<noteq> - 1" by (metis word_order.extremum_strict)
  then show ?thesis using less by (simp add: word_le_nat_alt word_less_nat_alt unat_inc)
qed

lemma handle_escalating_inv:
  assumes "task_inv t" "ts_state t = Escalating"
  shows "enters (handle_escalating E (t, p, w))"
  using assms
  by (auto simp: handle_escalating_def task_inv_defs clear_pending_def record_escalation_def next_nonce_def
      count_inc_le less_imp_le split: prod.splits sum.splits run.splits option.splits)

lemma handle_confirming_inv:
  "task_inv t \<Longrightarrow> ts_state t = Confirming \<Longrightarrow> enters (handle_confirming E (t, p, w))"
  by (auto simp: handle_confirming_def task_inv_defs Let_def
      split: prod.splits sum.splits option.splits)

lemma handle_idle_inv: "task_inv t \<Longrightarrow> ts_state t = Idle \<Longrightarrow> enters (handle_idle (t, p, w))"
  by (auto simp: handle_idle_def task_inv_defs split: option.splits)

lemma handle_inv: "task_inv t \<Longrightarrow> enters (handle E env now (t, p, w))"
  using handle_idle_inv [of t p w] handle_building_inv [of t E env p w]
    handle_submitting_inv [of t E now p w] handle_pending_inv [of t E env now p w]
    handle_escalating_inv [of t E p w] handle_confirming_inv [of t E p w]
  by (cases "ts_state t") (auto simp: handle_def task_inv_defs split: option.splits)

lemma task_step_inv [inv_intros]:
  assumes "task_inv (fst s)" "task_step E env now s = Returns s'"
  shows "task_inv (fst s')"
  using assms handle_inv [of "fst s" E env now "fst (snd s)" "snd (snd s)"]
  by (auto simp: task_step_def split: prod.splits run.splits)

text \<open>The pool stays consistent.\<close>

lemma remove_rejected_inv [inv_intros]: "pool_inv H p \<Longrightarrow> pool_inv H (remove_rejected rs p)"
  by (induction rs arbitrary: p) (simp_all add: remove_rejected_def remove_by_hash_inv)

lemma remove_bundled_ops_inv [inv_intros]: "pool_inv H p \<Longrightarrow> pool_inv H (remove_bundled_ops E t p)"
proof -
  have "pool_inv H p \<Longrightarrow> pool_inv H (foldl (\<lambda>p packed_op. snd (remove_by_id (packed_id E packed_op) p)) p ops)"
    for ops by (induction ops arbitrary: p) (simp_all add: remove_by_id_inv)
  then show "pool_inv H p \<Longrightarrow> pool_inv H (remove_bundled_ops E t p)"
    by (simp add: remove_bundled_ops_def split: option.split)
qed

lemma task_step_pool_inv:
  assumes "pool_inv H (fst (snd s))" "\<And>p. pool_inv H p \<Longrightarrow> pool_inv H (env p)"
    and "task_step E env now s = Returns s'"
  shows "pool_inv H (fst (snd s'))"
proof -
  obtain t p w where s: "s = (t, p, w)" by (cases s)
  have "pool_inv H (fst (snd (snd (handle E env now s))))"
    using assms(1,2)
    by (cases "ts_state t")
      (auto simp: s handle_def handle_idle_def handle_building_def handle_submitting_def handle_pending_def
        handle_escalating_def handle_cancelling_def handle_confirming_def Let_def remove_rejected_inv
        remove_bundled_ops_inv
        split: prod.split sum.split run.split option.split proposer_error.split transaction_status.split)
  then show ?thesis
    using assms(3) by (auto simp: task_step_def split: prod.splits run.splits)
qed

lemma reaches_inv: "reaches E (t, p, w) \<Longrightarrow> task_inv t \<and> pool_inv (te_hashing E) p"
proof (induction "(t, p, w)" arbitrary: t p w rule: reaches.induct)
  case (started p0 w0)
  then show ?case using task_start_inv [OF started(2)] by simp
next
  case (stepped s env now)
  obtain t0 p0 w0 where s: "s = (t0, p0, w0)" by (cases s)
  then have "task_inv t0" "pool_inv (te_hashing E) p0" using stepped(2) by blast+
  then show ?case
    using task_step_inv [of s E env now] task_step_pool_inv [of "te_hashing E" s env E now] stepped(3,4)
    by (simp add: s)
next
  case (outside t p w p' w')
  then show ?case by blast
qed

section \<open>Bundles and the pool\<close>

text \<open>What a step can do to the current bundle and to the pool.\<close>

lemma step_bundle:
  assumes "task_step E env now (t, p, w) = Returns (t', p', w')" "ts_current_bundle t' = Some b"
  shows "ts_current_bundle t = Some b \<or> (\<exists>w1. bp_make_bundle (te_proposer E) p w = (Inr b, w1))"
  using assms
  by (cases "ts_state t")
    (auto simp: task_step_def handle_def handle_idle_def handle_building_def handle_submitting_def
      handle_pending_def handle_escalating_def handle_cancelling_def handle_confirming_def Let_def
      split: prod.splits sum.splits run.splits option.splits proposer_error.splits
        transaction_status.splits if_splits)

lemma step_pool:
  assumes "task_step E env now (t, p, w) = Returns (t', p', w')"
  obtains (quiet) "p' = p" "ts_state t \<noteq> Building" "ts_state t \<noteq> Pending"
  | (waited) "p' = env p" "ts_state t = Building \<or> ts_state t = Pending"
  | (proposed) b w1 where "ts_state t = Building" "bp_make_bundle (te_proposer E) p w = (Inr b, w1)"
      "p' = remove_rejected (bd_rejected_ops b) (env p)"
  | (mined) n k w1 where "ts_state t = Pending"
      "check_pending (te_provider E) (ts_tracker t, w) = (Inr (Some (TxMined n)), k, w1)"
      "p' = remove_bundled_ops E t (env p)"
proof (cases "ts_state t = Building \<or> ts_state t = Pending")
  case True
  then show thesis
  proof
    assume b: "ts_state t = Building"
    show thesis
      using assms b waited proposed
      by (auto simp: task_step_def handle_def handle_building_def
          split: prod.splits sum.splits proposer_error.splits if_splits)
  next
    assume p: "ts_state t = Pending"
    have same: "remove_bundled_ops E (t\<lparr>ts_tracker := k, ts_mined_block := m\<rparr>) = remove_bundled_ops E t" for k m
      by (simp add: remove_bundled_ops_def fun_eq_iff)
    show thesis
      using assms p waited mined
      by (auto simp: task_step_def handle_def handle_pending_def Let_def same
          split: prod.splits sum.splits option.splits transaction_status.splits)
  qed
next
  case False
  then have "p' = p"
    using assms
    by (cases "ts_state t")
      (auto simp: task_step_def handle_def handle_idle_def handle_submitting_def handle_escalating_def
        handle_cancelling_def handle_confirming_def Let_def
        split: prod.splits sum.splits run.splits option.splits)
  then show thesis using False quiet by simp
qed

text \<open>
  A run of the machine from one state to another in which the task is never \<open>Idle\<close>: steps,
  and in between anything that the rest of the program does to the pool and the node.
\<close>

inductive busy_run :: "'w task_env \<Rightarrow> 'w sys \<Rightarrow> 'w sys \<Rightarrow> bool" for E where
  start: "busy_run E s s"
| steps: "busy_run E s s1 \<Longrightarrow> (\<And>p. pool_inv (te_hashing E) p \<Longrightarrow> pool_inv (te_hashing E) (env p)) \<Longrightarrow>
    task_step E env now s1 = Returns s2 \<Longrightarrow> ts_state (fst s2) \<noteq> Idle \<Longrightarrow> busy_run E s s2"
| others: "busy_run E s (t, p, w) \<Longrightarrow> pool_inv (te_hashing E) p' \<Longrightarrow> busy_run E s (t, p', w')"

lemma step_keeps_bundle:
  assumes "task_step E env now (t, p, w) = Returns (t', p', w')" "ts_state t' \<noteq> Idle" "ts_state t \<noteq> Building"
  shows "ts_current_bundle t' = ts_current_bundle t"
  using assms
  by (cases "ts_state t")
    (auto simp: task_step_def handle_def handle_idle_def handle_submitting_def
      handle_pending_def handle_escalating_def handle_cancelling_def handle_confirming_def Let_def
      split: prod.splits sum.splits run.splits option.splits transaction_status.splits if_splits)

text \<open>A busy task keeps its bundle until it is \<open>Idle\<close> again.\<close>

lemma busy_keeps_bundle:
  assumes "busy_run E s s'" "task_inv (fst s)" "ts_current_bundle (fst s) = Some b"
  shows "task_inv (fst s') \<and> ts_current_bundle (fst s') = Some b"
  using assms
proof (induction rule: busy_run.induct)
  case (steps s s1 env now s2)
  then have inv: "task_inv (fst s1)" and b: "ts_current_bundle (fst s1) = Some b" by blast+
  obtain t p w t' p' w' where s: "s1 = (t, p, w)" "s2 = (t', p', w')" by (cases s1; cases s2)
  have "ts_state t \<noteq> Building" using inv b by (simp add: s task_inv_def bundle_ok_def)
  then have "ts_current_bundle t' = Some b"
    using step_keeps_bundle [of E env now t p w t' p' w'] steps.hyps(3,4) b by (simp add: s)
  then show ?case using task_step_inv [OF inv steps.hyps(3)] by (simp add: s)
qed simp_all

text \<open>Every bundle of the machine comes from a proposal at the start of such a run.\<close>

definition proposal_step :: "'w task_env \<Rightarrow> 'w sys \<Rightarrow> op_bundle \<Rightarrow> 'w sys \<Rightarrow> bool" where
  "proposal_step E s b s' \<longleftrightarrow>
     ts_state (fst s) = Building \<and> (\<exists>w1. bp_make_bundle (te_proposer E) (fst (snd s)) (snd (snd s)) = (Inr b, w1)) \<and>
     \<not> bundle_is_empty b \<and> (\<exists>env now. task_step E env now s = Returns s')"

lemma proposal_step_bundle:
  assumes "proposal_step E s b s'"
  shows "ts_state (fst s') = Submitting \<and> ts_current_bundle (fst s') = Some b"
proof -
  obtain t p w where s: "s = (t, p, w)" by (cases s)
  obtain env now where "task_step E env now s = Returns s'" using assms by (auto simp: proposal_step_def)
  then show ?thesis
    using assms by (auto simp: proposal_step_def s task_step_def handle_def handle_building_def)
qed

lemma step_new_bundle:
  assumes "task_step E env now (t, p, w) = Returns (t', p', w')" "ts_current_bundle t' = Some b"
    and "ts_current_bundle t \<noteq> Some b"
  shows "proposal_step E (t, p, w) b (t', p', w')"
proof -
  have "ts_state t = Building"
    using assms step_keeps_bundle [OF assms(1)]
    by (cases "ts_state t")
      (auto simp: task_step_def handle_def handle_idle_def handle_submitting_def
        handle_pending_def handle_escalating_def handle_cancelling_def handle_confirming_def Let_def
        split: prod.splits sum.splits run.splits option.splits transaction_status.splits if_splits)
  then show ?thesis
    using assms unfolding proposal_step_def
    by (auto simp: task_step_def handle_def handle_building_def
        split: prod.splits sum.splits run.splits proposer_error.splits if_splits)
qed

lemma reaches_proposal:
  assumes "reaches E s" "ts_current_bundle (fst s) = Some b"
  shows "\<exists>s0 s1. reaches E s0 \<and> proposal_step E s0 b s1 \<and> busy_run E s1 s"
  using assms
proof (induction rule: reaches.induct)
  case (started p w s)
  obtain t p' w' where "s = (t, p', w')" by (cases s)
  then show ?case using started task_start_bundle [of E p w "Inr ()" t p' w'] by simp
next
  case (stepped s env now s')
  obtain t p w t' p' w' where s: "s = (t, p, w)" "s' = (t', p', w')" by (cases s; cases s')
  show ?case
  proof (cases "ts_current_bundle t = Some b")
    case True
    then obtain s0 s1 where IH: "reaches E s0" "proposal_step E s0 b s1" "busy_run E s1 s"
      using stepped.IH s by auto
    have "task_inv t'" using task_step_inv [of s E env now s'] stepped.hyps(1,3) reaches_inv [of E t p w] s by simp
    then have "ts_state (fst s') \<noteq> Idle" using stepped.prems s by (auto simp: task_inv_def bundle_ok_def)
    from busy_run.steps [OF IH(3) stepped.hyps(2) stepped.hyps(3) this] show ?thesis using IH by blast
  next
    case False
    then have "proposal_step E s b s'"
      using step_new_bundle [of E env now t p w t' p' w' b] stepped.hyps(3) stepped.prems by (simp add: s)
    then show ?thesis using stepped.hyps(1) busy_run.start by blast
  qed
next
  case (outside t p w p' w')
  then obtain s0 s1 where "reaches E s0" "proposal_step E s0 b s1" "busy_run E s1 (t, p, w)" by auto
  then show ?case using busy_run.others [OF _ outside.hyps(2)] by blast
qed

context strategy_contract
begin

text \<open>A machine over a strategy that keeps its contract never panics.\<close>

lemma step_returns:
  assumes "te_strategy E = st" "\<And>w. inv_w w"
  shows "\<exists>s'. task_step E env now s = Returns s'"
proof -
  obtain t p w where s: "s = (t, p, w)" by (cases s)
  have submit: "\<And>raw ctx w w'. st_submit st raw ctx w \<noteq> (Panics, w')"
    and cancel: "\<And>h tx w w'. st_cancel st h tx w \<noteq> (Panics, w')"
    using submit_returns cancel_returns assms(2) by blast+
  have "fst (handle E env now s) \<noteq> Panics"
    using submit cancel assms(1)
    by (cases "ts_state t")
      (auto simp: s handle_def handle_idle_def handle_building_def handle_submitting_def
        handle_pending_def handle_escalating_def handle_cancelling_def handle_confirming_def Let_def
        split: prod.split sum.split run.split option.split proposer_error.split transaction_status.split)
  then show ?thesis
    by (cases "handle E env now s") (auto simp: task_step_def split: run.split)
qed

end

lemma fold_remove_by_id:
  "pool_inv H p \<Longrightarrow>
   pool_inv H (foldl (\<lambda>p x. snd (remove_by_id (f x) p)) p xs) \<and>
   entries_of (foldl (\<lambda>p x. snd (remove_by_id (f x) p)) p xs) = {#e \<in># entries_of p. pe_id e \<notin> f ` set xs#}"
proof (induction xs arbitrary: p)
  case (Cons x xs)
  then have "pool_inv H (snd (remove_by_id (f x) p))" by (simp add: remove_by_id_inv)
  then show ?case
    using Cons.IH remove_by_id_entries [OF Cons.prems] by (simp add: filter_filter_mset)
qed simp

lemma fold_remove_by_hash:
  "pool_inv H p \<Longrightarrow>
   pool_inv H (foldl (\<lambda>p x. snd (remove_by_hash (f x) p)) p xs) \<and>
   entries_of (foldl (\<lambda>p x. snd (remove_by_hash (f x) p)) p xs) = {#e \<in># entries_of p. pe_hash e \<notin> f ` set xs#}"
proof (induction xs arbitrary: p)
  case (Cons x xs)
  then have "pool_inv H (snd (remove_by_hash (f x) p))" by (simp add: remove_by_hash_inv)
  then show ?case
    using Cons.IH remove_by_hash_entries [OF Cons.prems] by (simp add: filter_filter_mset)
qed simp

lemma packed_ids:
  assumes "\<forall>e\<in>set kept. entry_ok H e"
  shows "packed_id E ` set (packed_ops kept) = pe_id ` set kept"
  using assms by (force simp: packed_id_def packed_ops_def entry_ok_def image_image)

lemma remove_bundled_ops_entries:
  assumes "pool_inv H p" "ts_current_bundle t = Some b" "bd_ops b = packed_ops kept"
    and "\<forall>e\<in>set kept. entry_ok H' e"
  shows "entries_of (remove_bundled_ops E t p) = {#e \<in># entries_of p. pe_id e \<notin> pe_id ` set kept#}"
  using fold_remove_by_id [OF assms(1), of "packed_id E" "packed_ops kept"] packed_ids [OF assms(4), of E]
  by (simp add: remove_bundled_ops_def assms(2,3))

section \<open>A machine for the examples\<close>

lemma reaches_id: "reaches E s \<Longrightarrow> task_step E id now s = Returns s' \<Longrightarrow> reaches E s'"
  by (erule reaches.stepped [where env = id]) simp_all

definition sample_env :: "'w evm_provider \<Rightarrow> 'w task_env" where
  "sample_env P =
     \<lparr>te_proposer = bundle_proposer_impl sample_proposer happy_handler (fixed_fees (gas_fees_new 20 1) 15),
      te_signer = \<lparr>sg_address = 7, sg_sign_transaction = (\<lambda>_ _. io_return [1, 2])\<rparr>,
      te_strategy = direct_strategy P, te_provider = P, te_chain_spec = chain_spec_dev,
      te_hashing = sample_hashing, te_encode_handle_ops = (\<lambda>_ _. [])\<rparr>"

lemma sample_env_simps [simp]:
  "te_proposer (sample_env P) = bundle_proposer_impl sample_proposer happy_handler (fixed_fees (gas_fees_new 20 1) 15)"
  "te_strategy (sample_env P) = direct_strategy P" "te_provider (sample_env P) = P"
  "te_hashing (sample_env P) = sample_hashing" "sg_address (te_signer (sample_env P)) = 7"
  "sg_sign_transaction (te_signer (sample_env P)) tx c w = (Inr [1, 2], w)"
  by (simp_all add: sample_env_def io_return_def)

definition sample_tracker :: tracker where
  "sample_tracker = (tracker_new 7 escalation_config_default)\<lparr>tk_current_nonce := 5\<rparr>"

definition sample_task :: "bundle_sender_state \<Rightarrow> tracker \<Rightarrow> op_bundle option \<Rightarrow> task" where
  "sample_task st k b = (task_new (sample_env sample_provider))\<lparr>ts_state := st, ts_tracker := k, ts_current_bundle := b\<rparr>"

lemma sample_pool_nonempty: "pool_size sample_pool \<noteq> 0"
  by (simp add: sample_pool_def pool_run_def pool_eval)

lemma sample_building:
  assumes nonce: "evm_get_nonce P 7 w = (Inr 5, w)"
  shows "reaches (sample_env P) (sample_task Building sample_tracker None, sample_pool, w)"
proof -
  let ?E = "sample_env P"
  have inv: "pool_inv (te_hashing ?E) sample_pool" by (simp add: sample_pool_def sample_pool_inv)
  have "task_start ?E sample_pool w = (Inr (), sample_task Idle sample_tracker None, sample_pool, w)"
    using nonce by (simp add: task_start_def Let_def tracker_initialize_def io_defs task_new_def sample_task_def
        sample_tracker_def tracker_new_def sample_env_def)
  with inv have "reaches ?E (sample_task Idle sample_tracker None, sample_pool, w)" by (rule reaches.started)
  moreover have "task_step ?E id 0 (sample_task Idle sample_tracker None, sample_pool, w) =
      Returns (sample_task Building sample_tracker None, sample_pool, w)"
    using sample_pool_nonempty by (simp add: task_step_def handle_def handle_idle_def sample_task_def)
  ultimately show ?thesis by (rule reaches_id)
qed

lemma sample_propose:
  "task_step (sample_env P) id 0 (sample_task Building sample_tracker None, sample_pool, w) =
     Returns (sample_task Submitting sample_tracker (Some sample_bundle), sample_pool, w)"
  by (simp add: task_step_def handle_def handle_building_def sample_task_def bundle_proposer_impl_def
      sample_make_bundle bundle_is_empty_def remove_rejected_def)

lemma sample_submitting:
  assumes nonce: "evm_get_nonce P 7 w = (Inr 5, w)"
  shows "reaches (sample_env P) (sample_task Submitting sample_tracker (Some sample_bundle), sample_pool, w)"
  by (rule reaches_id [OF sample_building [OF nonce] sample_propose])

definition sample_pending :: tracker where
  "sample_pending = record_submission 0 2 5 20 1 sample_tracker"

lemma sample_direct_submit:
  "evm_send_raw_transaction P [1, 2] w = (Inr 2, w) \<Longrightarrow>
   st_submit (direct_strategy P) [1, 2] ctx w = (Returns (Inr 2), w)"
  by (simp add: direct_strategy_def returning_def direct_submit_def io_map_err_def)

lemma sample_submit:
  assumes "evm_send_raw_transaction P [1, 2] w = (Inr 2, w)"
  shows "task_step (sample_env P) id 0 (sample_task Submitting sample_tracker (Some sample_bundle), sample_pool, w) =
      Returns (sample_task Pending sample_pending (Some sample_bundle), sample_pool, w)"
  using sample_direct_submit [OF assms]
  by (simp add: task_step_def handle_def handle_submitting_def sample_task_def Let_def sample_pending_def
      sample_tracker_def next_nonce_def)

lemma sample_reaches_pending:
  assumes "evm_get_nonce P 7 w = (Inr 5, w)" "evm_send_raw_transaction P [1, 2] w = (Inr 2, w)"
  shows "reaches (sample_env P) (sample_task Pending sample_pending (Some sample_bundle), sample_pool, w)"
  by (rule reaches_id [OF sample_submitting [OF assms(1)] sample_submit [OF assms(2)]])

lemma sample_check_pending:
  assumes "evm_get_nonce P 7 w = (Inr 5, w)" "evm_get_transaction_receipt P 2 w = (Inr None, w)"
  shows "check_pending P (sample_pending, w) = (Inr (Some TxPending), sample_pending, w)"
  using assms
  by (simp add: check_pending_def io_defs sample_pending_def record_submission_def sample_tracker_def tracker_new_def)

lemma sample_reaches_escalating:
  assumes "evm_get_nonce P 7 w = (Inr 5, w)" "evm_send_raw_transaction P [1, 2] w = (Inr 2, w)"
    and "evm_get_transaction_receipt P 2 w = (Inr None, w)"
  shows "reaches (sample_env P) (sample_task Escalating sample_pending (Some sample_bundle), sample_pool, w)"
proof (rule reaches_id [OF sample_reaches_pending [OF assms(1,2)], of "from_secs 30"])
  have "needs_escalation (from_secs 30) sample_pending"
    by (simp add: needs_escalation_def sample_pending_def record_submission_def sample_tracker_def
        tracker_new_def escalation_config_default_def from_secs_def)
  then show "task_step (sample_env P) id (from_secs 30)
        (sample_task Pending sample_pending (Some sample_bundle), sample_pool, w) =
      Returns (sample_task Escalating sample_pending (Some sample_bundle), sample_pool, w)"
    using sample_check_pending [OF assms(1,3)]
    by (simp add: task_step_def handle_def handle_pending_def sample_task_def Let_def)
qed

text \<open>The node of the examples, at nonce 5.\<close>

definition node5 :: "u64 evm_provider" where
  "node5 = sample_provider\<lparr>evm_get_nonce := (\<lambda>_. io_return 5)\<rparr>"

lemma node5_simps [simp]:
  "evm_get_nonce node5 a w = (Inr 5, w)" "evm_send_raw_transaction node5 [1, 2] w = (Inr 2, w)"
  "evm_get_transaction_receipt node5 h w = (Inr None, w)" "evm_get_base_fee node5 w = (Inr 100, w)"
  "evm_get_max_priority_fee node5 w = (Inr 7, w)"
  by (simp_all add: node5_def sample_provider_def io_return_def)

section \<open>Properties\<close>

text \<open>
  Claim C2.  In every reachable state of the bundler task the pool is consistent, the task
  is not cancelling, a transaction is pending exactly in \<open>Pending\<close> and \<open>Escalating\<close>, and
  then it uses the tracker's current nonce and carries a non-empty bundle.
\<close>

theorem task_reachable_inv:
  assumes "reaches E (t, p, w)"
  shows "pool_inv (te_hashing E) p \<and> ts_state t \<noteq> Cancelling \<and>
    (has_pending (ts_tracker t) \<longleftrightarrow> ts_state t = Pending \<or> ts_state t = Escalating) \<and>
    (\<forall>q. tk_pending (ts_tracker t) = Some q \<longrightarrow> pt_nonce q = next_nonce (ts_tracker t) \<and>
       (\<exists>b. ts_current_bundle t = Some b \<and> bd_ops b \<noteq> []))"
  using reaches_inv [OF assms]
  by (auto simp: task_inv_defs has_pending_def split: option.splits)

theorem task_reachable_inv_witness:
  "reaches (sample_env node5) (sample_task Escalating sample_pending (Some sample_bundle), sample_pool, 0) \<and>
   has_pending sample_pending"
proof -
  let ?t = "sample_task Escalating sample_pending (Some sample_bundle)"
  have r: "reaches (sample_env node5) (?t, sample_pool, 0)" by (rule sample_reaches_escalating) simp_all
  have "ts_state ?t = Escalating" "ts_tracker ?t = sample_pending" by (simp_all add: sample_task_def)
  then show ?thesis using task_reachable_inv [OF r] r by simp
qed

text \<open>
  Claim C35.  A replacement is built for the nonce before the pending one: in every reachable
  \<open>Escalating\<close> state whose pending nonce is not zero, the transaction that is signed has the
  pending nonce minus one, so it can never replace the pending transaction.
\<close>

theorem escalation_nonce_off_by_one:
  assumes "reaches E (t, p, w)" "ts_state t = Escalating" "tk_pending (ts_tracker t) = Some q"
    and "pt_nonce q \<noteq> 0"
  shows "tq_nonce (escalation_tx E t b fee tip) = Some (pt_nonce q - 1) \<and> pt_nonce q - 1 \<noteq> pt_nonce q"
proof -
  have "pt_nonce q = next_nonce (ts_tracker t)"
    using reaches_inv [OF assms(1)] assms(3) by (simp add: task_inv_defs)
  moreover have "(1 :: u64) \<le> pt_nonce q"
    using assms(4) by (simp add: word_le_nat_alt unat_gt_0 Suc_le_eq)
  ultimately show ?thesis
    by (simp add: escalation_tx_def Let_def saturating_sub_def build_bundle_tx_def)
qed

theorem escalation_nonce_off_by_one_witness:
  "tq_nonce (escalation_tx (sample_env node5) (sample_task Escalating sample_pending (Some sample_bundle))
     sample_bundle 200 20) = Some 4"
proof -
  let ?t = "sample_task Escalating sample_pending (Some sample_bundle)"
  have r: "reaches (sample_env node5) (?t, sample_pool, 0)" by (rule sample_reaches_escalating) simp_all
  obtain q where q: "tk_pending (ts_tracker ?t) = Some q" "pt_nonce q = 5"
    by (simp add: sample_task_def sample_pending_def record_submission_def)
  have "ts_state ?t = Escalating" by (simp add: sample_task_def)
  then show ?thesis
    using escalation_nonce_off_by_one [OF r _ q(1)] q(2) by simp
qed

text \<open>
  An escalating task abandons its transaction only because the node did not
  quote its fees: the attempts are never exhausted there and the bundle is never missing.
  The transaction itself may still be mined.
\<close>

theorem escalation_abandons_iff_no_quote:
  assumes "reaches E (t, p, w)" "ts_state t = Escalating"
  shows "fst (handle E env now (t, p, w)) = Returns Abandoned \<longleftrightarrow>
    ec_strategy (tk_escalation_config (ts_tracker t)) = NetworkTracking \<and>
    (\<exists>e w1. evm_get_base_fee (te_provider E) w = (Inl e, w1) \<or>
       (\<exists>b. evm_get_base_fee (te_provider E) w = (Inr b, w1) \<and>
          (\<exists>w2. evm_get_max_priority_fee (te_provider E) w1 = (Inl e, w2))))"
proof -
  obtain q b where q: "tk_pending (ts_tracker t) = Some q" "ts_current_bundle t = Some b"
      "pt_escalation_count q < ec_max_attempts (tk_escalation_config (ts_tracker t))"
    using reaches_inv [OF assms(1)] assms(2) by (auto simp: task_inv_defs split: option.splits)
  have "fst (handle E env now (t, p, w)) = Returns Abandoned \<longleftrightarrow>
      fst (escalated_fees (te_provider E) (ts_tracker t) w) = None"
    using assms(2) q(2)
    by (auto simp: handle_def handle_escalating_def split: prod.split sum.split run.split option.split)
  then show ?thesis unfolding escalated_fees_None [OF q(1,3)] .
qed

theorem escalation_abandons_iff_no_quote_witness:
  "fst (handle (sample_env node5) id 0 (sample_task Escalating sample_pending (Some sample_bundle), sample_pool, 0))
     \<noteq> Returns Abandoned"
proof -
  let ?t = "sample_task Escalating sample_pending (Some sample_bundle)"
  have r: "reaches (sample_env node5) (?t, sample_pool, 0)" by (rule sample_reaches_escalating) simp_all
  have "ts_state ?t = Escalating" by (simp add: sample_task_def)
  from escalation_abandons_iff_no_quote [OF r this, of id 0] show ?thesis by simp
qed

text \<open>
  A transaction whose escalation attempts are used up is never abandoned either:
  as long as the node neither mines nor drops it, every poll leaves the task as it is, in
  \<open>Pending\<close>.
\<close>

theorem exhausted_stays_pending:
  assumes "ts_state t = Pending" "tk_pending (ts_tracker t) = Some q"
    and "ec_max_attempts (tk_escalation_config (ts_tracker t)) \<le> pt_escalation_count q"
    and "check_pending (te_provider E) (ts_tracker t, w) = (Inr (Some TxPending), k, w1)"
  shows "task_step E env now (t, p, w) = Returns (t, env p, w1)"
  using assms(4)
proof (cases rule: check_pending_cases)
  case (still q')
  have "\<not> pt_escalation_count q < ec_max_attempts (tk_escalation_config (ts_tracker t))"
    using assms(3) by (simp add: not_less)
  with still show ?thesis
    using assms by (simp add: task_step_def handle_def handle_pending_def Let_def needs_escalation_def)
qed simp_all

theorem exhausted_stays_pending_witness:
  "let t = sample_task Pending ((record_escalation 3 30 3 ^^ 5) sample_pending) (Some sample_bundle)
   in task_step (sample_env node5) id 1000 (t, sample_pool, 0) = Returns (t, sample_pool, 0)"
proof -
  let ?k = "(record_escalation 3 30 3 ^^ 5) sample_pending"
  let ?t = "sample_task Pending ?k (Some sample_bundle)"
  obtain q where q: "tk_pending ?k = Some q" "pt_escalation_count q = 5" "pt_tx_hash q = 3" "pt_nonce q = 5"
    by (simp add: sample_pending_def record_submission_def record_escalation_def numeral_eq_Suc)
  have cfg: "ec_max_attempts (tk_escalation_config ?k) = 5" "tk_signer_address ?k = 7"
    by (simp_all add: sample_pending_def record_submission_def record_escalation_def numeral_eq_Suc
        sample_tracker_def tracker_new_def escalation_config_default_def)
  have "check_pending (te_provider (sample_env node5)) (?k, 0) = (Inr (Some TxPending), ?k, 0)"
    using q by (simp add: check_pending_def io_defs)
  moreover have "ts_tracker ?t = ?k" "ts_state ?t = Pending" by (simp_all add: sample_task_def)
  ultimately show ?thesis
    using exhausted_stays_pending [of ?t q "sample_env node5" 0 ?k 0 id 1000 sample_pool] q cfg
    by (simp add: Let_def)
qed

text \<open>
  Over the direct strategy, the one the program is wired with, no step of the
  task panics.
\<close>

theorem direct_task_never_panics:
  assumes "te_strategy E = direct_strategy P"
  shows "\<exists>s'. task_step E env now s = Returns s'"
  using assms by (rule ds.step_returns) simp

theorem direct_task_never_panics_witness: "\<forall>s. \<exists>s'. task_step (sample_env node5) id 0 s = Returns s'"
  using direct_task_never_panics [of "sample_env node5" node5 id 0] by simp

text \<open>
  Claim C14.  From its proposal to its confirmation a bundle stays what it was.  Take any step of
  the task that proposes a bundle from the pool \<open>p0\<close>, and any run after it in which the task is
  never \<open>Idle\<close>, with retries, escalations and whatever the server does to the pool: when the
  node then reports the pending transaction mined, the bundle is still the one proposed, its
  operations are entries of \<open>p0\<close>, the task goes on to confirm it, and the pool, as the handler
  finds it, loses exactly the operations with the ids of those entries.
\<close>

theorem mined_removes_bundle:
  assumes "te_proposer E = bundle_proposer_impl c B G"
    and "reaches E (t0, p0, w0)" "proposal_step E (t0, p0, w0) b s1" "busy_run E s1 (t, p, w)"
    and "ts_state t = Pending" "check_pending (te_provider E) (ts_tracker t, w) = (Inr (Some (TxMined n)), k, w1)"
    and "pool_inv (te_hashing E) (env p)"
  shows "\<exists>kept p'. ts_current_bundle t = Some b \<and> bd_ops b = packed_ops kept \<and> kept \<noteq> [] \<and>
    set kept \<subseteq> set_mset (entries_of p0) \<and>
    handle E env now (t, p, w) =
      (Returns Confirming, t\<lparr>ts_tracker := k, ts_mined_block := Some n\<rparr>, p', w1) \<and>
    entries_of p' = {#e \<in># entries_of (env p). pe_id e \<notin> pe_id ` set kept#}"
proof -
  have "task_inv t0" and p0: "pool_inv (te_hashing E) p0" using reaches_inv [OF assms(2)] by blast+
  then have "task_inv (fst s1)"
    using task_step_inv [of "(t0, p0, w0)" E _ _ s1] assms(3) by (auto simp: proposal_step_def)
  then have b: "ts_current_bundle t = Some b"
    using busy_keeps_bundle [OF assms(4)] proposal_step_bundle [OF assms(3)] by simp
  obtain w2 where "bp_make_bundle (bundle_proposer_impl c B G) p0 w0 = (Inr b, w2)"
    using assms(1,3) by (auto simp: proposal_step_def)
  from bpi.proposes [OF p0 this] obtain kept where kept: "bd_ops b = packed_ops kept" "kept \<noteq> []"
      "set kept \<subseteq> set_mset (entries_of p0)" by (auto simp: bundle_from_def)
  then have ok: "\<forall>e\<in>set kept. entry_ok (te_hashing E) e" using pool_invD(10) [OF p0] by blast
  let ?t = "t\<lparr>ts_tracker := k, ts_mined_block := Some n\<rparr>"
  have "ts_current_bundle ?t = Some b" using b by simp
  from remove_bundled_ops_entries [OF assms(7) this kept(1) ok, of E]
  have "entries_of (remove_bundled_ops E ?t (env p)) = {#e \<in># entries_of (env p). pe_id e \<notin> pe_id ` set kept#}" .
  moreover have "handle E env now (t, p, w) = (Returns Confirming, ?t, remove_bundled_ops E ?t (env p), w1)"
    using assms(5,6) by (simp add: handle_def handle_pending_def Let_def)
  ultimately show ?thesis using b kept by blast
qed

definition node5_mined :: "u64 evm_provider" where
  "node5_mined = node5\<lparr>evm_get_transaction_receipt := (\<lambda>_. io_return (Some \<lparr>tr_block_number = Some 10\<rparr>)),
     evm_get_block_number := io_return 13\<rparr>"

lemma node5_mined_simps [simp]:
  "evm_get_nonce node5_mined a w = (Inr 5, w)" "evm_send_raw_transaction node5_mined [1, 2] w = (Inr 2, w)"
  "evm_get_transaction_receipt node5_mined h w = (Inr (Some \<lparr>tr_block_number = Some 10\<rparr>), w)"
  "evm_get_block_number node5_mined w = (Inr 13, w)"
  using node5_simps(1,2) by (simp_all add: node5_mined_def io_return_def)

theorem mined_removes_bundle_witness:
  "\<exists>t' p' kept. handle (sample_env node5_mined) id 0
      (sample_task Pending sample_pending (Some sample_bundle), sample_pool, 0) = (Returns Confirming, t', p', 0) \<and>
    bd_ops sample_bundle = packed_ops kept \<and> kept \<noteq> [] \<and>
    entries_of p' = {#e \<in># entries_of sample_pool. pe_id e \<notin> pe_id ` set kept#}"
proof -
  let ?building = "sample_task Building sample_tracker None" and ?submitting = "sample_task Submitting sample_tracker (Some sample_bundle)"
  let ?t = "sample_task Pending sample_pending (Some sample_bundle)" and ?E = "sample_env node5_mined"
  have r: "reaches ?E (?building, sample_pool, 0)" by (rule sample_building) simp
  have "bp_make_bundle (te_proposer ?E) sample_pool 0 = (Inr sample_bundle, 0)"
    by (simp add: bundle_proposer_impl_def sample_make_bundle)
  then have made: "proposal_step ?E (?building, sample_pool, 0) sample_bundle (?submitting, sample_pool, 0)"
    using sample_propose [of node5_mined 0] by (auto simp: proposal_step_def sample_task_def bundle_is_empty_def)
  have "task_step ?E id 0 (?submitting, sample_pool, 0) = Returns (?t, sample_pool, 0)" by (rule sample_submit) simp
  from busy_run.steps [OF busy_run.start _ this] have run: "busy_run ?E (?submitting, sample_pool, 0) (?t, sample_pool, 0)"
    by (simp add: sample_task_def)
  have st: "ts_state ?t = Pending" "ts_tracker ?t = sample_pending" by (simp_all add: sample_task_def)
  let ?k = "sample_pending\<lparr>tk_current_nonce := 6, tk_pending := None\<rparr>"
  have "check_pending node5_mined (sample_pending, 0) = (Inr (Some (TxMined 10)), ?k, 0)"
    by (simp add: check_pending_def io_defs sample_pending_def record_submission_def unwrap_or_def)
  then have "check_pending (te_provider ?E) (ts_tracker ?t, 0) = (Inr (Some (TxMined 10)), ?k, 0)"
    by (simp add: st)
  moreover have "pool_inv (te_hashing ?E) (id sample_pool)" by (simp add: sample_pool_def sample_pool_inv)
  ultimately show ?thesis
    using mined_removes_bundle [OF sample_env_simps(1) r made run st(1), of 10 ?k 0 id 0] by auto
qed

fun task_run :: "'w task_env \<Rightarrow> (operation_pool \<Rightarrow> operation_pool) \<Rightarrow> nat list \<Rightarrow> 'w sys \<Rightarrow> 'w sys run" where
  "task_run E env [] s = Returns s"
| "task_run E env (now # nows) s =
     (case task_step E env now s of
        Panics \<Rightarrow> Panics
      | Returns s' \<Rightarrow> task_run E env nows s')"

text \<open>
  A node and a signer that work: signing and submitting succeed, the transaction is mined
  in block \<open>n\<close> at once and the chain is already deep enough.
\<close>

definition cooperative :: "'w task_env \<Rightarrow> u64 \<Rightarrow> u64 \<Rightarrow> bool" where
  "cooperative E depth n \<longleftrightarrow>
     (\<forall>tx c w. \<exists>raw w'. sg_sign_transaction (te_signer E) tx c w = (Inr raw, w')) \<and>
     (\<forall>raw ctx w. \<exists>h w'. st_submit (te_strategy E) raw ctx w = (Returns (Inr h), w')) \<and>
     (\<forall>h w. \<exists>w'. evm_get_transaction_receipt (te_provider E) h w = (Inr (Some \<lparr>tr_block_number = Some n\<rparr>), w')) \<and>
     (\<forall>w. \<exists>m w'. evm_get_block_number (te_provider E) w = (Inr m, w') \<and> depth \<le> saturating_sub m n)"

lemma cooperative_submit:
  assumes "cooperative E d n" "ts_state t = Submitting" "ts_current_bundle t = Some b"
  obtains h w' where "task_step E env now (t, p, w) =
    Returns (t\<lparr>ts_state := Pending, ts_tracker := record_submission now h (next_nonce (ts_tracker t))
      (gf_max_fee (bd_gas_fees b)) (gf_max_priority (bd_gas_fees b)) (ts_tracker t)\<rparr>, p, w')"
proof -
  obtain raw w1 where 1: "sg_sign_transaction (te_signer E) (build_bundle_tx E b (next_nonce (ts_tracker t)))
      (cs_id (te_chain_spec E)) w = (Inr raw, w1)"
    using assms(1) unfolding cooperative_def by blast
  obtain h w2 where 2: "st_submit (te_strategy E) raw (submit_ctx E) w1 = (Returns (Inr h), w2)"
    using assms(1) unfolding cooperative_def by blast
  have "task_step E env now (t, p, w) =
    Returns (t\<lparr>ts_state := Pending, ts_tracker := record_submission now h (next_nonce (ts_tracker t))
      (gf_max_fee (bd_gas_fees b)) (gf_max_priority (bd_gas_fees b)) (ts_tracker t)\<rparr>, p, w2)"
    by (cases t) (use assms(2,3) 1 2 in \<open>simp add: task_step_def handle_def handle_submitting_def Let_def\<close>)
  then show thesis by (rule that)
qed

lemma cooperative_mined:
  assumes "cooperative E d n" "ts_state t = Pending" "tk_pending (ts_tracker t) = Some q"
  obtains w' where "task_step E env now (t, p, w) =
    (let t' = t\<lparr>ts_state := Confirming, ts_mined_block := Some n,
        ts_tracker := (ts_tracker t)\<lparr>tk_current_nonce := pt_nonce q + 1, tk_pending := None\<rparr>\<rparr>
     in Returns (t', remove_bundled_ops E t' (env p), w'))"
proof -
  obtain w1 where "evm_get_transaction_receipt (te_provider E) (pt_tx_hash q) w = (Inr (Some \<lparr>tr_block_number = Some n\<rparr>), w1)"
    using assms(1) unfolding cooperative_def by blast
  then have "check_pending (te_provider E) (ts_tracker t, w) =
      (Inr (Some (TxMined n)), (ts_tracker t)\<lparr>tk_current_nonce := pt_nonce q + 1, tk_pending := None\<rparr>, w1)"
    using assms(3) by (simp add: check_pending_def io_defs unwrap_or_def)
  then have "task_step E env now (t, p, w) =
    (let t' = t\<lparr>ts_state := Confirming, ts_mined_block := Some n,
        ts_tracker := (ts_tracker t)\<lparr>tk_current_nonce := pt_nonce q + 1, tk_pending := None\<rparr>\<rparr>
     in Returns (t', remove_bundled_ops E t' (env p), w1))"
    using assms(2) by (simp add: task_step_def handle_def handle_pending_def Let_def remove_bundled_ops_def)
  then show thesis by (rule that)
qed

lemma cooperative_confirm:
  assumes "cooperative E (ts_confirmation_depth t) n" "ts_state t = Confirming" "ts_mined_block t = Some n"
  obtains w' where "task_step E env now (t, p, w) = Returns (t\<lparr>ts_state := Confirmed\<rparr>, p, w')"
proof -
  obtain m w1 where "evm_get_block_number (te_provider E) w = (Inr m, w1)" "ts_confirmation_depth t \<le> saturating_sub m n"
    using assms(1) unfolding cooperative_def by blast
  then have "task_step E env now (t, p, w) = Returns (t\<lparr>ts_state := Confirmed\<rparr>, p, w1)"
    using assms(2,3) by (simp add: task_step_def handle_def handle_confirming_def Let_def)
  then show thesis by (rule that)
qed

lemma task_run_append:
  "task_run E env (nows @ nows') s =
     (case task_run E env nows s of Panics \<Rightarrow> Panics | Returns s' \<Rightarrow> task_run E env nows' s')"
  by (induction nows arbitrary: s) (auto split: run.split)

lemma bundle_completes:
  assumes "ts_state t = Submitting" "ts_current_bundle t = Some b"
    and "cooperative E (ts_confirmation_depth t) n" "pool_inv H (env p)"
  obtains t' p' w' where "task_run E env [n1, n2, n3, n4] (t, p, w) = Returns (t', p', w')"
    "ts_state t' = Idle" "ts_current_bundle t' = None" "\<not> has_pending (ts_tracker t')"
    "next_nonce (ts_tracker t') = next_nonce (ts_tracker t) + 1"
    "ts_confirmation_depth t' = ts_confirmation_depth t"
    "pool_inv H p'"
    "entries_of p' = {#e \<in># entries_of (env p). pe_id e \<notin> packed_id E ` set (bd_ops b)#}"
proof -
  obtain h w1 where 1: "task_step E env n1 (t, p, w) =
    Returns (t\<lparr>ts_state := Pending, ts_tracker := record_submission n1 h (next_nonce (ts_tracker t))
      (gf_max_fee (bd_gas_fees b)) (gf_max_priority (bd_gas_fees b)) (ts_tracker t)\<rparr>, p, w1)"
    (is "_ = Returns (?t1, _, _)")
    using assms(3,1,2) by (rule cooperative_submit)
  obtain q where q: "tk_pending (ts_tracker ?t1) = Some q" "pt_nonce q = next_nonce (ts_tracker t)"
    by (simp add: record_submission_def)
  have "ts_state ?t1 = Pending" by simp
  from cooperative_mined [OF assms(3) this q(1), of env n2 p w1] obtain w2 where
    2: "task_step E env n2 (?t1, p, w1) =
    (let t' = ?t1\<lparr>ts_state := Confirming, ts_mined_block := Some n,
        ts_tracker := (ts_tracker ?t1)\<lparr>tk_current_nonce := pt_nonce q + 1, tk_pending := None\<rparr>\<rparr>
     in Returns (t', remove_bundled_ops E t' (env p), w2))" by blast
  define t2 where "t2 = ?t1\<lparr>ts_state := Confirming, ts_mined_block := Some n,
        ts_tracker := (ts_tracker ?t1)\<lparr>tk_current_nonce := pt_nonce q + 1, tk_pending := None\<rparr>\<rparr>"
  have t2: "ts_state t2 = Confirming" "ts_mined_block t2 = Some n" "ts_current_bundle t2 = Some b"
      "ts_confirmation_depth t2 = ts_confirmation_depth t"
    using assms(2) by (simp_all add: t2_def)
  have coop: "cooperative E (ts_confirmation_depth t2) n" using assms(3) t2(4) by simp
  obtain w3 where 3: "task_step E env n3 (t2, remove_bundled_ops E t2 (env p), w2) =
      Returns (t2\<lparr>ts_state := Confirmed\<rparr>, remove_bundled_ops E t2 (env p), w3)"
    using coop t2(1,2) by (rule cooperative_confirm)
  have 4: "task_step E env n4 (t2\<lparr>ts_state := Confirmed\<rparr>, remove_bundled_ops E t2 (env p), w3) =
      Returns (t2\<lparr>ts_state := Idle, ts_current_bundle := None, ts_mined_block := None\<rparr>,
        remove_bundled_ops E t2 (env p), w3)"
    by (simp add: task_step_def handle_def)
  have "entries_of (remove_bundled_ops E t2 (env p)) =
      {#e \<in># entries_of (env p). pe_id e \<notin> packed_id E ` set (bd_ops b)#}"
    using fold_remove_by_id [OF assms(4), of "packed_id E" "bd_ops b"] t2(3) by (simp add: remove_bundled_ops_def)
  moreover have "task_run E env [n1, n2, n3, n4] (t, p, w) =
      Returns (t2\<lparr>ts_state := Idle, ts_current_bundle := None, ts_mined_block := None\<rparr>,
        remove_bundled_ops E t2 (env p), w3)"
    by (simp add: 1 2 [folded t2_def, unfolded Let_def] 3 4)
  moreover have "pool_inv H (remove_bundled_ops E t2 (env p))"
    by (rule remove_bundled_ops_inv [OF assms(4)])
  ultimately show thesis
    using q(2) that by (simp add: t2_def has_pending_def next_nonce_def)
qed

text \<open>
  A bundle completes: with a node that cooperates, four steps take the task from
  \<open>Submitting\<close> back to \<open>Idle\<close> with the next nonce, nothing pending, no bundle, and the
  operations of the bundle gone from the pool.
\<close>

theorem bundle_lifecycle:
  assumes "ts_state t = Submitting" "ts_current_bundle t = Some b"
    and "cooperative E (ts_confirmation_depth t) n" "pool_inv H (env p)"
  shows "\<exists>t' p' w'. task_run E env [n1, n2, n3, n4] (t, p, w) = Returns (t', p', w') \<and>
    ts_state t' = Idle \<and> ts_current_bundle t' = None \<and> \<not> has_pending (ts_tracker t') \<and>
    next_nonce (ts_tracker t') = next_nonce (ts_tracker t) + 1 \<and>
    entries_of p' = {#e \<in># entries_of (env p). pe_id e \<notin> packed_id E ` set (bd_ops b)#}"
  using assms by (rule bundle_completes) blast

theorem bundle_lifecycle_witness:
  "\<exists>t' p' w'. task_run (sample_env node5_mined) id [0, 1, 2, 3]
      (sample_task Submitting sample_tracker (Some sample_bundle), sample_pool, 0) = Returns (t', p', w') \<and>
    ts_state t' = Idle \<and> next_nonce (ts_tracker t') = 6"
proof -
  let ?t = "sample_task Submitting sample_tracker (Some sample_bundle)"
  have "evm_send_raw_transaction node5_mined raw w = (Inr (of_nat (length raw)), w)" for raw w
    by (simp add: node5_mined_def node5_def sample_provider_def io_return_def)
  then have "cooperative (sample_env node5_mined) (ts_confirmation_depth ?t) 10"
    by (auto simp: cooperative_def direct_strategy_def returning_def direct_submit_def io_map_err_def
        sample_task_def task_new_def saturating_sub_def)
  moreover have "pool_inv sample_hashing (id sample_pool)" by (simp add: sample_pool_def sample_pool_inv)
  moreover have "next_nonce (ts_tracker ?t) = 5" "ts_state ?t = Submitting"
      "ts_current_bundle ?t = Some sample_bundle"
    by (simp_all add: next_nonce_def sample_task_def sample_tracker_def)
  ultimately show ?thesis
    using bundle_lifecycle [of ?t sample_bundle "sample_env node5_mined" 10 sample_hashing id sample_pool 0 1 2 3 0]
    by auto
qed

end
