(* ===== verification/Drain.thy ===== *)
theory Drain
  imports Bundler_Task
begin

text \<open>
  The bundler task over the proposer of \<open>crates/builder/src/proposer.rs\<close>, left alone with a
  pool and a node that works: how many steps it takes until every operation is mined.
\<close>

section \<open>A world without refusals\<close>

text \<open>
  Fees can be quoted, the base fee stays \<open>base\<close>, and every simulated bundle succeeds.
\<close>

definition quoting :: "'w fee_source \<Rightarrow> u128 \<Rightarrow> bool" where
  "quoting G base \<longleftrightarrow>
     (\<forall>w. \<exists>fees w'. fs_current_fees G w = (Inr fees, w')) \<and> (\<forall>w. \<exists>w'. fs_base_fee G w = (Inr base, w'))"

definition accepting :: "'w bundle_handler \<Rightarrow> bool" where
  "accepting B \<longleftrightarrow> (\<forall>ops beneficiary gas fees w. \<exists>w'. bh_call_handle_ops B ops beneficiary gas fees w = (Inr HoSuccess, w'))"

definition all_covered :: "proposer \<Rightarrow> u128 \<Rightarrow> operation_pool \<Rightarrow> bool" where
  "all_covered c base p \<longleftrightarrow>
     (\<forall>e\<in>#entries_of p. covers (uo_gas_fees (pe_uo e)) base (cs_min_max_priority_fee_per_gas (pp_chain_spec c)))"

lemma make_bundle_takes_best:
  assumes "quoting G base" "accepting B" "all_covered c base p"
    and "best_operations p (cs_max_bundle_size (pp_chain_spec c)) \<noteq> []"
  obtains fees w' where "make_bundle c B G p w =
    (Inr (bundle_of c fees (best_operations p (cs_max_bundle_size (pp_chain_spec c))) []), w')"
proof -
  let ?best = "best_operations p (cs_max_bundle_size (pp_chain_spec c))"
  obtain fees w1 where 1: "fs_current_fees G w = (Inr fees, w1)" using assms(1) unfolding quoting_def by blast
  obtain w2 where 2: "fs_base_fee G w1 = (Inr base, w2)" using assms(1) unfolding quoting_def by blast
  obtain w3 where 3: "bh_call_handle_ops B (packed_ops ?best) (pp_beneficiary c) (estimate_bundle_gas c ?best) fees w2 =
      (Inr HoSuccess, w3)"
    using assms(2) unfolding accepting_def by blast
  have "set ?best \<subseteq> set_mset (entries_of p)"
    by (auto simp: best_operations_def entries_of_def dest: in_set_takeD)
  then have "affordable c base ?best = ?best"
    using assms(3) by (auto simp: affordable_def all_covered_def filter_id_conv)
  then have "make_bundle c B G p w = (Inr (bundle_of c fees ?best []), w3)"
    using assms(4) by (simp add: make_bundle_def io_bind_def io_map_err_def 1 2 Let_def propose_loop.simps 3)
  then show thesis by (rule that)
qed

section \<open>What a round removes\<close>

lemma best_removed:
  assumes "pool_inv H p"
  shows "{#e \<in># entries_of p. pe_id e \<notin> pe_id ` set (best_operations p m)#} = mset (drop m (pl_ordered p))"
proof -
  let ?o = "pl_ordered p"
  have split: "entries_of p = mset (take m ?o) + mset (drop m ?o)"
    by (metis append_take_drop_id entries_of_def mset_append)
  have "distinct (take m ?o @ drop m ?o)"
    using pool_invD(4) [OF assms] oc.sorted_distinct by simp
  then have apart: "set (take m ?o) \<inter> set (drop m ?o) = {}" by (simp only: distinct_append)
  have same: "e = e'" if "e \<in># entries_of p" "e' \<in># entries_of p" "pe_id e = pe_id e'" for e e'
    using that by_id_iff [OF assms, of "pe_id e'"] by (metis option.inject)
  have "{#e \<in># mset (take m ?o). pe_id e \<notin> pe_id ` set (take m ?o)#} = {#}"
    by (auto simp: filter_mset_eq_conv)
  moreover have "pe_id e \<notin> pe_id ` set (take m ?o)" if e: "e \<in># mset (drop m ?o)" for e
  proof
    assume "pe_id e \<in> pe_id ` set (take m ?o)"
    then obtain e' where e': "e' \<in> set (take m ?o)" "pe_id e = pe_id e'" by auto
    then have "e = e'" using same [of e e'] e by (simp add: split)
    then show False using e e'(1) apart by auto
  qed
  then have "{#e \<in># mset (drop m ?o). pe_id e \<notin> pe_id ` set (take m ?o)#} = mset (drop m ?o)"
    by (simp only: filter_mset_eq_conv) simp
  ultimately show ?thesis by (simp add: best_operations_def split)
qed

section \<open>One round\<close>

text \<open>
  Six steps from \<open>Idle\<close> back to \<open>Idle\<close>: the best operations are proposed, submitted, mined and
  confirmed, and the rest of the pool is untouched.
\<close>

definition drain_inv :: "'w task_env \<Rightarrow> proposer \<Rightarrow> u128 \<Rightarrow> u64 \<Rightarrow> task \<Rightarrow> operation_pool \<Rightarrow> bool" where
  "drain_inv E c base depth t p \<longleftrightarrow>
     ts_state t = Idle \<and> ts_confirmation_depth t = depth \<and> pool_inv (te_hashing E) p \<and> all_covered c base p"

lemma idle_round:
  assumes "te_proposer E = bundle_proposer_impl c B G" "quoting G base" "accepting B" "cooperative E depth n"
    and "drain_inv E c base depth t p" "pool_size p \<noteq> 0" "0 < cs_max_bundle_size (pp_chain_spec c)"
  obtains t' p' w' where "task_run E id [n1, n2, n3, n4, n5, n6] (t, p, w) = Returns (t', p', w')"
    "drain_inv E c base depth t' p'" "pool_size p' = pool_size p - cs_max_bundle_size (pp_chain_spec c)"
    "next_nonce (ts_tracker t') = next_nonce (ts_tracker t) + 1"
proof -
  let ?m = "cs_max_bundle_size (pp_chain_spec c)" and ?H = "te_hashing E"
  let ?best = "best_operations p ?m"
  have idle: "ts_state t = Idle" "ts_confirmation_depth t = depth" and inv: "pool_inv ?H p" and cov: "all_covered c base p"
    using assms(5) by (simp_all add: drain_inv_def)
  have size: "pool_size p = length (pl_ordered p)"
    using pool_size_entries [OF inv] by (simp add: entries_of_def)
  then have best: "?best \<noteq> []" using assms(6,7) by (auto simp: best_operations_def)
  obtain fees w1 where make: "make_bundle c B G p w = (Inr (bundle_of c fees ?best []), w1)"
    using make_bundle_takes_best [OF assms(2,3) cov best] .
  let ?b = "bundle_of c fees ?best []"
  have 1: "task_step E id n1 (t, p, w) = Returns (t\<lparr>ts_state := Building\<rparr>, p, w)"
    using assms(6) idle by (simp add: task_step_def handle_def handle_idle_def)
  have 2: "task_step E id n2 (t\<lparr>ts_state := Building\<rparr>, p, w) =
      Returns (t\<lparr>ts_state := Submitting, ts_current_bundle := Some ?b\<rparr>, p, w1)"
    using make best assms(1)
    by (simp add: task_step_def handle_def handle_building_def bundle_proposer_impl_def bundle_is_empty_def
        bundle_of_def remove_rejected_def)
  let ?t2 = "t\<lparr>ts_state := Submitting, ts_current_bundle := Some ?b\<rparr>"
  have coop: "cooperative E (ts_confirmation_depth ?t2) n" using assms(4) idle by simp
  have inv': "pool_inv ?H (id p)" using inv by simp
  obtain t' p' w' where fin: "task_run E id [n3, n4, n5, n6] (?t2, p, w1) = Returns (t', p', w')"
      "ts_state t' = Idle" "next_nonce (ts_tracker t') = next_nonce (ts_tracker ?t2) + 1"
      "ts_confirmation_depth t' = ts_confirmation_depth ?t2"
      "pool_inv ?H p'"
      "entries_of p' = {#e \<in># entries_of (id p). pe_id e \<notin> packed_id E ` set (bd_ops ?b)#}"
    by (rule bundle_completes [where env = id and t = ?t2 and p = p and H = ?H and b = ?b and n = n, OF _ _ coop inv'])
      simp_all
  have "set ?best \<subseteq> set_mset (entries_of p)"
    by (auto simp: best_operations_def entries_of_def dest: in_set_takeD)
  then have "\<forall>e\<in>set ?best. entry_ok ?H e" using pool_invD(10) [OF inv] by blast
  then have "packed_id E ` set (bd_ops ?b) = pe_id ` set ?best"
    using packed_ids [of ?best ?H E] by (simp add: bundle_of_def)
  then have ents: "entries_of p' = mset (drop ?m (pl_ordered p))"
    using fin(6) best_removed [OF inv, of ?m] by simp
  have "pool_size p' = pool_size p - ?m" using pool_size_entries [OF fin(5)] ents size by simp
  moreover have "set_mset (entries_of p') \<subseteq> set_mset (entries_of p)" using fin(6) by auto
  then have "drain_inv E c base depth t' p'"
    using fin(2,4,5) cov idle by (auto simp: drain_inv_def all_covered_def)
  moreover have "task_run E id [n1, n2, n3, n4, n5, n6] (t, p, w) = Returns (t', p', w')"
    using fin(1) by (simp add: 1 2)
  ultimately show thesis using that fin(3) by simp
qed

section \<open>All rounds\<close>

text \<open>How many bundles \<open>n\<close> operations need.\<close>

definition rounds :: "nat \<Rightarrow> nat \<Rightarrow> nat" where
  "rounds m n = (n + m - 1) div m"

lemma rounds_Suc:
  assumes "rounds m n = Suc k" "0 < m"
  shows "n \<noteq> 0" "rounds m (n - m) = k"
proof -
  have "rounds m 0 = 0" using assms(2) by (simp add: rounds_def)
  then show "n \<noteq> 0" using assms(1) by (metis nat.distinct(1))
  show "rounds m (n - m) = k"
  proof (cases "m \<le> n")
    case True
    have "rounds m n = (n - 1 + m) div m" using True assms(2) by (simp add: rounds_def)
    also have "\<dots> = Suc ((n - 1) div m)" using assms(2) by (simp only: div_add_self2 Suc_eq_plus1)
    also have "(n - 1) div m = rounds m (n - m)" using True by (simp add: rounds_def)
    finally show ?thesis using assms(1) by simp
  next
    case False
    have "rounds m (n - m) = 0" using False assms(2) by (simp add: rounds_def)
    moreover have "rounds m n < 2"
      unfolding rounds_def using False assms(2) by (intro less_mult_imp_div_less) simp
    ultimately show ?thesis using assms(1) by simp
  qed
qed

lemma rounds_0: "rounds m n = 0 \<Longrightarrow> 0 < m \<Longrightarrow> n = 0"
  by (cases n) (auto simp: rounds_def div_eq_0_iff)

lemma drains:
  assumes "te_proposer E = bundle_proposer_impl c B G" "quoting G base" "accepting B" "cooperative E depth n"
    and "0 < cs_max_bundle_size (pp_chain_spec c)"
    and "rounds (cs_max_bundle_size (pp_chain_spec c)) (pool_size p) = k" "length nows = 6 * k"
    and "drain_inv E c base depth t p"
  shows "\<exists>t' p' w'. task_run E id nows (t, p, w) = Returns (t', p', w') \<and> drain_inv E c base depth t' p' \<and>
    pool_size p' = 0 \<and> next_nonce (ts_tracker t') = next_nonce (ts_tracker t) + of_nat k"
  using assms(6-8)
proof (induction k arbitrary: nows t p w)
  case 0
  then show ?case using rounds_0 [OF _ assms(5)] by simp
next
  case (Suc k)
  let ?m = "cs_max_bundle_size (pp_chain_spec c)"
  note more = rounds_Suc [OF Suc.prems(1) assms(5)]
  have "length (take 6 nows) = Suc (Suc (Suc (Suc (Suc (Suc 0)))))" using Suc.prems(2) by simp
  then obtain n1 n2 n3 n4 n5 n6 where first: "take 6 nows = [n1, n2, n3, n4, n5, n6]"
    unfolding length_Suc_conv by auto
  obtain t1 p1 w1 where 1: "task_run E id [n1, n2, n3, n4, n5, n6] (t, p, w) = Returns (t1, p1, w1)"
    "drain_inv E c base depth t1 p1" "pool_size p1 = pool_size p - ?m"
    "next_nonce (ts_tracker t1) = next_nonce (ts_tracker t) + 1"
    by (rule idle_round [OF assms(1-4) Suc.prems(3) more(1) assms(5)])
  have "rounds ?m (pool_size p1) = k" "length (drop 6 nows) = 6 * k" using more(2) 1(3) Suc.prems(2) by simp_all
  from Suc.IH [OF this 1(2), of w1] obtain t' p' w' where
    2: "task_run E id (drop 6 nows) (t1, p1, w1) = Returns (t', p', w')" "drain_inv E c base depth t' p'"
      "pool_size p' = 0" "next_nonce (ts_tracker t') = next_nonce (ts_tracker t1) + of_nat k" by blast
  have "task_run E id ([n1, n2, n3, n4, n5, n6] @ drop 6 nows) (t, p, w) = Returns (t', p', w')"
    unfolding task_run_append 1(1) run.case by (rule 2(1))
  then have "task_run E id nows (t, p, w) = Returns (t', p', w')" by (metis first append_take_drop_id)
  moreover have "next_nonce (ts_tracker t') = next_nonce (ts_tracker t) + of_nat (Suc k)" using 2(4) 1(4) by simp
  ultimately show ?case using 2(2,3) by blast
qed

section \<open>Properties\<close>

text \<open>
  Claim C12.  Every operation is mined in bounded time: with a node that cooperates, a
  simulation that succeeds and operations that cover the base fee, a task that is left alone
  with \<open>n\<close> operations and bundles of at most \<open>m\<close> has an empty pool after six steps for each of
  the \<open>n / m\<close> bundles, rounded up, and has used as many nonces.
\<close>

theorem pool_drains:
  assumes "te_proposer E = bundle_proposer_impl c B G" "quoting G base" "accepting B"
    and "cooperative E (ts_confirmation_depth t) n"
    and "ts_state t = Idle" "pool_inv (te_hashing E) p"
    and "\<forall>e\<in>#entries_of p. covers (uo_gas_fees (pe_uo e)) base (cs_min_max_priority_fee_per_gas (pp_chain_spec c))"
    and "m = cs_max_bundle_size (pp_chain_spec c)" "0 < m"
    and "length nows = 6 * ((pool_size p + m - 1) div m)"
  shows "\<exists>t' p' w'. task_run E id nows (t, p, w) = Returns (t', p', w') \<and>
    ts_state t' = Idle \<and> entries_of p' = {#} \<and>
    next_nonce (ts_tracker t') = next_nonce (ts_tracker t) + of_nat ((pool_size p + m - 1) div m)"
proof -
  have "drain_inv E c base (ts_confirmation_depth t) t p"
    using assms(5-7) by (simp add: drain_inv_def all_covered_def)
  from drains [OF assms(1-4) assms(9) [unfolded assms(8)] refl _ this, of nows w] assms(8,10)
  obtain t' p' w' where run: "task_run E id nows (t, p, w) = Returns (t', p', w')"
      "drain_inv E c base (ts_confirmation_depth t) t' p'" "pool_size p' = 0"
      "next_nonce (ts_tracker t') = next_nonce (ts_tracker t) + of_nat ((pool_size p + m - 1) div m)"
    by (auto simp: rounds_def)
  have "pool_inv (te_hashing E) p'" "ts_state t' = Idle" using run(2) by (simp_all add: drain_inv_def)
  then have "entries_of p' = {#}" using pool_size_entries run(3) by simp
  then show ?thesis using run \<open>ts_state t' = Idle\<close> by blast
qed

text \<open>Two operations and bundles of one.\<close>

definition single_proposer :: proposer where
  "single_proposer = proposer_new (chain_spec_dev\<lparr>cs_max_bundle_size := 1\<rparr>) 5"

definition single_env :: "u64 task_env" where
  "single_env = (sample_env node5_mined)
     \<lparr>te_proposer := bundle_proposer_impl single_proposer happy_handler (fixed_fees (gas_fees_new 20 1) 15)\<rparr>"

theorem pool_drains_witness:
  "\<exists>t' p' w'. task_run single_env id (replicate 12 0) (sample_task Idle sample_tracker None, sample_pool, 0) =
      Returns (t', p', w') \<and> entries_of p' = {#} \<and> next_nonce (ts_tracker t') = 7"
proof -
  let ?t = "sample_task Idle sample_tracker None" and ?G = "fixed_fees (gas_fees_new 20 1) 15"
  have quotes: "quoting ?G 15" "accepting happy_handler"
    by (simp_all add: quoting_def accepting_def fixed_fees_def happy_handler_def io_return_def)
  have proposer: "te_proposer single_env = bundle_proposer_impl single_proposer happy_handler ?G"
    by (simp add: single_env_def)
  have "evm_send_raw_transaction node5_mined raw w = (Inr (of_nat (length raw)), w)" for raw w
    by (simp add: node5_mined_def node5_def sample_provider_def io_return_def)
  then have coop: "cooperative single_env (ts_confirmation_depth ?t) 10"
    by (auto simp: cooperative_def direct_strategy_def returning_def direct_submit_def io_map_err_def
        sample_task_def task_new_def saturating_sub_def single_env_def)
  have inv: "pool_inv (te_hashing single_env) sample_pool"
    by (simp add: single_env_def sample_pool_def sample_pool_inv)
  have "\<forall>e\<in>set (pl_ordered sample_pool). pe_uo e \<in> {sample_uo 1 0 30 11, sample_uo 2 0 40 12}"
    by (simp add: sample_pool_def pool_run_def pool_eval)
  then have covered: "\<forall>e\<in>#entries_of sample_pool. covers (uo_gas_fees (pe_uo e)) 15
      (cs_min_max_priority_fee_per_gas (pp_chain_spec single_proposer))"
    by (auto simp: entries_of_def covers_def uo_gas_fees_def single_proposer_def proposer_new_def chain_spec_dev_def
        sample_uo_def)
  have max: "1 = cs_max_bundle_size (pp_chain_spec single_proposer)"
    by (simp add: single_proposer_def proposer_new_def)
  have size: "pool_size sample_pool = 2" by (simp add: sample_pool_def pool_run_def pool_eval)
  have "ts_state ?t = Idle" "next_nonce (ts_tracker ?t) = 5"
    by (simp_all add: sample_task_def next_nonce_def sample_tracker_def)
  with pool_drains [OF proposer quotes coop _ inv covered max, of "replicate 12 0" 0] size show ?thesis by auto
qed

end
