(* ===== verification/Status_Tracker.thy ===== *)
theory Status_Tracker
  imports Hash_Map
begin

text \<open>
  \<open>crates/pool/src/status.rs\<close>: the lifecycle status of user operations, kept for a limited
  time.  The clock is an argument of the operations that read it.
\<close>

section \<open>State\<close>

datatype user_op_status = Received | Validated | Pooled | Submitted | Included | Finalized | Failed

text \<open>\<open>Display\<close> of a status.\<close>

fun display_status :: "user_op_status \<Rightarrow> string" where
  "display_status Received = ''received''"
| "display_status Validated = ''validated''"
| "display_status Pooled = ''pooled''"
| "display_status Submitted = ''submitted''"
| "display_status Included = ''included''"
| "display_status Finalized = ''finalized''"
| "display_status Failed = ''failed''"

record status_entry =
  se_status :: user_op_status
  se_updated_at :: nat
  se_detail :: "string option"

record status_tracker =
  st_entries :: "(b256, status_entry) hmap"
  st_ttl :: nat

section \<open>Operations\<close>

definition status_new :: "nat \<Rightarrow> status_tracker" where
  "status_new ttl = \<lparr>st_entries = hm_empty, st_ttl = ttl\<rparr>"

definition status_default :: status_tracker where
  "status_default = status_new (from_secs 3600)"

definition set_status :: "nat \<Rightarrow> b256 \<Rightarrow> user_op_status \<Rightarrow> status_tracker \<Rightarrow> status_tracker" where
  "set_status now h status k =
     k\<lparr>st_entries := hm_insert h \<lparr>se_status = status, se_updated_at = now, se_detail = None\<rparr> (st_entries k)\<rparr>"

definition set_status_with_detail ::
  "nat \<Rightarrow> b256 \<Rightarrow> user_op_status \<Rightarrow> string \<Rightarrow> status_tracker \<Rightarrow> status_tracker" where
  "set_status_with_detail now h status detail k =
     k\<lparr>st_entries :=
         hm_insert h \<lparr>se_status = status, se_updated_at = now, se_detail = Some detail\<rparr> (st_entries k)\<rparr>"

definition get_status :: "status_tracker \<Rightarrow> b256 \<Rightarrow> user_op_status option" where
  "get_status k h = map_option se_status (hm_get (st_entries k) h)"

definition get_status_detail :: "status_tracker \<Rightarrow> b256 \<Rightarrow> (user_op_status \<times> string option) option" where
  "get_status_detail k h = map_option (\<lambda>e. (se_status e, se_detail e)) (hm_get (st_entries k) h)"

definition cleanup :: "nat \<Rightarrow> status_tracker \<Rightarrow> status_tracker" where
  "cleanup now k =
     k\<lparr>st_entries :=
         hm_retain (\<lambda>_ e. if now - se_updated_at e < st_ttl k then Some e else None) (st_entries k)\<rparr>"

definition status_len :: "status_tracker \<Rightarrow> nat" where
  "status_len k = hm_len (st_entries k)"

definition status_is_empty :: "status_tracker \<Rightarrow> bool" where
  "status_is_empty k \<longleftrightarrow> st_entries k = hm_empty"

section \<open>Histories\<close>

text \<open>A history of the tracker, with the time of every call.\<close>

datatype status_call = SetStatus nat b256 user_op_status "string option" | Cleanup nat

fun apply_call :: "status_call \<Rightarrow> status_tracker \<Rightarrow> status_tracker" where
  "apply_call (SetStatus now h status None) k = set_status now h status k"
| "apply_call (SetStatus now h status (Some detail)) k = set_status_with_detail now h status detail k"
| "apply_call (Cleanup now) k = cleanup now k"

definition status_run :: "nat \<Rightarrow> status_call list \<Rightarrow> status_tracker" where
  "status_run ttl cs = fold apply_call cs (status_new ttl)"

lemma status_run_simps [simp]:
  "status_run ttl [] = status_new ttl"
  "status_run ttl (cs @ [c]) = apply_call c (status_run ttl cs)"
  by (simp_all add: status_run_def)

lemma apply_set [simp]:
  "apply_call (SetStatus now h status d) k =
     k\<lparr>st_entries := hm_insert h \<lparr>se_status = status, se_updated_at = now, se_detail = d\<rparr> (st_entries k)\<rparr>"
  by (cases d) (simp_all add: set_status_def set_status_with_detail_def)

declare apply_call.simps(1,2) [simp del]

lemma status_run_inv [simp]: "hm_inv (st_entries (status_run ttl cs))" "st_ttl (status_run ttl cs) = ttl"
proof (induction cs rule: rev_induct)
  case (snoc c cs)
  {
    case 1
    with snoc show ?case by (cases c) (simp_all add: cleanup_def)
  next
    case 2
    with snoc show ?case by (cases c) (simp_all add: cleanup_def)
  }
qed (simp_all add: status_new_def)

text \<open>A call that leaves the entry of \<open>h\<close>, set at time \<open>t\<close>, in place.\<close>

fun keeps :: "nat \<Rightarrow> nat \<Rightarrow> b256 \<Rightarrow> status_call \<Rightarrow> bool" where
  "keeps ttl t h (SetStatus _ h' _ _) = (h' \<noteq> h)"
| "keeps ttl t h (Cleanup now) = (now - t < ttl)"

lemma get_apply_call:
  assumes "hm_inv (st_entries k)"
  shows "hm_get (st_entries (apply_call c k)) h = Some e \<longleftrightarrow>
    c = SetStatus (se_updated_at e) h (se_status e) (se_detail e) \<or>
    hm_get (st_entries k) h = Some e \<and> keeps (st_ttl k) (se_updated_at e) h c"
  using assms
  by (cases c) (auto simp: cleanup_def hm.get_retain split: option.splits if_splits)

lemma get_status_run:
  "hm_get (st_entries (status_run ttl cs)) h = Some e \<longleftrightarrow>
   (\<exists>pre post. cs = pre @ SetStatus (se_updated_at e) h (se_status e) (se_detail e) # post \<and>
      (\<forall>c\<in>set post. keeps ttl (se_updated_at e) h c))"
  (is "_ \<longleftrightarrow> (\<exists>pre post. cs = pre @ ?s # post \<and> ?ok post)")
proof (induction cs rule: rev_induct)
  case (snoc c cs)
  have "(\<exists>pre post. cs @ [c] = pre @ ?s # post \<and> ?ok post) \<longleftrightarrow>
      c = ?s \<or> (\<exists>pre post. cs = pre @ ?s # post \<and> ?ok post) \<and> keeps ttl (se_updated_at e) h c"
    (is "?l \<longleftrightarrow> ?r")
  proof
    assume ?l
    then obtain pre post where "cs @ [c] = pre @ ?s # post" "?ok post" by blast
    then show ?r by (cases post rule: rev_cases) auto
  next
    assume ?r
    then show ?l
    proof (elim disjE conjE exE)
      fix pre post
      assume "cs = pre @ ?s # post" "?ok post" "keeps ttl (se_updated_at e) h c"
      then have "cs @ [c] = pre @ ?s # (post @ [c]) \<and> ?ok (post @ [c])" by simp
      then show ?l by blast
    qed force
  qed
  with snoc show ?case using get_apply_call [of "status_run ttl cs" c h e] by simp
qed (simp add: status_new_def)

section \<open>Properties\<close>

text \<open>
  The tracker reports a status exactly when it is the last one set for the
  operation and no cleanup since came a whole time-to-live or more after it was set.
\<close>

theorem status_is_last_set:
  "get_status_detail (status_run ttl cs) h = Some (status, detail) \<longleftrightarrow>
   (\<exists>t pre post. cs = pre @ SetStatus t h status detail # post \<and>
      (\<forall>c\<in>set post. case c of SetStatus _ h' _ _ \<Rightarrow> h' \<noteq> h | Cleanup now \<Rightarrow> now - t < ttl))"
proof -
  have keeps: "keeps ttl t h = (\<lambda>c. case c of SetStatus _ h' _ _ \<Rightarrow> h' \<noteq> h | Cleanup now \<Rightarrow> now - t < ttl)" for t
    by (simp add: fun_eq_iff split: status_call.split)
  have "get_status_detail (status_run ttl cs) h = Some (status, detail) \<longleftrightarrow>
      (\<exists>t. hm_get (st_entries (status_run ttl cs)) h =
         Some \<lparr>se_status = status, se_updated_at = t, se_detail = detail\<rparr>)"
    by (auto simp: get_status_detail_def) (metis status_entry.surjective old.unit.exhaust)
  then show ?thesis by (simp only: get_status_run status_entry.select_convs keeps)
qed

theorem status_is_last_set_witness:
  "get_status_detail (status_run 10 [SetStatus 0 1 Pooled None, SetStatus 3 1 Submitted None,
     SetStatus 4 2 Failed (Some ''AA21''), Cleanup 12]) 1 = Some (Submitted, None)"
proof -
  have "[SetStatus 0 1 Pooled None, SetStatus 3 1 Submitted None, SetStatus 4 2 Failed (Some ''AA21''), Cleanup 12] =
      [SetStatus 0 1 Pooled None] @ SetStatus 3 1 Submitted None # [SetStatus 4 2 Failed (Some ''AA21''), Cleanup 12]"
    by simp
  moreover have "\<forall>c\<in>set [SetStatus 4 2 Failed (Some ''AA21''), Cleanup 12].
      case c of SetStatus _ h' _ _ \<Rightarrow> h' \<noteq> (1 :: b256) | Cleanup now \<Rightarrow> now - 3 < (10 :: nat)"
    by simp
  ultimately show ?thesis by (subst status_is_last_set) blast
qed

end
