(* ===== verification/Pool_Threads.thy ===== *)
theory Pool_Threads
  imports Op_Pool
begin

text \<open>
  \<open>crates/pool/src/pool.rs\<close> under concurrency.  The five locks of the pool are taken one
  after the other, so a call is a sequence of atomic steps between which the calls of other
  threads run: one constructor of \<open>pool_pc\<close> for each point where a lock is next taken, with
  the local variables that are live there.  \<open>Op_Pool\<close> models a call as one step; the lemmas
  below show that a call left alone is that step, and the properties compare it with the
  abstract pool and show what interleaved calls can do.
\<close>

section \<open>Program points\<close>

datatype pool_result =
    AddResult "pool_error + b256"
  | RemoveResult "pool_entry option"
  | ClearResult

text \<open>What follows a removal: the rest of an \<open>add\<close>, or the end of the call.\<close>

datatype after_remove = RestOfAdd user_operation u128 | EndOfRemove

datatype pool_pc =
    AddKnown user_operation u128
  | AddExisting user_operation u128
  | AddSenderCount user_operation u128
  | AddSize user_operation u128
  | AddSequence user_operation u128
  | AddByHash pool_entry
  | AddById pool_entry
  | AddOrdered pool_entry
  | AddCount pool_entry
| AddReport pool_entry
  | RemoveHash pool_entry after_remove
  | RemoveId pool_entry after_remove
  | RemoveOrdered pool_entry after_remove
  | RemoveCount pool_entry after_remove
  | FindHash b256
  | FindId user_operation_id
  | ClearHash
  | ClearId
  | ClearOrdered
  | ClearCount
  | Done pool_result

fun after_removal :: "pool_entry \<Rightarrow> after_remove \<Rightarrow> pool_pc" where
  "after_removal entry (RestOfAdd uo base_fee) = AddSenderCount uo base_fee"
| "after_removal entry EndOfRemove = Done (RemoveResult (Some entry))"

section \<open>Atomic steps\<close>

text \<open>The decrement under the lock of the sender counters.\<close>

definition uncount :: "address \<Rightarrow> (address, nat) hmap \<Rightarrow> (address, nat) hmap" where
  "uncount sender counts =
     (case hm_get counts sender of
        None \<Rightarrow> counts
      | Some c \<Rightarrow>
          (let c' = c - 1 in if c' = 0 then hm_remove sender counts else hm_insert sender c' counts))"

fun micro :: "hashing \<Rightarrow> pool_pc \<Rightarrow> operation_pool \<Rightarrow> pool_pc \<times> operation_pool" where
  "micro H (AddKnown uo base_fee) p =
     (if hm_contains (pl_by_hash p) (uo_hash H uo)
      then (Done (AddResult (Inl (AlreadyKnown (uo_hash H uo)))), p)
      else (AddExisting uo base_fee, p))"
| "micro H (AddExisting uo base_fee) p =
     (case hm_get (pl_by_id p) (uo_id uo) of
        None \<Rightarrow> (AddSenderCount uo base_fee, p)
      | Some entry \<Rightarrow>
          (let existing_fee = uo_max_fee_per_gas (pe_uo entry);
               new_fee = uo_max_fee_per_gas uo
           in if new_fee < min_bump (pl_config p) existing_fee
              then (Done (AddResult (Inl (ReplacementUnderpriced existing_fee new_fee))), p)
              else (RemoveHash entry (RestOfAdd uo base_fee), p)))"
| "micro H (AddSenderCount uo base_fee) p =
     (let sender = id_sender (uo_id uo);
          cnt = (case hm_get (pl_sender_count p) sender of Some c \<Rightarrow> c | None \<Rightarrow> 0)
      in if pc_max_ops_per_sender (pl_config p) \<le> cnt
         then (Done (AddResult (Inl (PoolOther (SenderLimit sender cnt (pc_max_ops_per_sender (pl_config p)))))), p)
         else (AddSize uo base_fee, p))"
| "micro H (AddSize uo base_fee) p =
     (if pc_max_size (pl_config p) \<le> pool_size p
      then (Done (AddResult (Inl (PoolFull (pc_max_size (pl_config p))))), p)
      else (AddSequence uo base_fee, p))"
| "micro H (AddSequence uo base_fee) p =
     (AddByHash (pool_entry_new H uo base_fee (pl_next_sequence p)),
      p\<lparr>pl_next_sequence := saturating_add (pl_next_sequence p) 1\<rparr>)"
| "micro H (AddByHash entry) p =
     (AddById entry, p\<lparr>pl_by_hash := hm_insert (pe_hash entry) entry (pl_by_hash p)\<rparr>)"
| "micro H (AddById entry) p =
     (AddOrdered entry, p\<lparr>pl_by_id := hm_insert (pe_id entry) entry (pl_by_id p)\<rparr>)"
| "micro H (AddOrdered entry) p =
     (AddCount entry, p\<lparr>pl_ordered := bts_insert order_cmp entry (pl_ordered p)\<rparr>)"
| "micro H (AddCount entry) p =
     (AddReport entry,
      p\<lparr>pl_sender_count := hm_upsert (id_sender (pe_id entry)) 0 Suc (pl_sender_count p)\<rparr>)"
| "micro H (AddReport entry) p =
     (let pool_size_now = pool_size p in (Done (AddResult (Inr (pe_hash entry))), p))"
| "micro H (RemoveHash entry k) p =
     (RemoveId entry k, p\<lparr>pl_by_hash := hm_remove (pe_hash entry) (pl_by_hash p)\<rparr>)"
| "micro H (RemoveId entry k) p =
     (RemoveOrdered entry k, p\<lparr>pl_by_id := hm_remove (pe_id entry) (pl_by_id p)\<rparr>)"
| "micro H (RemoveOrdered entry k) p =
     (RemoveCount entry k, p\<lparr>pl_ordered := bts_remove order_cmp entry (pl_ordered p)\<rparr>)"
| "micro H (RemoveCount entry k) p =
     (after_removal entry k,
      p\<lparr>pl_sender_count := uncount (id_sender (pe_id entry)) (pl_sender_count p)\<rparr>)"
| "micro H (FindHash h) p =
     (case hm_get (pl_by_hash p) h of
        None \<Rightarrow> (Done (RemoveResult None), p)
      | Some entry \<Rightarrow> (RemoveHash entry EndOfRemove, p))"
| "micro H (FindId i) p =
     (case hm_get (pl_by_id p) i of
        None \<Rightarrow> (Done (RemoveResult None), p)
      | Some entry \<Rightarrow> (RemoveHash entry EndOfRemove, p))"
| "micro H ClearHash p = (ClearId, p\<lparr>pl_by_hash := hm_empty\<rparr>)"
| "micro H ClearId p = (ClearOrdered, p\<lparr>pl_by_id := hm_empty\<rparr>)"
| "micro H ClearOrdered p = (ClearCount, p\<lparr>pl_ordered := []\<rparr>)"
| "micro H ClearCount p = (Done ClearResult, p\<lparr>pl_sender_count := hm_empty\<rparr>)"
| "micro H (Done r) p = (Done r, p)"

section \<open>Threads\<close>

text \<open>
  Each thread works on one call; when it has a result it may start another.  The threads
  share the pool and are scheduled in any order.
\<close>

fun call_start :: "pool_pc \<Rightarrow> bool" where
  "call_start (AddKnown uo base_fee) = True"
| "call_start (FindHash h) = True"
| "call_start (FindId i) = True"
| "call_start ClearHash = True"
| "call_start _ = False"

type_synonym threads = "pool_pc list \<times> operation_pool"

inductive threads_step :: "hashing \<Rightarrow> threads \<Rightarrow> threads \<Rightarrow> bool" for H where
  runs: "i < length ts \<Longrightarrow> micro H (ts ! i) p = (pc, p') \<Longrightarrow> threads_step H (ts, p) (ts[i := pc], p')"
| calls: "i < length ts \<Longrightarrow> ts ! i = Done r \<Longrightarrow> call_start pc \<Longrightarrow> threads_step H (ts, p) (ts[i := pc], p)"

inductive_cases threads_stepE: "threads_step H s s'"

definition threads_reach :: "hashing \<Rightarrow> threads \<Rightarrow> threads \<Rightarrow> bool" where
  "threads_reach H = (threads_step H)\<^sup>*\<^sup>*"

text \<open>A given schedule: the indexes of the threads in the order in which they move.\<close>

definition move :: "hashing \<Rightarrow> nat \<Rightarrow> threads \<Rightarrow> threads" where
  "move H i s = (case micro H (fst s ! i) (snd s) of (pc, p) \<Rightarrow> ((fst s)[i := pc], p))"

definition schedule :: "hashing \<Rightarrow> nat list \<Rightarrow> threads \<Rightarrow> threads" where
  "schedule H is s = fold (move H) is s"

lemma schedule_simps [simp]:
  "schedule H [] s = s" "schedule H (i # is) s = schedule H is (move H i s)"
  by (simp_all add: schedule_def)

lemma schedule_reach: "\<forall>i\<in>set is. i < length (fst s) \<Longrightarrow> threads_reach H s (schedule H is s)"
proof (induction "is" arbitrary: s)
  case (Cons i "is")
  obtain pc p where m: "micro H (fst s ! i) (snd s) = (pc, p)" by (cases "micro H (fst s ! i) (snd s)")
  have "threads_step H (fst s, snd s) ((fst s)[i := pc], p)"
    using Cons.prems m by (intro threads_step.runs) auto
  then have "threads_step H s (move H i s)" using m by (simp add: move_def)
  moreover have "\<forall>j\<in>set is. j < length (fst (move H i s))" using Cons.prems m by (simp add: move_def)
  ultimately show ?case
    using Cons.IH [of "move H i s"] by (simp add: threads_reach_def converse_rtranclp_into_rtranclp)
qed (simp add: threads_reach_def)

section \<open>A call left alone\<close>

definition alone :: "hashing \<Rightarrow> nat \<Rightarrow> pool_pc \<times> operation_pool \<Rightarrow> pool_pc \<times> operation_pool" where
  "alone H n = (\<lambda>(pc, p). micro H pc p) ^^ n"

lemma alone_simps [simp]:
  "alone H 0 s = s" "alone H (Suc n) (pc, p) = alone H n (micro H pc p)"
  by (simp_all add: alone_def funpow_swap1)

lemma alone_done [simp]: "alone H n (Done r, p) = (Done r, p)"
  by (induction n) simp_all

lemma alone_add: "alone H (m + n) s = alone H n (alone H m s)"
  by (simp add: alone_def funpow_add add.commute [of m n])

lemma alone_remove:
  "alone H 4 (RemoveHash e k, p) = (after_removal e k, remove_inner e p)"
  by (simp add: numeral_eq_Suc remove_inner_def uncount_def Let_def)

lemma alone_insert:
  "alone H 6 (AddSequence uo b, p) = (Done (AddResult (Inr (uo_hash H uo))), insert_new H uo b p)"
  by (simp add: numeral_eq_Suc insert_new_def Let_def)

lemma alone_checked:
  "alone H 8 (AddSenderCount uo b, p) =
     (Done (AddResult (fst (add_checked H uo b p))), snd (add_checked H uo b p))"
proof -
  have "alone H 8 (AddSenderCount uo b, p) = alone H 6 (alone H 2 (AddSenderCount uo b, p))"
    using alone_add [of H 2 6] by simp
  also have "alone H 2 (AddSenderCount uo b, p) =
      (if fst (add_checked H uo b p) = Inr (uo_hash H uo) then (AddSequence uo b, p)
       else (Done (AddResult (fst (add_checked H uo b p))), p))"
    by (simp add: numeral_eq_Suc add_checked_def Let_def)
  finally show ?thesis
    using alone_insert [of H uo b p] by (auto simp: add_checked_def Let_def split: if_splits)
qed

lemma alone_le: "alone H m s = (Done r, p) \<Longrightarrow> m \<le> n \<Longrightarrow> alone H n s = (Done r, p)"
  using alone_add [of H m "n - m" s] by simp

lemma alone_add_call:
  "alone H 14 (AddKnown uo b, p) = (Done (AddResult (fst (pool_add H uo b p))), snd (pool_add H uo b p))"
proof (cases "hm_contains (pl_by_hash p) (uo_hash H uo)")
  case True
  have "alone H 1 (AddKnown uo b, p) = (Done (AddResult (Inl (AlreadyKnown (uo_hash H uo)))), p)"
    using True by (simp only: One_nat_def alone_simps micro.simps if_True)
  from alone_le [OF this, of 14] show ?thesis using True by (simp add: pool_add_def)
next
  case False
  then have first: "alone H (Suc n) (AddKnown uo b, p) = alone H n (AddExisting uo b, p)" for n
    by (simp only: alone_simps micro.simps if_False)
  show ?thesis
  proof (cases "hm_get (pl_by_id p) (uo_id uo)")
    case None
    have "alone H 10 (AddKnown uo b, p) = alone H 8 (AddSenderCount uo b, p)"
      using None first [of 9] alone_simps(2) [of H 8 "AddExisting uo b" p] by (simp del: alone_simps)
    then have "alone H 10 (AddKnown uo b, p) =
        (Done (AddResult (fst (pool_add H uo b p))), snd (pool_add H uo b p))"
      using alone_checked [of H uo b p] False None by (simp add: pool_add_def Let_def)
    then show ?thesis by (rule alone_le) simp
  next
    case (Some e)
    show ?thesis
    proof (cases "uo_max_fee_per_gas uo < min_bump (pl_config p) (uo_max_fee_per_gas (pe_uo e))")
      case True
      have "alone H 2 (AddKnown uo b, p) =
          (Done (AddResult (fst (pool_add H uo b p))), snd (pool_add H uo b p))"
        using Some True False by (simp add: pool_add_def numeral_eq_Suc)
      then show ?thesis by (rule alone_le) simp
    next
      case bump: False
      have "alone H 14 (AddKnown uo b, p) = alone H 12 (RemoveHash e (RestOfAdd uo b), p)"
        using Some bump first [of 13] alone_simps(2) [of H 12 "AddExisting uo b" p] by (simp del: alone_simps)
      also have "\<dots> = alone H 8 (alone H 4 (RemoveHash e (RestOfAdd uo b), p))"
        using alone_add [of H 4 8] by simp
      finally show ?thesis using Some bump False by (simp add: alone_remove alone_checked pool_add_def)
    qed
  qed
qed

lemma alone_find:
  "alone H 5 (FindHash h, p) = (Done (RemoveResult (fst (remove_by_hash h p))), snd (remove_by_hash h p))"
  "alone H 5 (FindId i, p) = (Done (RemoveResult (fst (remove_by_id i p))), snd (remove_by_id i p))"
proof -
  have five: "alone H 5 (pc, p) = alone H 4 (micro H pc p)" for pc
    using alone_simps(2) [of H 4 pc p] by (simp del: alone_simps)
  show "alone H 5 (FindHash h, p) = (Done (RemoveResult (fst (remove_by_hash h p))), snd (remove_by_hash h p))"
    by (cases "hm_get (pl_by_hash p) h") (simp_all add: five remove_by_hash_def alone_remove)
  show "alone H 5 (FindId i, p) = (Done (RemoveResult (fst (remove_by_id i p))), snd (remove_by_id i p))"
    by (cases "hm_get (pl_by_id p) i") (simp_all add: five remove_by_id_def alone_remove)
qed

section \<open>A call left alone implements the abstract pool\<close>

lemma alone_add_refines:
  assumes "pool_inv H p"
  shows "\<exists>r p'. alone H 14 (AddKnown uo b, p) = (Done (AddResult r), p') \<and> pool_inv H p' \<and>
    (case abs_add H (pl_config p) uo (new_entry H uo b p) (abs_pool p) of
       Inl err \<Rightarrow> r = Inl err \<and> p' = p
     | Inr m \<Rightarrow> r = Inr (uo_hash H uo) \<and> abs_pool p' = m)"
  unfolding alone_add_call
  using pool_add_abs [OF assms, of uo b] pool_add_inv [OF assms, of uo b]
  by (cases "pool_add H uo b p" rule: prod.exhaust) (auto split: sum.splits)

lemma abs_remove_inner:
  "pool_inv H p \<Longrightarrow> abs_pool (remove_inner e p) = (abs_pool p)(pe_id e := None)"
  by (simp add: abs_pool_def remove_inner_get)

lemma abs_pool_iff: "pool_inv H p \<Longrightarrow> abs_pool p i = Some e \<longleftrightarrow> e \<in># entries_of p \<and> pe_id e = i"
  by (simp add: abs_pool_def by_id_iff)

lemma abs_pool_entries: "pool_inv H p \<Longrightarrow> e \<in> ran (abs_pool p) \<longleftrightarrow> e \<in># entries_of p"
  by (auto simp: ran_def abs_pool_iff)

text \<open>No other id maps to an entry of the same hash.\<close>

lemma abs_hash_unique:
  assumes "pool_inv H p" "e \<in># entries_of p" "abs_pool p i = Some e'" "pe_hash e' = pe_hash e"
  shows "e' = e"
proof -
  have "hm_get (pl_by_hash p) (pe_hash e) = Some e" "hm_get (pl_by_hash p) (pe_hash e) = Some e'"
    using assms by (simp_all add: by_hash_iff abs_pool_iff)
  then show ?thesis by simp
qed

lemma remove_by_hash_abs:
  assumes "pool_inv H p"
  shows "fst (remove_by_hash h p) = Some e \<longleftrightarrow> e \<in> ran (abs_pool p) \<and> pe_hash e = h"
    and "abs_pool (snd (remove_by_hash h p)) i =
      (case abs_pool p i of Some e \<Rightarrow> if pe_hash e = h then None else Some e | None \<Rightarrow> None)"
proof -
  show "fst (remove_by_hash h p) = Some e \<longleftrightarrow> e \<in> ran (abs_pool p) \<and> pe_hash e = h"
    by (auto simp: remove_by_hash_def abs_pool_entries [OF assms] simp flip: by_hash_iff [OF assms] split: option.split)
  show "abs_pool (snd (remove_by_hash h p)) i =
      (case abs_pool p i of Some e \<Rightarrow> if pe_hash e = h then None else Some e | None \<Rightarrow> None)"
  proof (cases "hm_get (pl_by_hash p) h")
    case None
    then have "pe_hash e \<noteq> h" if "abs_pool p i = Some e" for e
      using that by (metis abs_pool_iff [OF assms] by_hash_iff [OF assms] option.distinct(1))
    with None show ?thesis by (simp add: remove_by_hash_def split: option.split)
  next
    case (Some e)
    then have e: "e \<in># entries_of p" "pe_hash e = h" by (simp_all add: by_hash_iff [OF assms])
    have "abs_pool p (pe_id e) = Some e" using e(1) by (simp add: abs_pool_iff [OF assms])
    moreover have "pe_hash e' \<noteq> h" if "abs_pool p i = Some e'" "i \<noteq> pe_id e" for e'
      using abs_hash_unique [OF assms e(1) that(1)] e(2) that abs_pool_iff [OF assms, of i e'] by auto
    ultimately show ?thesis
      using Some e(2) by (auto simp: remove_by_hash_def abs_remove_inner [OF assms] split: option.split)
  qed
qed

lemma remove_by_id_abs:
  assumes "pool_inv H p"
  shows "fst (remove_by_id i p) = abs_pool p i" "abs_pool (snd (remove_by_id i p)) = (abs_pool p)(i := None)"
proof -
  show "fst (remove_by_id i p) = abs_pool p i" by (simp add: remove_by_id_def abs_pool_def split: option.split)
  have "pe_id e = i" if "hm_get (pl_by_id p) i = Some e" for e using that by (simp add: by_id_iff [OF assms])
  moreover have "(abs_pool p)(i := None) = abs_pool p" if "hm_get (pl_by_id p) i = None"
    using that by (simp add: abs_pool_def fun_upd_idem)
  ultimately show "abs_pool (snd (remove_by_id i p)) = (abs_pool p)(i := None)"
    by (auto simp: remove_by_id_def abs_remove_inner [OF assms] split: option.split)
qed

lemma alone_find_refines:
  assumes "pool_inv H p"
  shows "\<exists>r p'. alone H 5 (FindHash h, p) = (Done (RemoveResult r), p') \<and> pool_inv H p' \<and>
      (\<forall>e. r = Some e \<longleftrightarrow> e \<in> ran (abs_pool p) \<and> pe_hash e = h) \<and>
      (\<forall>i. abs_pool p' i = (case abs_pool p i of Some e \<Rightarrow> if pe_hash e = h then None else Some e | None \<Rightarrow> None))"
    and "\<exists>p'. alone H 5 (FindId i, p) = (Done (RemoveResult (abs_pool p i)), p') \<and> pool_inv H p' \<and>
      abs_pool p' = (abs_pool p)(i := None)"
  using remove_by_hash_abs [OF assms] remove_by_id_abs [OF assms] remove_by_hash_inv [OF assms] remove_by_id_inv [OF assms]
  by (simp_all add: alone_find)

lemma alone_clear_refines:
  "\<exists>p'. alone H 4 (ClearHash, p) = (Done ClearResult, p') \<and> pool_inv H p' \<and> abs_pool p' = Map.empty"
proof -
  have "alone H 4 (ClearHash, p) = (Done ClearResult, pool_clear p)"
    by (simp add: numeral_eq_Suc pool_clear_def)
  moreover have "abs_pool (pool_clear p) = Map.empty" by (rule ext) (simp add: abs_pool_def pool_clear_def)
  ultimately show ?thesis by simp
qed

section \<open>The size of a shared pool\<close>

text \<open>A thread that has passed the size check and has not yet indexed its entry.\<close>

fun admitted :: "pool_pc \<Rightarrow> nat" where
  "admitted (AddSequence uo b) = 1"
| "admitted (AddByHash e) = 1"
| "admitted _ = 0"

lemma hm_len_insert: "hm_len (hm_insert k v m) \<le> Suc (hm_len m)"
  unfolding hm_insert_def hm_len_def by (induction m) auto

lemma hm_len_delete: "hm_len (hm_remove k m) \<le> hm_len m"
  by (simp add: hm_defs AList.delete_eq)

lemma hm_len_none: "hm_len hm_empty = 0"
  by (simp add: hm_defs)

lemma admitted_le: "admitted pc \<le> 1"
  by (cases pc) simp_all

lemma after_removal_not_admitted [simp]: "admitted (after_removal e k) = 0"
  by (cases k) simp_all

lemma micro_size:
  assumes "micro H pc p = (pc', p')"
  shows "pl_config p' = pl_config p"
    and "pool_size p' + admitted pc' \<le> pool_size p + admitted pc \<or>
      admitted pc' = 1 \<and> pool_size p' = pool_size p \<and> pool_size p < pc_max_size (pl_config p)"
proof -
  have "pl_config p' = pl_config p \<and> (pool_size p' + admitted pc' \<le> pool_size p + admitted pc \<or>
      admitted pc' = 1 \<and> pool_size p' = pool_size p \<and> pool_size p < pc_max_size (pl_config p))"
    using assms
    by (cases pc) (auto simp: pool_size_def Let_def hm_len_insert hm_len_delete hm_len_none split: option.splits if_splits)
  then show "pl_config p' = pl_config p"
    and "pool_size p' + admitted pc' \<le> pool_size p + admitted pc \<or>
      admitted pc' = 1 \<and> pool_size p' = pool_size p \<and> pool_size p < pc_max_size (pl_config p)" by blast+
qed

definition admissions :: "pool_pc list \<Rightarrow> nat" where
  "admissions ts = sum_list (map admitted ts)"

lemma admissions_le: "admissions ts \<le> length ts"
proof (induction ts)
  case (Cons pc ts)
  then show ?case using admitted_le [of pc] by (simp add: admissions_def)
qed (simp add: admissions_def)

lemma admissions_update:
  assumes "i < length ts"
  shows "admissions (ts[i := pc]) + admitted (ts ! i) = admissions ts + admitted pc"
proof -
  have "admitted (ts ! i) \<le> sum_list (map admitted ts)"
    using elem_le_sum_list [of i "map admitted ts"] assms by simp
  then show ?thesis using assms by (simp add: admissions_def map_update sum_list_update)
qed

definition size_inv :: "pool_config \<Rightarrow> nat \<Rightarrow> threads \<Rightarrow> bool" where
  "size_inv cfg n = (\<lambda>(ts, p). length ts = n \<and> pl_config p = cfg \<and>
     pool_size p + admissions ts + 1 \<le> pc_max_size cfg + n)"

lemma size_inv_step:
  assumes "threads_step H s s'" "size_inv cfg n s"
  shows "size_inv cfg n s'"
  using assms
proof (cases rule: threads_step.cases)
  case (runs i ts p pc p')
  have adm: "admissions (ts[i := pc]) + admitted (ts ! i) = admissions ts + admitted pc"
    using runs(3) by (rule admissions_update)
  have le: "admissions (ts[i := pc]) \<le> n" using admissions_le [of "ts[i := pc]"] runs(1) assms(2) by (simp add: size_inv_def)
  show ?thesis
    using micro_size [OF runs(4)] adm le assms(2) by (auto simp: runs(1,2) size_inv_def)
next
  case (calls i ts r pc p)
  have "admitted pc = 0" using calls(5) by (cases pc) simp_all
  then show ?thesis
    using admissions_update [OF calls(3), of pc] assms(2) by (simp add: calls(1,2,4) size_inv_def)
qed

lemma size_inv_reach:
  assumes "threads_reach H s s'" "size_inv cfg n s"
  shows "size_inv cfg n s'"
  using assms unfolding threads_reach_def
  by (induction rule: rtranclp_induct) (auto intro: size_inv_step)

section \<open>Properties\<close>

text \<open>
  Claim C16.  On a consistent pool, a call that no other thread interrupts implements the
  abstract pool, a map from operation ids to entries.  An addition ends within fourteen lock
  acquisitions: it reports exactly the abstract error and leaves the pool as it was, or it
  returns the operation's hash and the pool represents the abstract map with the new entry.
  A removal ends within five and takes out exactly the entry of that hash or id, which it
  returns; a clear ends within four with the empty map.
\<close>

theorem calls_alone_refine:
  assumes "pool_inv H p"
  shows "(\<exists>r p'. alone H 14 (AddKnown uo b, p) = (Done (AddResult r), p') \<and> pool_inv H p' \<and>
      (case abs_add H (pl_config p) uo (new_entry H uo b p) (abs_pool p) of
         Inl err \<Rightarrow> r = Inl err \<and> p' = p
       | Inr m \<Rightarrow> r = Inr (uo_hash H uo) \<and> abs_pool p' = m)) \<and>
    (\<exists>r p'. alone H 5 (FindHash h, p) = (Done (RemoveResult r), p') \<and> pool_inv H p' \<and>
      (\<forall>e. r = Some e \<longleftrightarrow> e \<in> ran (abs_pool p) \<and> pe_hash e = h) \<and>
      (\<forall>i. abs_pool p' i = (case abs_pool p i of Some e \<Rightarrow> if pe_hash e = h then None else Some e | None \<Rightarrow> None))) \<and>
    (\<exists>p'. alone H 5 (FindId i, p) = (Done (RemoveResult (abs_pool p i)), p') \<and> pool_inv H p' \<and>
      abs_pool p' = (abs_pool p)(i := None)) \<and>
    (\<exists>p'. alone H 4 (ClearHash, p) = (Done ClearResult, p') \<and> pool_inv H p' \<and> abs_pool p' = Map.empty)"
  using alone_add_refines [OF assms] alone_find_refines [OF assms] alone_clear_refines by blast

text \<open>A replacement needs all fourteen: after thirteen it has still to read the size.\<close>

lemma replacement_thirteen:
  assumes "pool_inv H p" "get_by_id p (uo_id uo) = Some e" "\<not> hm_contains (pl_by_hash p) (uo_hash H uo)"
    and "\<not> uo_max_fee_per_gas uo < min_bump (pl_config p) (uo_max_fee_per_gas (pe_uo e))"
  shows "\<exists>p'. alone H 13 (AddKnown uo b, p) = (AddReport (new_entry H uo b p), p')"
proof -
  have id: "hm_get (pl_by_id p) (uo_id uo) = Some e" using assms(2) by (simp add: get_by_id_def)
  let ?q = "remove_inner e p"
  have sq: "pl_next_sequence ?q = pl_next_sequence p" by (simp add: remove_inner_def Let_def)
  have "fst (add_checked H uo b ?q) = Inr (uo_hash H uo)"
    by (simp add: add_checked_replacement [OF assms(1) id])
  then have "alone H 2 (AddSenderCount uo b, ?q) = (AddSequence uo b, ?q)"
    by (simp add: numeral_eq_Suc add_checked_def Let_def split: if_splits)
  moreover have "alone H 5 (AddSequence uo b, ?q) = (AddReport (new_entry H uo b p), insert_new H uo b ?q)"
    by (simp add: numeral_eq_Suc insert_new_def Let_def sq)
  moreover have "alone H 2 (AddKnown uo b, p) = (RemoveHash e (RestOfAdd uo b), p)"
    using assms(3,4) id by (simp add: numeral_eq_Suc)
  moreover have "alone H 4 (RemoveHash e (RestOfAdd uo b), p) = (AddSenderCount uo b, ?q)"
    by (simp add: alone_remove)
  moreover have "alone H 13 s = alone H 5 (alone H 2 (alone H 4 (alone H 2 s)))" for s
    by (simp flip: alone_add)
  ultimately show ?thesis by simp
qed

theorem calls_alone_refine_witness:
  "let p = pool_run sample_hashing (pool_new pool_config_default) [CmdAdd (sample_uo 1 0 1000 11) 5];
       uo = sample_uo 1 0 1100 12 in
   (\<exists>p'. alone sample_hashing 14 (AddKnown uo 5, p) = (Done (AddResult (Inr 12)), p') \<and> pool_inv sample_hashing p') \<and>
   (\<exists>e p'. alone sample_hashing 13 (AddKnown uo 5, p) = (AddReport e, p'))"
proof -
  let ?p = "pool_run sample_hashing (pool_new pool_config_default) [CmdAdd (sample_uo 1 0 1000 11) 5]"
    and ?uo = "sample_uo 1 0 1100 12"
  have inv: "pool_inv sample_hashing ?p" by (rule sample_pool_inv)
  have "fst (pool_add sample_hashing ?uo 5 ?p) = Inr 12" by (simp add: pool_run_def pool_eval)
  then have "fst (alone sample_hashing 14 (AddKnown ?uo 5, ?p)) = Done (AddResult (Inr 12))"
    by (simp only: alone_add_call fst_conv)
  moreover obtain r p' where "alone sample_hashing 14 (AddKnown ?uo 5, ?p) = (Done (AddResult r), p')" "pool_inv sample_hashing p'"
    using calls_alone_refine [OF inv, of ?uo 5] by blast
  ultimately have "\<exists>p'. alone sample_hashing 14 (AddKnown ?uo 5, ?p) = (Done (AddResult (Inr 12)), p') \<and> pool_inv sample_hashing p'"
    by (metis fst_conv)
  moreover have "get_by_id ?p (uo_id ?uo) = Some (pool_entry_new sample_hashing (sample_uo 1 0 1000 11) 5 0)"
    by (simp add: pool_run_def pool_eval get_by_id_def)
  moreover have "\<not> hm_contains (pl_by_hash ?p) (uo_hash sample_hashing ?uo)"
    by (simp add: pool_run_def pool_eval hm_contains_def)
  moreover have "\<not> uo_max_fee_per_gas ?uo < min_bump (pl_config ?p) (uo_max_fee_per_gas (sample_uo 1 0 1000 11))"
    by (simp add: pool_new_def pool_config_default_def min_bump_def sample_uo_def)
  ultimately show ?thesis
    using replacement_thirteen [OF inv, of ?uo _ 5] by (simp add: Let_def) blast
qed

text \<open>
  Claim C19.  However the calls of \<open>n\<close> threads interleave, the pool holds at most \<open>n - 1\<close>
  operations more than its maximum size, because each thread can be admitted by a size
  check that the others have made stale.
\<close>

theorem concurrent_size_bound:
  assumes "threads_reach H (ts0, p0) (ts, p)" "ts0 \<noteq> []" "\<forall>pc\<in>set ts0. call_start pc"
    and "pool_size p0 \<le> pc_max_size (pl_config p0)"
  shows "pool_size p \<le> pc_max_size (pl_config p0) + (length ts0 - 1)"
proof -
  have "admitted pc = 0" if "call_start pc" for pc
    using that by (cases pc) simp_all
  then have "admissions ts0 = 0" using assms(3) by (simp add: admissions_def sum_list_eq_0_iff)
  moreover obtain n where n: "length ts0 = Suc n" using assms(2) by (cases ts0) simp_all
  ultimately have "size_inv (pl_config p0) (length ts0) (ts0, p0)"
    using assms(4) by (simp add: size_inv_def)
  from size_inv_reach [OF assms(1) this] n show ?thesis by (simp add: size_inv_def)
qed

text \<open>The bound is met: two operations enter a pool of size one.\<close>

definition tiny_pool :: operation_pool where
  "tiny_pool = pool_new (pool_config_default\<lparr>pc_max_size := 1\<rparr>)"

definition two_adds :: "pool_pc list" where
  "two_adds = [AddKnown (sample_uo 1 0 30 11) 15, AddKnown (sample_uo 2 0 40 12) 15]"

definition turns :: "nat \<Rightarrow> nat list" where
  "turns n = concat (replicate n [0, 1])"

lemma set_turns: "set (turns n) \<subseteq> {0, 1}"
  by (induction n) (auto simp: turns_def)

lemma turns_Suc: "turns (Suc n) = 0 # 1 # turns n"
  by (simp add: turns_def)

lemma move_two [simp]:
  "move H 0 ([a, b], p) = (case micro H a p of (a', p') \<Rightarrow> ([a', b], p'))"
  "move H (Suc 0) ([a, b], p) = (case micro H b p of (b', p') \<Rightarrow> ([a, b'], p'))"
  by (simp_all add: move_def split: prod.split)

text \<open>
  Two operations that the pool would accept one at a time, added by two threads that take
  turns: all checks of both come before the first write.
\<close>

definition sender_count :: "operation_pool \<Rightarrow> address \<Rightarrow> nat" where
  "sender_count p a = (case hm_get (pl_sender_count p) a of Some c \<Rightarrow> c | None \<Rightarrow> 0)"

definition acceptable :: "hashing \<Rightarrow> operation_pool \<Rightarrow> user_operation \<Rightarrow> bool" where
  "acceptable H p uo \<longleftrightarrow>
     \<not> hm_contains (pl_by_hash p) (uo_hash H uo) \<and> hm_get (pl_by_id p) (uo_id uo) = None \<and>
     sender_count p (id_sender (uo_id uo)) < pc_max_ops_per_sender (pl_config p) \<and>
     pool_size p < pc_max_size (pl_config p)"

lemma checks_pass:
  assumes "acceptable H p uo"
  shows "micro H (AddKnown uo b) p = (AddExisting uo b, p)"
    "micro H (AddExisting uo b) p = (AddSenderCount uo b, p)"
    "micro H (AddSenderCount uo b) p = (AddSize uo b, p)"
    "micro H (AddSize uo b) p = (AddSequence uo b, p)"
  using assms by (simp_all add: acceptable_def sender_count_def Let_def)

lemma two_adds_run:
  assumes "acceptable H p uo1" "acceptable H p uo2"
    and "e1 = pool_entry_new H uo1 b1 (pl_next_sequence p)"
    and "e2 = pool_entry_new H uo2 b2 (saturating_add (pl_next_sequence p) 1)"
  shows "schedule H (turns 10) ([AddKnown uo1 b1, AddKnown uo2 b2], p) =
    ([Done (AddResult (Inr (pe_hash e1))), Done (AddResult (Inr (pe_hash e2)))],
     p\<lparr>pl_by_hash := hm_insert (pe_hash e2) e2 (hm_insert (pe_hash e1) e1 (pl_by_hash p)),
       pl_by_id := hm_insert (pe_id e2) e2 (hm_insert (pe_id e1) e1 (pl_by_id p)),
       pl_ordered := bts_insert order_cmp e2 (bts_insert order_cmp e1 (pl_ordered p)),
       pl_sender_count := hm_upsert (id_sender (pe_id e2)) 0 Suc
         (hm_upsert (id_sender (pe_id e1)) 0 Suc (pl_sender_count p)),
       pl_next_sequence := saturating_add (saturating_add (pl_next_sequence p) 1) 1\<rparr>)"
proof -
  have "turns 10 = turns 4 @ turns 6" by (simp add: turns_def numeral_eq_Suc)
  then have "schedule H (turns 10) s = schedule H (turns 6) (schedule H (turns 4) s)" for s
    by (simp add: schedule_def)
  moreover have "schedule H (turns 4) ([AddKnown uo1 b1, AddKnown uo2 b2], p) = ([AddSequence uo1 b1, AddSequence uo2 b2], p)"
    using checks_pass [OF assms(1), of b1] checks_pass [OF assms(2), of b2]
    by (simp add: turns_def numeral_eq_Suc del: micro.simps)
  moreover have "schedule H (turns 6) ([AddSequence uo1 b1, AddSequence uo2 b2], p) =
    ([Done (AddResult (Inr (pe_hash e1))), Done (AddResult (Inr (pe_hash e2)))],
     p\<lparr>pl_by_hash := hm_insert (pe_hash e2) e2 (hm_insert (pe_hash e1) e1 (pl_by_hash p)),
       pl_by_id := hm_insert (pe_id e2) e2 (hm_insert (pe_id e1) e1 (pl_by_id p)),
       pl_ordered := bts_insert order_cmp e2 (bts_insert order_cmp e1 (pl_ordered p)),
       pl_sender_count := hm_upsert (id_sender (pe_id e2)) 0 Suc
         (hm_upsert (id_sender (pe_id e1)) 0 Suc (pl_sender_count p)),
       pl_next_sequence := saturating_add (saturating_add (pl_next_sequence p) 1) 1\<rparr>)"
    by (simp add: turns_def numeral_eq_Suc assms(3,4))
  ultimately show ?thesis by simp
qed

theorem concurrent_size_bound_witness:
  "\<exists>ts p. threads_reach sample_hashing (two_adds, tiny_pool) (ts, p) \<and> pool_size p = 2 \<and>
     pool_size p \<le> pc_max_size (pl_config tiny_pool) + 1"
proof -
  let ?s = "schedule sample_hashing (turns 10) (two_adds, tiny_pool)"
  have two: "length two_adds = 2" "two_adds \<noteq> []" "\<forall>pc\<in>set two_adds. call_start pc"
    by (simp_all add: two_adds_def)
  have r: "threads_reach sample_hashing (two_adds, tiny_pool) ?s"
    using set_turns [of 10] two(1) by (intro schedule_reach) auto
  have ok: "acceptable sample_hashing tiny_pool (sample_uo s n f h)" for s n f h
    by (simp add: acceptable_def sender_count_def tiny_pool_def pool_new_def pool_size_def hm_contains_def
        hm_len_none pool_config_default_def)
  have "pool_size (snd ?s) = 2"
    using two_adds_run [OF ok [of 1 0 30 11] ok [of 2 0 40 12] refl refl, of 15 15] unfolding two_adds_def
    by (simp add: tiny_pool_def pool_new_def pool_size_def hm_defs sample_uo_def uo_hash_def)
  moreover have "pool_size tiny_pool \<le> pc_max_size (pl_config tiny_pool)"
    by (simp add: tiny_pool_def pool_size_def pool_new_def hm_len_none)
  from concurrent_size_bound [of sample_hashing two_adds tiny_pool "fst ?s" "snd ?s", OF _ two(2,3) this] r two(1)
  have "pool_size (snd ?s) \<le> pc_max_size (pl_config tiny_pool) + 1" by simp
  ultimately show ?thesis using r by (metis prod.collapse)
qed

text \<open>
  Claim C23.  Two different operations of one sender and nonce, added at the same time to a
  pool with room for them, are both accepted: the pool then lists both by hash but only the
  second by id, so it is inconsistent, and removing the id leaves the first one behind.
\<close>

theorem racing_adds_break_ids:
  assumes "acceptable H p uo1" "acceptable H p uo2" "hm_inv (pl_by_hash p)" "hm_inv (pl_by_id p)"
    and "uo_id uo1 = uo_id uo2" "uo_hash H uo1 \<noteq> uo_hash H uo2"
  shows "\<exists>ts' p'. threads_reach H ([AddKnown uo1 b1, AddKnown uo2 b2], p) (ts', p') \<and>
    ts' = [Done (AddResult (Inr (uo_hash H uo1))), Done (AddResult (Inr (uo_hash H uo2)))] \<and>
    (\<exists>e. get_by_hash p' (uo_hash H uo1) = Some e \<and> pe_id e = uo_id uo1 \<and>
       get_by_id p' (uo_id uo1) \<noteq> Some e \<and> \<not> pool_inv H p' \<and>
       get_by_hash (snd (remove_by_id (uo_id uo1) p')) (uo_hash H uo1) = Some e)"
proof -
  define e1 where "e1 = pool_entry_new H uo1 b1 (pl_next_sequence p)"
  define e2 where "e2 = pool_entry_new H uo2 b2 (saturating_add (pl_next_sequence p) 1)"
  let ?s = "schedule H (turns 10) ([AddKnown uo1 b1, AddKnown uo2 b2], p)"
  define p' where "p' = snd ?s"
  note run = two_adds_run [OF assms(1,2) e1_def e2_def]
  have e: "pe_hash e1 = uo_hash H uo1" "pe_hash e2 = uo_hash H uo2" "pe_id e1 = uo_id uo1" "pe_id e2 = uo_id uo1"
    using assms(5) by (simp_all add: e1_def e2_def)
  have h1: "get_by_hash p' (uo_hash H uo1) = Some e1" and i2: "get_by_id p' (uo_id uo1) = Some e2"
    using assms(3,4,6) by (simp_all add: p'_def run get_by_hash_def get_by_id_def e)
  have "e1 \<noteq> e2" using e(1,2) assms(6) by auto
  have broken: "\<not> pool_inv H p'"
  proof
    assume inv: "pool_inv H p'"
    then have "e1 \<in># entries_of p' \<and> pe_id e1 = uo_id uo1"
      using h1 by_hash_iff [OF inv] e(3) by (simp add: get_by_hash_def)
    then have "get_by_id p' (uo_id uo1) = Some e1" using by_id_iff [OF inv] by (simp add: get_by_id_def)
    with i2 \<open>e1 \<noteq> e2\<close> show False by simp
  qed
  have "hm_inv (pl_by_hash p')" using assms(3) by (simp add: p'_def run)
  then have left: "get_by_hash (snd (remove_by_id (uo_id uo1) p')) (uo_hash H uo1) = Some e1"
    using i2 h1 assms(6) e(2) by (simp add: remove_by_id_def get_by_id_def get_by_hash_def remove_inner_def Let_def)
  have reach: "threads_reach H ([AddKnown uo1 b1, AddKnown uo2 b2], p) ?s"
    using set_turns [of 10] by (intro schedule_reach) auto
  have s: "?s = ([Done (AddResult (Inr (uo_hash H uo1))), Done (AddResult (Inr (uo_hash H uo2)))], p')"
    using run e by (simp add: p'_def)
  show ?thesis
    using reach s h1 e(3) i2 \<open>e1 \<noteq> e2\<close> broken left by auto
qed

theorem racing_adds_break_ids_witness:
  "\<exists>ts' p'. threads_reach sample_hashing ([AddKnown (sample_uo 1 0 30 11) 15, AddKnown (sample_uo 1 0 40 12) 15],
     pool_new pool_config_default) (ts', p') \<and> \<not> pool_inv sample_hashing p'"
proof -
  let ?p = "pool_new pool_config_default"
  have ok: "acceptable sample_hashing ?p (sample_uo s n f h)" for s n f h
    by (simp add: acceptable_def sender_count_def pool_new_def pool_size_def hm_contains_def
        hm_len_none pool_config_default_def)
  have "uo_id (sample_uo 1 0 30 11) = uo_id (sample_uo 1 0 40 12)"
    "uo_hash sample_hashing (sample_uo 1 0 30 11) \<noteq> uo_hash sample_hashing (sample_uo 1 0 40 12)"
    by (simp_all add: sample_uo_def uo_id_def uo_hash_def)
  moreover have "hm_inv (pl_by_hash ?p)" "hm_inv (pl_by_id ?p)" by (simp_all add: pool_new_def)
  ultimately show ?thesis using racing_adds_break_ids [OF ok [of 1 0 30 11] ok [of 1 0 40 12], of 15 15] by blast
qed

section \<open>A replacement that loses the operation\<close>

text \<open>A thread may run alone for a while.\<close>

lemma alone_reaches:
  assumes "i < length ts" "alone H m (ts ! i, p) = (pc, p')"
  shows "threads_reach H (ts, p) (ts[i := pc], p')"
  using assms
proof (induction m arbitrary: ts p)
  case 0
  then have "ts[i := pc] = ts" "p' = p" by auto
  then show ?case by (simp add: threads_reach_def)
next
  case (Suc m)
  obtain pc1 p1 where 1: "micro H (ts ! i) p = (pc1, p1)" by fastforce
  then have "threads_reach H (ts[i := pc1], p1) (ts[i := pc], p')"
    using Suc.IH [of "ts[i := pc1]" p1] Suc.prems by simp
  then show ?case
    using threads_step.runs [OF Suc.prems(1) 1] unfolding threads_reach_def
    by (meson converse_rtranclp_into_rtranclp)
qed

lemma threads_reach_trans:
  "threads_reach H s s1 \<Longrightarrow> threads_reach H s1 s2 \<Longrightarrow> threads_reach H s s2"
  unfolding threads_reach_def by simp

text \<open>The replacing call after its removals and its look at the sender's counter.\<close>

lemma replacement_seven:
  assumes "pool_inv H p" "get_by_id p (uo_id uo) = Some e" "\<not> hm_contains (pl_by_hash p) (uo_hash H uo)"
    and "\<not> uo_max_fee_per_gas uo < min_bump (pl_config p) (uo_max_fee_per_gas (pe_uo e))"
  shows "alone H 7 (AddKnown uo b, p) = (AddSize uo b, remove_inner e p)"
proof -
  have id: "hm_get (pl_by_id p) (uo_id uo) = Some e" using assms(2) by (simp add: get_by_id_def)
  let ?q = "remove_inner e p"
  have "fst (add_checked H uo b ?q) = Inr (uo_hash H uo)"
    by (simp add: add_checked_replacement [OF assms(1) id])
  then have "alone H 1 (AddSenderCount uo b, ?q) = (AddSize uo b, ?q)"
    by (simp add: add_checked_def Let_def split: if_splits)
  moreover have "alone H 2 (AddKnown uo b, p) = (RemoveHash e (RestOfAdd uo b), p)"
    using assms(3,4) id by (simp add: numeral_eq_Suc)
  moreover have "alone H 4 (RemoveHash e (RestOfAdd uo b), p) = (AddSenderCount uo b, ?q)"
    by (simp add: alone_remove)
  moreover have "alone H 7 s = alone H 1 (alone H 4 (alone H 2 s))" for s
    by (simp flip: alone_add)
  ultimately show ?thesis by simp
qed

text \<open>The other call takes the place that the removal has freed.\<close>

lemma freed_place_taken:
  assumes "pool_inv H p" "get_by_id p (uo_id uo1) = Some e" "pool_size p = pc_max_size (pl_config p)"
    and "\<not> hm_contains (pl_by_hash p) (uo_hash H uo2)" "get_by_id p (uo_id uo2) = None"
    and "sender_ops p (uo_sender uo2) < pc_max_ops_per_sender (pl_config p)"
  defines "q \<equiv> remove_inner e p"
  shows "pool_add H uo2 b q = (Inr (uo_hash H uo2), insert_new H uo2 b q)"
    and "pool_inv H (insert_new H uo2 b q)" "pool_size (insert_new H uo2 b q) = pc_max_size (pl_config p)"
    and "get_by_id (insert_new H uo2 b q) (uo_id uo1) = None"
proof -
  have e: "e \<in># entries_of p" "pe_id e = uo_id uo1"
    using assms(2) by (simp_all add: get_by_id_def by_id_iff [OF assms(1)])
  have q: "pool_inv H q" unfolding q_def by (rule remove_inner_inv [OF assms(1) e(1)])
  have ent: "entries_of p = add_mset e (entries_of q)" unfolding q_def by (rule remove_inner_entries [OF assms(1) e(1)])
  have fresh: "hm_get (pl_by_hash q) (uo_hash H uo2) = None" "hm_get (pl_by_id q) (uo_id uo2) = None"
    using assms(4,5) by (simp_all add: q_def remove_inner_get [OF assms(1)] hm_contains_def get_by_id_def)
  have size: "Suc (pool_size q) = pc_max_size (pl_config p)"
    using assms(3) ent by (simp add: pool_size_entries [OF q] pool_size_entries [OF assms(1)])
  have ops: "sender_ops q (uo_sender uo2) < pc_max_ops_per_sender (pl_config p)"
    using assms(6) sender_ops_add [OF ent, of "uo_sender uo2"] by simp
  have cfg: "pl_config q = pl_config p" by (simp add: q_def)
  show "pool_add H uo2 b q = (Inr (uo_hash H uo2), insert_new H uo2 b q)"
    using size ops by (simp add: pool_add_eq [OF q] fresh add_checked_eq [OF q] cfg)
  show inv: "pool_inv H (insert_new H uo2 b q)"
    using insert_new_inv [OF q fresh] size ops by (simp add: cfg)
  show "pool_size (insert_new H uo2 b q) = pc_max_size (pl_config p)"
    using size by (simp add: pool_size_entries [OF inv] pool_size_entries [OF q] insert_new_entries [OF q fresh(1)])
  have "uo_id uo1 \<noteq> uo_id uo2" using assms(2,5) by auto
  then show "get_by_id (insert_new H uo2 b q) (uo_id uo1) = None"
    by (simp add: get_by_id_def insert_new_get [OF q]) (simp add: q_def remove_inner_get [OF assms(1)] e(2))
qed

text \<open>
  Claim C22.  A replacement can lose the operation it was to replace.  The pool is full and holds
  an operation; a thread offers a replacement that pays the bump, and another thread adds an
  unrelated operation.  There is an order in which the first has taken the old entry out when
  the second takes the free place: the replacement is then refused because the pool is full,
  and the pool, which is consistent, holds neither the old operation nor its replacement.
\<close>

theorem racing_replacement_loses:
  assumes "pool_inv H p" "get_by_id p (uo_id uo1) = Some e" "\<not> hm_contains (pl_by_hash p) (uo_hash H uo1)"
    and "\<not> uo_max_fee_per_gas uo1 < min_bump (pl_config p) (uo_max_fee_per_gas (pe_uo e))"
    and "pool_size p = pc_max_size (pl_config p)"
    and "\<not> hm_contains (pl_by_hash p) (uo_hash H uo2)" "get_by_id p (uo_id uo2) = None"
    and "sender_ops p (uo_sender uo2) < pc_max_ops_per_sender (pl_config p)"
  shows "\<exists>p'. threads_reach H ([AddKnown uo1 b1, AddKnown uo2 b2], p)
      ([Done (AddResult (Inl (PoolFull (pc_max_size (pl_config p))))), Done (AddResult (Inr (uo_hash H uo2)))], p') \<and>
    pool_inv H p' \<and> get_by_id p' (uo_id uo1) = None \<and> (\<forall>e'\<in>#entries_of p'. pe_id e' \<noteq> uo_id uo1)"
proof -
  let ?q = "remove_inner e p" and ?ts = "[AddKnown uo1 b1, AddKnown uo2 b2]"
  let ?p' = "insert_new H uo2 b2 ?q"
  note taken = freed_place_taken [OF assms(1,2,5,6,7,8), of b2]
  have 1: "threads_reach H (?ts, p) (?ts[0 := AddSize uo1 b1], ?q)"
    by (rule alone_reaches [where m = 7]) (simp_all add: replacement_seven [OF assms(1-4)] del: alone_simps)
  have 2: "threads_reach H (?ts[0 := AddSize uo1 b1], ?q)
      (?ts[0 := AddSize uo1 b1, 1 := Done (AddResult (Inr (uo_hash H uo2)))], ?p')"
    by (rule alone_reaches [where m = 14]) (simp_all add: alone_add_call taken(1) del: alone_simps)
  have 3: "threads_reach H ([AddSize uo1 b1, Done (AddResult (Inr (uo_hash H uo2)))], ?p')
      ([AddSize uo1 b1, Done (AddResult (Inr (uo_hash H uo2)))][0 := Done (AddResult (Inl (PoolFull (pc_max_size (pl_config p)))))], ?p')"
    by (rule alone_reaches [where m = 1]) (simp_all add: taken(3))
  have "\<forall>e'\<in>#entries_of ?p'. pe_id e' \<noteq> uo_id uo1"
    using taken(4) by_id_iff [OF taken(2), of "uo_id uo1"] by (auto simp: get_by_id_def)
  moreover have "threads_reach H (?ts, p)
      ([Done (AddResult (Inl (PoolFull (pc_max_size (pl_config p))))), Done (AddResult (Inr (uo_hash H uo2)))], ?p')"
    using threads_reach_trans [OF threads_reach_trans [OF 1 2]] 3 by simp
  ultimately show ?thesis using taken(2,4) by blast
qed

theorem racing_replacement_loses_witness:
  "let p = pool_run sample_hashing tiny_pool [CmdAdd (sample_uo 1 0 1000 11) 5] in
   map_option pe_hash (get_by_id p (uo_id (sample_uo 1 0 1000 11))) = Some 11 \<and>
   (\<exists>p'. threads_reach sample_hashing ([AddKnown (sample_uo 1 0 1100 12) 5, AddKnown (sample_uo 2 0 30 13) 5], p)
       ([Done (AddResult (Inl (PoolFull 1))), Done (AddResult (Inr 13))], p') \<and>
     get_by_id p' (uo_id (sample_uo 1 0 1100 12)) = None)"
proof -
  let ?p = "pool_run sample_hashing tiny_pool [CmdAdd (sample_uo 1 0 1000 11) 5]"
  let ?uo1 = "sample_uo 1 0 1100 12" and ?uo2 = "sample_uo 2 0 30 13"
  let ?e = "pool_entry_new sample_hashing (sample_uo 1 0 1000 11) 5 0"
  have inv: "pool_inv sample_hashing ?p" unfolding tiny_pool_def by (rule sample_pool_inv)
  have get: "get_by_id ?p (uo_id ?uo1) = Some ?e" "get_by_id ?p (uo_id ?uo2) = None"
    "get_by_id ?p (uo_id (sample_uo 1 0 1000 11)) = Some ?e"
    by (simp_all add: tiny_pool_def pool_run_def pool_eval get_by_id_def)
  have new: "\<not> hm_contains (pl_by_hash ?p) (uo_hash sample_hashing ?uo1)" "\<not> hm_contains (pl_by_hash ?p) (uo_hash sample_hashing ?uo2)"
    by (simp_all add: tiny_pool_def pool_run_def pool_eval hm_contains_def)
  have cfg: "pl_config ?p = pool_config_default\<lparr>pc_max_size := 1\<rparr>" by (simp add: tiny_pool_def pool_new_def)
  have pays: "\<not> uo_max_fee_per_gas ?uo1 < min_bump (pl_config ?p) (uo_max_fee_per_gas (pe_uo ?e))"
    unfolding cfg by (simp add: pool_config_default_def min_bump_def sample_uo_def)
  have hashes: "uo_hash sample_hashing (sample_uo s n f h) = h" for s n f h
    by (simp add: uo_hash_def sample_uo_def)
  have size: "pool_size ?p = 1" by (simp add: tiny_pool_def pool_run_def pool_eval)
  have "sender_ops ?p (uo_sender ?uo2) \<le> size (entries_of ?p)" by (simp add: sender_ops_def size_filter_mset_lesseq)
  also have "\<dots> = 1" using size by (simp add: pool_size_entries [OF inv])
  finally have ops: "sender_ops ?p (uo_sender ?uo2) < pc_max_ops_per_sender (pl_config ?p)"
    unfolding cfg by (simp add: pool_config_default_def)
  have "pool_size ?p = pc_max_size (pl_config ?p)" using size cfg by simp
  from racing_replacement_loses [OF inv get(1) new(1) pays this new(2) get(2) ops, of 5 5]
  show ?thesis
    using get(3) cfg hashes by (simp add: Let_def) blast
qed

end
