(* ===== verification/Event_Bus.thy ===== *)
theory Event_Bus
  imports Chain_Watcher
begin

text \<open>
  \<open>EventBus\<close> of \<open>crates/types/src/event.rs\<close>.  The broadcast channel is library code: its
  operations are the parameter \<open>broadcast\<close>, over a state of its own.  What the program sends
  on it is what the watcher publishes (\<open>cw_events\<close>).
\<close>

section \<open>The bus\<close>

text \<open>
  \<open>send\<close> fails, giving the event back, when nobody listens; creating a channel of capacity
  zero panics.
\<close>

record ('ev, 'rx, 'ch) broadcast =
  bc_channel :: "nat \<Rightarrow> 'ch run"
  bc_send :: "'ev \<Rightarrow> 'ch \<Rightarrow> ('ev + nat) \<times> 'ch"
  bc_subscribe :: "'ch \<Rightarrow> 'rx \<times> 'ch"

definition event_bus_new :: "('ev, 'rx, 'ch) broadcast \<Rightarrow> nat \<Rightarrow> 'ch run" where
  "event_bus_new B capacity = bc_channel B capacity"

definition event_bus_publish :: "('ev, 'rx, 'ch) broadcast \<Rightarrow> 'ev \<Rightarrow> 'ch \<Rightarrow> nat \<times> 'ch" where
  "event_bus_publish B event ch =
     (case bc_send B event ch of
        (Inr receivers, ch') \<Rightarrow> (receivers, ch')
      | (Inl _, ch') \<Rightarrow> (0, ch'))"

definition event_bus_subscribe :: "('ev, 'rx, 'ch) broadcast \<Rightarrow> 'ch \<Rightarrow> 'rx \<times> 'ch" where
  "event_bus_subscribe B ch = bc_subscribe B ch"

definition event_bus_default :: "('ev, 'rx, 'ch) broadcast \<Rightarrow> 'ch run" where
  "event_bus_default B = event_bus_new B 256"

end
