(* ===== verification/Alloy_Node.thy ===== *)
theory Alloy_Node
  imports Provider_Api
begin

text \<open>
  \<open>crates/provider/src/alloy/evm.rs\<close>: the provider of the program, over a node client of
  the alloy library.  The client is a parameter: a record of requests that answer with a
  value or with the text of a transport error.
\<close>

datatype block_tag = Latest | Number u64

text \<open>
  The block of a call is optional: without one the client picks its own default.
\<close>

record 'w alloy_node =
  an_call :: "tx_request \<Rightarrow> block_tag option \<Rightarrow> 'w \<Rightarrow> (string + bytes) \<times> 'w"
  an_get_logs :: "log_filter \<Rightarrow> 'w \<Rightarrow> (string + event_log list) \<times> 'w"
  an_get_block_by_number :: "block_tag \<Rightarrow> 'w \<Rightarrow> (string + block option) \<times> 'w"
  an_get_block_number :: "'w \<Rightarrow> (string + u64) \<times> 'w"
  an_get_transaction_count :: "address \<Rightarrow> 'w \<Rightarrow> (string + u64) \<times> 'w"
  an_get_balance :: "address \<Rightarrow> 'w \<Rightarrow> (string + u256) \<times> 'w"
  an_send_raw_transaction :: "bytes \<Rightarrow> 'w \<Rightarrow> (string + b256) \<times> 'w"
  an_get_transaction_receipt :: "b256 \<Rightarrow> 'w \<Rightarrow> (string + tx_receipt option) \<times> 'w"
  an_get_chain_id :: "'w \<Rightarrow> (string + u64) \<times> 'w"
  an_get_max_priority_fee_per_gas :: "'w \<Rightarrow> (string + u128) \<times> 'w"

section \<open>AlloyEvmProvider\<close>

definition evm_provider_call :: "'w alloy_node \<Rightarrow> tx_request \<Rightarrow> u64 option \<Rightarrow> ('w, bytes) io" where
  "evm_provider_call N tx blk =
     (let block_id = (case blk of Some n \<Rightarrow> Number n | None \<Rightarrow> Latest)
      in io_map_err Transport (an_call N tx (Some block_id)))"

definition evm_provider_base_fee :: "'w alloy_node \<Rightarrow> ('w, u128) io" where
  "evm_provider_base_fee N =
     io_bind (io_map_err Transport (an_get_block_by_number N Latest)) (\<lambda>found.
     case found of
       None \<Rightarrow> io_fail (InvalidResponse ''no latest block'')
     | Some b \<Rightarrow>
         (case bk_base_fee_per_gas b of
            Some f \<Rightarrow> io_return (ucast f)
          | None \<Rightarrow> io_fail (InvalidResponse ''block missing base_fee_per_gas'')))"

definition alloy_evm_provider :: "'w alloy_node \<Rightarrow> 'w evm_provider" where
  "alloy_evm_provider N =
     \<lparr>evm_call = evm_provider_call N,
      evm_get_logs = (\<lambda>filt. io_map_err Transport (an_get_logs N filt)),
      evm_get_block = (\<lambda>n. io_map_err Transport (an_get_block_by_number N (Number n))),
      evm_get_block_number = io_map_err Transport (an_get_block_number N),
      evm_get_nonce = (\<lambda>a. io_map_err Transport (an_get_transaction_count N a)),
      evm_get_balance = (\<lambda>a. io_map_err Transport (an_get_balance N a)),
      evm_send_raw_transaction = (\<lambda>raw. io_map_err Transport (an_send_raw_transaction N raw)),
      evm_get_transaction_receipt = (\<lambda>h. io_map_err Transport (an_get_transaction_receipt N h)),
      evm_get_chain_id = io_map_err Transport (an_get_chain_id N),
      evm_get_base_fee = evm_provider_base_fee N,
      evm_get_max_priority_fee = io_map_err Transport (an_get_max_priority_fee_per_gas N)\<rparr>"

section \<open>Facts\<close>

lemma io_map_err_Inr [simp]: "io_map_err f c w = (Inr a, w') \<longleftrightarrow> c w = (Inr a, w')"
  by (cases "c w"; cases "fst (c w)") (auto simp: io_map_err_def)

lemma io_map_err_Inl: "io_map_err f c w = (Inl e, w') \<longleftrightarrow> (\<exists>m. c w = (Inl m, w') \<and> e = f m)"
  by (cases "c w"; cases "fst (c w)") (auto simp: io_map_err_def)

lemma evm_provider_base_fee_Inr:
  assumes "evm_provider_base_fee N w = (Inr v, w')"
  obtains b f where "an_get_block_by_number N Latest w = (Inr (Some b), w')"
    "bk_base_fee_per_gas b = Some f" "v = ucast f"
proof (cases "an_get_block_by_number N Latest w")
  case (Pair r w1)
  then show thesis
    using assms that
    by (cases r) (auto simp: evm_provider_base_fee_def io_defs split: option.splits)
qed

text \<open>A base fee is a block header field, so it always fits in 64 bits.\<close>

lemma alloy_base_fee_small:
  assumes "evm_get_base_fee (alloy_evm_provider N) w = (Inr v, w')"
  shows "unat v < 2 ^ 64"
proof -
  have "evm_provider_base_fee N w = (Inr v, w')" using assms by (simp add: alloy_evm_provider_def)
  then obtain f :: u64 where "v = ucast f" by (rule evm_provider_base_fee_Inr)
  moreover have "unat f < 2 ^ LENGTH(64)" by (rule unsigned_less)
  ultimately show ?thesis by (simp add: unat_ucast_up)
qed

end
