(* ===== verification/Entry_Point.thy ===== *)
theory Entry_Point
  imports Contracts Alloy_Node
begin

text \<open>
  \<open>crates/provider/src/alloy/entry_point.rs\<close> and \<open>bundle_handler.rs\<close>: the requests to the
  entry point contract.  A failed call reports its revert data only as text, so both files
  search the error message for it; the helpers they duplicate are one definition here.
\<close>

unbundle bit_operations_syntax

section \<open>Validation data\<close>

definition mask_48 :: u256 where
  "mask_48 = 0xFFFFFFFFFFFF"

definition parse_validation_data :: "u256 \<Rightarrow> bool \<times> u64 \<times> u64" where
  "parse_validation_data data =
     (let valid_after = ucast (data AND mask_48);
          shifted = drop_bit 48 data;
          valid_until = ucast (shifted AND mask_48);
          sig = drop_bit 160 data;
          sig_failed = sig = 1
      in (sig_failed, valid_after, valid_until))"

section \<open>Revert data in error messages\<close>

text \<open>What follows the first \<open>0x\<close> of a string.\<close>

fun after_0x :: "string \<Rightarrow> string option" where
  "after_0x (c # d # s) = (if c = CHR ''0'' \<and> d = CHR ''x'' then Some s else after_0x (d # s))"
| "after_0x s = None"

definition is_ascii_hexdigit :: "char \<Rightarrow> bool" where
  "is_ascii_hexdigit c \<longleftrightarrow> c \<in> set ''0123456789abcdefABCDEF''"

definition extract_revert_data :: "abi \<Rightarrow> string \<Rightarrow> bytes option" where
  "extract_revert_data A err_str =
     (case after_0x err_str of
        None \<Rightarrow> None
      | Some hex_str \<Rightarrow>
          (let hex_data = takeWhile is_ascii_hexdigit hex_str
           in if 8 \<le> length hex_data then ab_hex_decode A hex_data else None))"

text \<open>\<open>Uint::to\<close> panics when the value does not fit the target.\<close>

definition uint_to :: "u256 \<Rightarrow> 'a::len word run" where
  "uint_to x = (if unat x < 2 ^ LENGTH('a) then Returns (ucast x) else Panics)"

definition uint_to_usize :: "u256 \<Rightarrow> nat run" where
  "uint_to_usize x = (if unat x < 2 ^ 64 then Returns (unat x) else Panics)"

definition decode_validation_revert :: "abi \<Rightarrow> bytes \<Rightarrow> validation_revert run" where
  "decode_validation_revert A data =
     (case ab_decode_error A data of
        Inr (SolFailedOp op_index reason) \<Rightarrow>
          (case uint_to_usize op_index of
             Panics \<Rightarrow> Panics
           | Returns i \<Rightarrow> Returns (VrFailedOp i reason))
      | Inr (SolFailedOpWithRevert op_index reason inner) \<Rightarrow>
          (case uint_to_usize op_index of
             Panics \<Rightarrow> Panics
           | Returns i \<Rightarrow> Returns (VrFailedOpWithRevert i reason inner))
      | Inr (SolSignatureValidationFailed aggregator) \<Rightarrow> Returns (VrSignatureValidationFailed aggregator)
      | Inl e \<Rightarrow> Returns (VrUnknown data))"

section \<open>AlloyEntryPointProvider\<close>

definition convert_packed_uo :: "packed_uo \<Rightarrow> sol_packed_uo" where
  "convert_packed_uo uo =
     \<lparr>so_sender = pk_sender uo, so_nonce = pk_nonce uo, so_init_code = pk_init_code uo,
      so_call_data = pk_call_data uo, so_account_gas_limits = pk_account_gas_limits uo,
      so_pre_verification_gas = pk_pre_verification_gas uo, so_gas_fees = pk_gas_fees uo,
      so_paymaster_and_data = pk_paymaster_and_data uo, so_signature = pk_signature uo\<rparr>"

definition stake_info_of :: "sol_stake_info \<Rightarrow> stake_info run" where
  "stake_info_of s =
     (case uint_to (ss_unstake_delay_sec s) of
        Panics \<Rightarrow> Panics
      | Returns delay \<Rightarrow> Returns \<lparr>si_stake = ss_stake s, si_unstake_delay_sec = delay\<rparr>)"

definition validation_output_of :: "validation_result \<Rightarrow> validation_output run" where
  "validation_output_of vr =
     (let (account_sig_failed, valid_after, valid_until) =
            parse_validation_data (ri_account_validation_data (vr_return_info vr));
          (paymaster_sig_failed, _, _) =
            parse_validation_data (ri_paymaster_validation_data (vr_return_info vr));
          aggregator = as_aggregator (vr_aggregator_info vr)
      in case (uint_to (ri_pre_op_gas (vr_return_info vr)), stake_info_of (vr_sender_info vr),
               stake_info_of (vr_factory_info vr), stake_info_of (vr_paymaster_info vr)) of
           (Returns pre_op_gas, Returns sender_info, Returns factory_info, Returns paymaster_info) \<Rightarrow>
             Returns
               \<lparr>vo_pre_op_gas = pre_op_gas, vo_prefund = ri_prefund (vr_return_info vr),
                vo_valid_after = valid_after, vo_valid_until = valid_until,
                vo_account_sig_failed = account_sig_failed, vo_paymaster_sig_failed = paymaster_sig_failed,
                vo_sender_info = sender_info, vo_factory_info = factory_info,
                vo_paymaster_info = paymaster_info,
                vo_aggregator = (if aggregator = 0 then None else Some aggregator)\<rparr>
         | _ \<Rightarrow> Panics)"

text \<open>The request every method sends; it leaves the block to the client.\<close>

definition entry_point_tx :: "address \<Rightarrow> bytes \<Rightarrow> tx_request" where
  "entry_point_tx entry_point calldata =
     tx_request_default\<lparr>tq_to := Some (Call entry_point), tq_input := Some calldata\<rparr>"

text \<open>What both simulations make of a failed call: the revert if there is one, or the error.\<close>

definition simulation_error :: "abi \<Rightarrow> string \<Rightarrow> (provider_error + (validation_revert + 'a)) run" where
  "simulation_error A e =
     (case extract_revert_data A e of
        Some data \<Rightarrow>
          (case decode_validation_revert A data of
             Panics \<Rightarrow> Panics
           | Returns rv \<Rightarrow> Returns (Inr (Inl rv)))
      | None \<Rightarrow> Returns (Inl (SimulationFailed e)))"

definition simulate_validation ::
  "abi \<Rightarrow> 'w alloy_node \<Rightarrow> address \<Rightarrow> packed_uo \<Rightarrow> 'w \<Rightarrow>
   (provider_error + (validation_revert + validation_output)) run \<times> 'w" where
  "simulate_validation A N entry_point user_op w =
     (let calldata = ab_encode_simulation A (SimulateValidation (convert_packed_uo user_op))
      in case an_call N (entry_point_tx entry_point calldata) None w of
           (Inr out, w') \<Rightarrow>
             (case ab_decode_validation_result A out of
                Inr vr \<Rightarrow>
                  (case validation_output_of vr of
                     Panics \<Rightarrow> (Panics, w')
                   | Returns vo \<Rightarrow> (Returns (Inr (Inr vo)), w'))
              | Inl e \<Rightarrow>
                  (Returns (Inl (InvalidResponse (''failed to decode simulateValidation result: '' @ e))), w'))
         | (Inl e, w') \<Rightarrow> (simulation_error A e, w'))"

definition simulate_handle_op ::
  "abi \<Rightarrow> 'w alloy_node \<Rightarrow> address \<Rightarrow> packed_uo \<Rightarrow> address \<Rightarrow> bytes \<Rightarrow> 'w \<Rightarrow>
   (provider_error + (validation_revert + execution_result)) run \<times> 'w" where
  "simulate_handle_op A N entry_point user_op target target_call_data w =
     (let calldata = ab_encode_simulation A
            (SimulateHandleOp (convert_packed_uo user_op) target target_call_data)
      in case an_call N (entry_point_tx entry_point calldata) None w of
           (Inr out, w') \<Rightarrow>
             (case ab_decode_execution_result A out of
                Inr er \<Rightarrow>
                  (case uint_to (se_pre_op_gas er) of
                     Panics \<Rightarrow> (Panics, w')
                   | Returns gas \<Rightarrow>
                       (Returns (Inr (Inr
                          \<lparr>er_pre_op_gas = gas, er_paid = se_paid er, er_target_success = se_target_success er,
                           er_target_result = se_target_result er\<rparr>)), w'))
              | Inl e \<Rightarrow>
                  (Returns (Inl (InvalidResponse (''failed to decode simulateHandleOp result: '' @ e))), w'))
         | (Inl e, w') \<Rightarrow> (simulation_error A e, w'))"

definition encode_handle_ops :: "abi \<Rightarrow> packed_uo list \<Rightarrow> address \<Rightarrow> bytes" where
  "encode_handle_ops A ops beneficiary =
     ab_encode_call A (HandleOps (map convert_packed_uo ops) beneficiary)"

text \<open>A view call: its answer must decode, and its errors are transport errors.\<close>

definition view_call ::
  "'w alloy_node \<Rightarrow> address \<Rightarrow> bytes \<Rightarrow> (bytes \<Rightarrow> string + 'a) \<Rightarrow> string \<Rightarrow> ('w, 'a) io" where
  "view_call N entry_point calldata dec what =
     io_bind (io_map_err Transport (an_call N (entry_point_tx entry_point calldata) None)) (\<lambda>out.
     case dec out of
       Inr a \<Rightarrow> io_return a
     | Inl e \<Rightarrow> io_fail (InvalidResponse (''failed to decode '' @ what @ '': '' @ e)))"

definition get_user_op_hash :: "abi \<Rightarrow> 'w alloy_node \<Rightarrow> address \<Rightarrow> packed_uo \<Rightarrow> ('w, b256) io" where
  "get_user_op_hash A N entry_point user_op =
     view_call N entry_point (ab_encode_call A (GetUserOpHash (convert_packed_uo user_op)))
       (ab_decode_user_op_hash A) ''getUserOpHash''"

definition get_balance_of :: "abi \<Rightarrow> 'w alloy_node \<Rightarrow> address \<Rightarrow> address \<Rightarrow> ('w, u256) io" where
  "get_balance_of A N entry_point a =
     view_call N entry_point (ab_encode_call A (BalanceOf a)) (ab_decode_balance A) ''balanceOf''"

section \<open>AlloyBundleHandler\<close>

definition build_handle_ops_tx ::
  "abi \<Rightarrow> address \<Rightarrow> packed_uo list \<Rightarrow> address \<Rightarrow> u64 \<Rightarrow> gas_fees \<Rightarrow> tx_request" where
  "build_handle_ops_tx A entry_point ops beneficiary gas_limit fees =
     (entry_point_tx entry_point (ab_encode_call A (HandleOps (map convert_packed_uo ops) beneficiary)))
       \<lparr>tq_gas := Some gas_limit, tq_max_fee_per_gas := Some (gf_max_fee fees),
        tq_max_priority_fee_per_gas := Some (gf_max_priority fees)\<rparr>"

definition handle_ops_error :: "abi \<Rightarrow> string \<Rightarrow> (provider_error + handle_ops_out) run" where
  "handle_ops_error A err_str =
     (case extract_revert_data A err_str of
        Some data \<Rightarrow>
          (case ab_decode_error A data of
             Inr (SolFailedOp op_index reason) \<Rightarrow>
               (case uint_to_usize op_index of
                  Panics \<Rightarrow> Panics
                | Returns i \<Rightarrow> Returns (Inr (HoFailedOp i reason)))
           | Inr (SolFailedOpWithRevert op_index reason inner) \<Rightarrow>
               (case uint_to_usize op_index of
                  Panics \<Rightarrow> Panics
                | Returns i \<Rightarrow> Returns (Inr (HoFailedOp i reason)))
           | Inr (SolSignatureValidationFailed aggregator) \<Rightarrow>
               Returns (Inr (HoSignatureValidationFailed aggregator))
           | Inl e \<Rightarrow> Returns (Inr (HoRevert data)))
      | None \<Rightarrow> Returns (Inl (Transport err_str)))"

definition call_handle_ops ::
  "abi \<Rightarrow> 'w alloy_node \<Rightarrow> address \<Rightarrow> packed_uo list \<Rightarrow> address \<Rightarrow> u64 \<Rightarrow> gas_fees \<Rightarrow> 'w \<Rightarrow>
   (provider_error + handle_ops_out) run \<times> 'w" where
  "call_handle_ops A N entry_point ops beneficiary gas_limit fees w =
     (case an_call N (build_handle_ops_tx A entry_point ops beneficiary gas_limit fees) None w of
        (Inr _, w') \<Rightarrow> (Returns (Inr HoSuccess), w')
      | (Inl e, w') \<Rightarrow> (handle_ops_error A e, w'))"

section \<open>Facts\<close>

lemma after_0x_skip:
  "after_0x pre = None \<Longrightarrow> after_0x (pre @ CHR ''0'' # CHR ''x'' # s) = Some s"
proof (induction pre rule: after_0x.induct)
  case (1 c d pre)
  then show ?case by (auto split: if_splits)
qed auto

lemma hexdigits_hex_bytes: "\<forall>c\<in>set (hex_bytes bs). is_ascii_hexdigit c"
proof -
  have digits: "''0123456789abcdefABCDEF'' = ''0123456789abcdef'' @ ''ABCDEF''"
    by (simp only: append.simps)
  show ?thesis
    using set_hex_bytes [of bs] unfolding is_ascii_hexdigit_def digits set_append by blast
qed

lemma takeWhile_hex_bytes:
  assumes "rest = [] \<or> \<not> is_ascii_hexdigit (hd rest)"
  shows "takeWhile is_ascii_hexdigit (hex_bytes bs @ rest) = hex_bytes bs"
proof -
  have "takeWhile is_ascii_hexdigit rest = []" using assms by (cases rest) simp_all
  then show ?thesis
    using takeWhile_append2 [of "hex_bytes bs" is_ascii_hexdigit rest] hexdigits_hex_bytes [of bs] by simp
qed

text \<open>What the hex library documents: decoding inverts encoding.\<close>

definition decodes_hex :: "abi \<Rightarrow> bool" where
  "decodes_hex A \<longleftrightarrow> (\<forall>bs. ab_hex_decode A (hex_bytes bs) = Some bs)"

lemma extract_revert_data_finds:
  assumes "decodes_hex A" "after_0x pre = None" "4 \<le> length data"
    and "rest = [] \<or> \<not> is_ascii_hexdigit (hd rest)"
  shows "extract_revert_data A (pre @ ''0x'' @ hex_bytes data @ rest) = Some data"
  using assms after_0x_skip [OF assms(2)]
  by (simp add: extract_revert_data_def takeWhile_hex_bytes decodes_hex_def)

lemma extract_revert_data_short:
  assumes "after_0x pre = None" "length (takeWhile is_ascii_hexdigit s) < 8"
  shows "extract_revert_data A (pre @ ''0x'' @ s) = None"
  using assms after_0x_skip [OF assms(1)] by (simp add: extract_revert_data_def Let_def)

text \<open>The fields of the documented layout.\<close>

definition pack_validation_data :: "nat \<Rightarrow> nat \<Rightarrow> nat \<Rightarrow> u256" where
  "pack_validation_data authorizer valid_until valid_after =
     word_of_nat (authorizer * 2 ^ 96 + valid_until * 2 ^ 48 + valid_after)"

lemma fields_div_mod:
  fixes g u v m :: nat
  assumes "u < m" "v < m"
  shows "(g * (m * m) + u * m + v) mod m = v" "(g * (m * m) + u * m + v) div m mod m = u"
    "(g * (m * m) + u * m + v) div (m * m) = g"
proof -
  have m: "0 < m" and d: "g * (m * m) + u * m + v = (g * m + u) * m + v"
    using assms by (auto simp: algebra_simps)
  have 1: "(g * (m * m) + u * m + v) div m = g * m + u" unfolding d using assms(2) by simp
  show "(g * (m * m) + u * m + v) mod m = v" unfolding d using assms(2) by simp
  show "(g * (m * m) + u * m + v) div m mod m = u" unfolding 1 using assms(1) by simp
  show "(g * (m * m) + u * m + v) div (m * m) = g"
    unfolding div_mult2_eq 1 using assms(1) by simp
qed

lemma unat_pack_validation_data:
  assumes "g < 2 ^ 160" "u < 2 ^ 48" "v < 2 ^ 48"
  shows "unat (pack_validation_data g u v) = g * 2 ^ 96 + u * 2 ^ 48 + v"
proof -
  have "g * 2 ^ 96 \<le> (2 ^ 160 - 1) * 2 ^ 96" "u * 2 ^ 48 \<le> (2 ^ 48 - 1) * 2 ^ 48"
    using assms(1,2) by simp_all
  then have "g * 2 ^ 96 + u * 2 ^ 48 + v < 2 ^ 256" using assms(3) by simp
  then have "take_bit 256 (g * 2 ^ 96 + u * 2 ^ 48 + v) = g * 2 ^ 96 + u * 2 ^ 48 + v"
    by (rule take_bit_nat_eq_self)
  then show ?thesis unfolding pack_validation_data_def unsigned_of_nat by simp
qed

lemma mask_48_eq: "mask_48 = mask 48"
  by (simp add: mask_48_def mask_eq_exp_minus_1)

lemma ucast_mask_48: "(ucast (x AND mask_48) :: u64) = word_of_nat (unat x mod 2 ^ 48)"
proof -
  have "unat (x AND mask_48) = unat x mod 2 ^ 48"
    by (simp only: mask_48_eq take_bit_eq_mask [symmetric] unsigned_take_bit_eq)
      (simp only: take_bit_eq_mod)
  then show ?thesis by (metis of_nat_unat)
qed

lemma parse_validation_data_unat:
  "parse_validation_data data =
     (unat data div 2 ^ 160 = 1, word_of_nat (unat data mod 2 ^ 48), word_of_nat (unat data div 2 ^ 48 mod 2 ^ 48))"
proof -
  have shift: "unat (drop_bit n data) = unat data div 2 ^ n" for n
    by (simp only: unat_drop_bit_eq) (simp only: drop_bit_eq_div)
  then have "drop_bit 160 data = 1 \<longleftrightarrow> unat data div 2 ^ 160 = 1"
    by (simp only: word_unat_eq_iff unat_1)
  with shift show ?thesis
    by (simp only: parse_validation_data_def Let_def ucast_mask_48)
qed

lemma parse_validation_data_layout:
  assumes "g < 2 ^ 160" "u < 2 ^ 48" "v < 2 ^ 48"
  shows "parse_validation_data (pack_validation_data g u v) = (g div 2 ^ 64 = 1, word_of_nat v, word_of_nat u)"
proof -
  note fields = fields_div_mod [OF assms(2,3), of g, folded power_add, simplified numeral_plus_numeral add_num_simps]
  have "(g * 2 ^ 96 + u * 2 ^ 48 + v) div 2 ^ 160 = g div 2 ^ 64"
    using fields(3) div_mult2_eq [of "g * 2 ^ 96 + u * 2 ^ 48 + v" "2 ^ 96" "2 ^ 64"] by simp
  with fields show ?thesis
    by (simp only: parse_validation_data_unat unat_pack_validation_data [OF assms])
qed

section \<open>Properties\<close>

text \<open>
  Claim C30.  A failed operation the entry point names reaches the callers: when the error
  message shows the revert data of \<open>FailedOp\<close> as its first hexadecimal text, the bundle
  simulation reports the index and the reason of that operation, and so does the
  simulation of a single operation.
\<close>

theorem failed_op_reaches_caller:
  assumes "decodes_hex A" "ab_decode_error A data = Inr (SolFailedOp i reason)" "4 \<le> length data"
    and "unat i < 2 ^ 64" "after_0x pre = None" "rest = [] \<or> \<not> is_ascii_hexdigit (hd rest)"
    and "\<forall>tx. an_call N tx None w = (Inl (pre @ ''0x'' @ hex_bytes data @ rest), w')"
  shows "call_handle_ops A N ep ops ben gas fees w = (Returns (Inr (HoFailedOp (unat i) reason)), w') \<and>
    simulate_validation A N ep uo w = (Returns (Inr (Inl (VrFailedOp (unat i) reason))), w') \<and>
    simulate_handle_op A N ep uo target dat w = (Returns (Inr (Inl (VrFailedOp (unat i) reason))), w')"
proof -
  have found: "extract_revert_data A (pre @ ''0x'' @ hex_bytes data @ rest) = Some data"
    using assms(1,5,3,6) by (rule extract_revert_data_finds)
  have "uint_to_usize i = Returns (unat i)" using assms(4) by (simp add: uint_to_usize_def)
  with found show ?thesis
    using assms(2,7)
    by (simp add: call_handle_ops_def handle_ops_error_def simulate_validation_def simulate_handle_op_def
        simulation_error_def decode_validation_revert_def)
qed

text \<open>
  A coder and a node for the examples.  The coder reads hexadecimal digits and knows one
  error; the node refuses every call with the given text.
\<close>

definition hex_value :: "char \<Rightarrow> nat" where
  "hex_value c = length (takeWhile (\<lambda>d. d \<noteq> c) ''0123456789abcdef'')"

fun unhex :: "string \<Rightarrow> bytes option" where
  "unhex (c # d # s) =
     (case unhex s of
        None \<Rightarrow> None
      | Some bs \<Rightarrow> Some (word_of_nat (16 * hex_value c + hex_value d) # bs))"
| "unhex [] = Some []"
| "unhex [c] = None"

lemma hex_value_digit: "d < 16 \<Longrightarrow> hex_value (hex_digit d) = d"
  by (auto simp: hex_value_def hex_digit_def less_Suc_eq numeral_eq_Suc)

lemma unhex_hex_bytes: "unhex (hex_bytes bs) = Some bs"
proof (induction bs)
  case (Cons b bs)
  have b: "unat b < 256" using unsigned_less [of b] by simp
  then have "unat b div 16 < 16" by simp
  then have "16 * hex_value (hex_digit (unat b div 16)) + hex_value (hex_digit (unat b mod 16)) = unat b"
    by (simp add: hex_value_digit)
  with Cons show ?case by (simp add: hex_byte_def)
qed simp

definition sample_abi :: abi where
  "sample_abi =
     \<lparr>ab_encode_call = (\<lambda>_. []), ab_encode_simulation = (\<lambda>_. []),
      ab_decode_validation_result = (\<lambda>_. Inl ''short''), ab_decode_execution_result = (\<lambda>_. Inl ''short''),
      ab_decode_user_op_hash = (\<lambda>_. Inl ''short''), ab_decode_balance = (\<lambda>_. Inl ''short''),
      ab_decode_error = (\<lambda>bs. if bs = [1, 2, 3, 4] then Inr (SolFailedOp 3 ''AA21'') else Inl ''unknown''),
      ab_hex_decode = unhex\<rparr>"

lemma sample_decodes_hex: "decodes_hex sample_abi"
  by (simp add: decodes_hex_def sample_abi_def unhex_hex_bytes)

definition idle_node :: "unit alloy_node" where
  "idle_node =
     \<lparr>an_call = (\<lambda>_ _. io_return []), an_get_logs = (\<lambda>_. io_return []),
      an_get_block_by_number = (\<lambda>_. io_return None), an_get_block_number = io_return 0,
      an_get_transaction_count = (\<lambda>_. io_return 0), an_get_balance = (\<lambda>_. io_return 0),
      an_send_raw_transaction = (\<lambda>_. io_return 0), an_get_transaction_receipt = (\<lambda>_. io_return None),
      an_get_chain_id = io_return 1, an_get_max_priority_fee_per_gas = io_return 0\<rparr>"

definition answering :: "(string + bytes) \<Rightarrow> unit alloy_node" where
  "answering r = idle_node\<lparr>an_call := (\<lambda>_ _ w. (r, w))\<rparr>"

lemma answering_call [simp]: "an_call (answering r) tx blk w = (r, w)"
  by (simp add: answering_def)

theorem failed_op_reaches_caller_witness:
  "call_handle_ops sample_abi (answering (Inl ''execution reverted, data: 0x01020304.'')) 7 [] 1 0
     (gas_fees_new 1 1) () = (Returns (Inr (HoFailedOp 3 ''AA21'')), ())"
proof -
  have hex: "hex_bytes [1, 2, 3, 4] = ''01020304''"
    by (simp add: hex_byte_def hex_digit_def)
  have msg: "''execution reverted, data: 0x01020304.'' = ''execution reverted, data: '' @ ''0x'' @ hex_bytes [1, 2, 3, 4] @ ''.''"
    unfolding hex by (simp only: append.simps)
  have "ab_decode_error sample_abi [1, 2, 3, 4] = Inr (SolFailedOp 3 ''AA21'')" by (simp add: sample_abi_def)
  moreover have "after_0x ''execution reverted, data: '' = None" by simp
  moreover have "\<not> is_ascii_hexdigit (hd ''.'')" by (simp add: is_ascii_hexdigit_def)
  ultimately have "call_handle_ops sample_abi (answering (Inl ''execution reverted, data: 0x01020304.'')) 7 [] 1 0
     (gas_fees_new 1 1) () = (Returns (Inr (HoFailedOp (unat (3 :: u256)) ''AA21'')), ())"
    using failed_op_reaches_caller [OF sample_decodes_hex, of "[1, 2, 3, 4]" 3 "''AA21''"
        "''execution reverted, data: ''" "''.''" "answering (Inl ''execution reverted, data: 0x01020304.'')" "()" "()"]
    by (simp add: msg)
  then show ?thesis by simp
qed

text \<open>
  Only the first hexadecimal text of a message is looked at: when it is shorter
  than a selector, as an amount in a revert reason is, the failed operation behind it is
  lost, and the callers see a transport or simulation failure instead.
\<close>

theorem earlier_hex_hides_revert:
  assumes "after_0x pre = None" "length (takeWhile is_ascii_hexdigit s) < 8"
    and "\<forall>tx. an_call N tx None w = (Inl (pre @ ''0x'' @ s), w')"
  shows "call_handle_ops A N ep ops ben gas fees w = (Returns (Inl (Transport (pre @ ''0x'' @ s))), w') \<and>
    simulate_validation A N ep uo w = (Returns (Inl (SimulationFailed (pre @ ''0x'' @ s))), w')"
  using assms(3) extract_revert_data_short [OF assms(1,2), of A]
  by (simp add: call_handle_ops_def handle_ops_error_def simulate_validation_def simulation_error_def)

theorem earlier_hex_hides_revert_witness:
  "let m = ''reverted: AA21 needs 0x5 wei, data: 0x01020304'' in
   call_handle_ops sample_abi (answering (Inl m)) 7 [] 1 0 (gas_fees_new 1 1) () = (Returns (Inl (Transport m)), ())"
proof -
  have msg: "''reverted: AA21 needs 0x5 wei, data: 0x01020304'' =
      ''reverted: AA21 needs '' @ ''0x'' @ ''5 wei, data: 0x01020304''"
    by (simp only: append.simps)
  have "after_0x ''reverted: AA21 needs '' = None" by simp
  moreover have "length (takeWhile is_ascii_hexdigit ''5 wei, data: 0x01020304'') < 8"
    by (simp add: is_ascii_hexdigit_def)
  ultimately show ?thesis
    unfolding Let_def msg by (rule earlier_hex_hides_revert [THEN conjunct1]) simp
qed

text \<open>
  Read against the documented layout, authorizer in the upper 160 bits above the
  two 48-bit times, the times of an operation are decoded correctly, but the signature flag
  comes from 64 bits too far up: a failed account signature (authorizer 1) is reported as
  valid.
\<close>

theorem failed_signature_unreported:
  assumes "an_call N (entry_point_tx ep (ab_encode_simulation A (SimulateValidation (convert_packed_uo uo)))) None w =
      (Inr out, w')"
    and "ab_decode_validation_result A out = Inr vr"
    and "ri_account_validation_data (vr_return_info vr) = pack_validation_data g u v"
    and "g < 2 ^ 160" "u < 2 ^ 48" "v < 2 ^ 48"
    and "simulate_validation A N ep uo w = (Returns r, w'')"
  shows "\<exists>vo. r = Inr (Inr vo) \<and> unat (vo_valid_after vo) = v \<and> unat (vo_valid_until vo) = u \<and>
    (vo_account_sig_failed vo \<longleftrightarrow> g div 2 ^ 64 = 1) \<and> (g = 1 \<longrightarrow> \<not> vo_account_sig_failed vo)"
proof -
  obtain vo where vo: "validation_output_of vr = Returns vo" "r = Inr (Inr vo)"
    using assms(1,2,7) by (auto simp: simulate_validation_def split: run.splits)
  have small: "unat (word_of_nat n :: u64) = n" if "n < 2 ^ 48" for n
    using that by (simp add: unsigned_of_nat take_bit_nat_eq_self)
  have "vo_account_sig_failed vo = (g div 2 ^ 64 = 1)" "vo_valid_after vo = word_of_nat v"
      "vo_valid_until vo = word_of_nat u"
    using vo(1) assms(3) parse_validation_data_layout [OF assms(4-6)]
    by (auto simp: validation_output_of_def Let_def split: prod.splits run.splits)
  then show ?thesis using vo(2) small assms(5,6) by simp
qed

definition sample_validation :: validation_result where
  "sample_validation =
     (let none = \<lparr>ss_stake = 0, ss_unstake_delay_sec = 0\<rparr>
      in \<lparr>vr_return_info = \<lparr>ri_pre_op_gas = 50000, ri_prefund = 0,
            ri_account_validation_data = pack_validation_data 1 9 5, ri_paymaster_validation_data = 0,
            ri_paymaster_context = []\<rparr>,
          vr_sender_info = none, vr_factory_info = none, vr_paymaster_info = none,
          vr_aggregator_info = \<lparr>as_aggregator = 0, as_stake_info = none\<rparr>\<rparr>)"

theorem failed_signature_unreported_witness:
  "\<forall>uo. \<exists>vo. simulate_validation (sample_abi\<lparr>ab_decode_validation_result := (\<lambda>_. Inr sample_validation)\<rparr>)
      (answering (Inr [])) 7 uo () = (Returns (Inr (Inr vo)), ()) \<and>
    unat (vo_valid_until vo) = 9 \<and> \<not> vo_account_sig_failed vo"
proof
  fix uo
  let ?A = "sample_abi\<lparr>ab_decode_validation_result := (\<lambda>_. Inr sample_validation)\<rparr>"
  obtain a b c where account: "parse_validation_data (pack_validation_data 1 9 5) = (a, b, c)"
    by (cases "parse_validation_data (pack_validation_data 1 9 5)")
  obtain a' b' c' where "parse_validation_data 0 = (a', b', c')"
    by (cases "parse_validation_data 0")
  with account obtain vo where vo: "validation_output_of sample_validation = Returns vo"
    by (simp add: validation_output_of_def sample_validation_def stake_info_of_def uint_to_def Let_def)
  then have run: "simulate_validation ?A (answering (Inr [])) 7 uo () = (Returns (Inr (Inr vo)), ())"
    by (simp add: simulate_validation_def)
  have "ri_account_validation_data (vr_return_info sample_validation) = pack_validation_data 1 9 5"
    by (simp add: sample_validation_def Let_def)
  from failed_signature_unreported [OF answering_call _ this _ _ _ run] run
  show "\<exists>vo. simulate_validation ?A (answering (Inr [])) 7 uo () = (Returns (Inr (Inr vo)), ()) \<and>
    unat (vo_valid_until vo) = 9 \<and> \<not> vo_account_sig_failed vo" by simp
qed

end
