(* ===== verification/Startup.thy ===== *)
theory Startup
  imports Bundler_Task Rpc Entry_Point
begin

text \<open>
  \<open>bin/bunzo/src/main.rs\<close> and \<open>crates/rpc/src/server.rs\<close>: how the program is put together
  from its command line.  Key parsing is library code and a parameter, as are the ABI coders
  and the node client.  The bundle simulation goes through an arbitrary handler, because the
  one of the program can panic on an index that does not fit a machine word
  (\<open>Entry_Point.call_handle_ops\<close>).
\<close>

section \<open>Command line and chain\<close>

record cli_args =
  ca_rpc_addr :: string
  ca_node_url :: string
  ca_chain_id :: u64
  ca_entry_point :: address
  ca_private_key :: "string option"
  ca_max_pool_size :: nat
  ca_log :: string

text \<open>The \<open>default_value\<close> of each argument.\<close>

definition cli_args_default :: cli_args where
  "cli_args_default =
     \<lparr>ca_rpc_addr = ''127.0.0.1:3000'', ca_node_url = ''http://localhost:8545'', ca_chain_id = 0,
      ca_entry_point = 0x0000000071727De22E5E9d8BAf0edAc6f37da032, ca_private_key = None,
      ca_max_pool_size = 4096, ca_log = ''info''\<rparr>"

definition startup_chain_id :: "cli_args \<Rightarrow> 'w evm_provider \<Rightarrow> ('w, u64) io" where
  "startup_chain_id cli P =
     (if ca_chain_id cli = 0 then evm_get_chain_id P else io_return (ca_chain_id cli))"

definition chain_spec_for :: "u64 \<Rightarrow> chain_spec" where
  "chain_spec_for cid =
     (if cid = 1 then chain_spec_mainnet
      else if cid = 31337 then chain_spec_dev
      else chain_spec_mainnet\<lparr>cs_id := cid, cs_name := ''chain-'' @ decimal (unat cid)\<rparr>)"

definition main_chain_spec :: "cli_args \<Rightarrow> u64 \<Rightarrow> chain_spec" where
  "main_chain_spec cli cid =
     (chain_spec_for cid)
       \<lparr>cs_entry_point_v0_7 := ca_entry_point cli, cs_id := cid,
        cs_max_pool_size := ca_max_pool_size cli\<rparr>"

section \<open>The RPC server\<close>

record rpc_server_config =
  rc_addr :: string
  rc_max_connections :: u32
  rc_max_request_body_size :: u32

definition rpc_server_config_default :: rpc_server_config where
  "rpc_server_config_default =
     \<lparr>rc_addr = ''127.0.0.1:3000'', rc_max_connections = 100, rc_max_request_body_size = 10 * 1024 * 1024\<rparr>"

definition main_rpc_config :: "cli_args \<Rightarrow> rpc_server_config" where
  "main_rpc_config cli = rpc_server_config_default\<lparr>rc_addr := ca_rpc_addr cli\<rparr>"

definition main_rpc :: "chain_spec \<Rightarrow> rpc_state" where
  "main_rpc cs = rpc_new (pool_new (pool_config_from cs)) rm_default"

section \<open>The bundler task\<close>

text \<open>
  The gas oracle keeps state of its own, so the task of the program runs on pairs of the
  oracle and the node; the provider leaves the oracle alone.
\<close>

definition beside :: "'w evm_provider \<Rightarrow> ('s \<times> 'w) evm_provider" where
  "beside P =
     \<lparr>evm_call = (\<lambda>tx blk. on_node (evm_call P tx blk)),
      evm_get_logs = (\<lambda>filt. on_node (evm_get_logs P filt)),
      evm_get_block = (\<lambda>n. on_node (evm_get_block P n)),
      evm_get_block_number = on_node (evm_get_block_number P),
      evm_get_nonce = (\<lambda>a. on_node (evm_get_nonce P a)),
      evm_get_balance = (\<lambda>a. on_node (evm_get_balance P a)),
      evm_send_raw_transaction = (\<lambda>raw. on_node (evm_send_raw_transaction P raw)),
      evm_get_transaction_receipt = (\<lambda>h. on_node (evm_get_transaction_receipt P h)),
      evm_get_chain_id = on_node (evm_get_chain_id P),
      evm_get_base_fee = on_node (evm_get_base_fee P),
      evm_get_max_priority_fee = on_node (evm_get_max_priority_fee P)\<rparr>"

definition main_task_env ::
  "abi \<Rightarrow> hashing \<Rightarrow> key_library \<Rightarrow> (gas_oracle \<times> 'w) bundle_handler \<Rightarrow> 'w evm_provider \<Rightarrow> chain_spec \<Rightarrow>
   (gas_oracle \<times> 'w) task_env" where
  "main_task_env A H K B P cs =
     \<lparr>te_proposer = bundle_proposer_impl (proposer_new cs (kl_address K)) B (provider_gas_oracle P),
      te_signer = local_signer K,
      te_strategy = direct_strategy (beside P),
      te_provider = beside P,
      te_chain_spec = cs,
      te_hashing = H,
      te_encode_handle_ops = encode_handle_ops A\<rparr>"

section \<open>main\<close>

datatype startup_error = NoChainId provider_error | BadPrivateKey signer_error

record 'w wiring =
  wi_chain_spec :: chain_spec
  wi_rpc :: rpc_state
  wi_rpc_config :: rpc_server_config
  wi_task :: "(gas_oracle \<times> 'w) task_env option"

definition from_private_key :: "(string \<Rightarrow> string + key_library) \<Rightarrow> string \<Rightarrow> signer_error + key_library" where
  "from_private_key parse_key key = map_sum SigningFailed id (parse_key key)"

definition main_wiring ::
  "(string \<Rightarrow> string + key_library) \<Rightarrow> abi \<Rightarrow> hashing \<Rightarrow> (gas_oracle \<times> 'w) bundle_handler \<Rightarrow> 'w alloy_node \<Rightarrow>
   cli_args \<Rightarrow> 'w \<Rightarrow> (startup_error + 'w wiring) \<times> 'w" where
  "main_wiring parse_key A H B N cli =
     (let P = alloy_evm_provider N in
      io_bind (io_map_err NoChainId (startup_chain_id cli P)) (\<lambda>cid.
        let cs = main_chain_spec cli cid;
            wiring = (\<lambda>task. \<lparr>wi_chain_spec = cs, wi_rpc = main_rpc cs,
                              wi_rpc_config = main_rpc_config cli, wi_task = task\<rparr>)
        in case ca_private_key cli of
             None \<Rightarrow> io_return (wiring None)
           | Some prv_key \<Rightarrow>
               (case from_private_key parse_key prv_key of
                  Inl e \<Rightarrow> io_fail (BadPrivateKey e)
                | Inr K \<Rightarrow> io_return (wiring (Some (main_task_env A H K B P cs))))))"

section \<open>Facts\<close>

lemma main_chain_spec_simps [simp]:
  "cs_id (main_chain_spec cli n) = n"
  "cs_entry_point_v0_7 (main_chain_spec cli n) = ca_entry_point cli"
  "cs_max_pool_size (main_chain_spec cli n) = ca_max_pool_size cli"
  by (simp_all add: main_chain_spec_def)

text \<open>With the defaults the program runs on the unchanged mainnet preset and server configuration.\<close>

lemma defaults_fit:
  "main_chain_spec cli_args_default 1 = chain_spec_mainnet"
  "main_rpc_config cli_args_default = rpc_server_config_default"
  by (simp_all add: main_chain_spec_def chain_spec_for_def cli_args_default_def chain_spec_mainnet_def
      main_rpc_config_def rpc_server_config_default_def)

lemma main_task_env_simps [simp]:
  "te_hashing (main_task_env A H K B P cs) = H"
  "te_chain_spec (main_task_env A H K B P cs) = cs"
  "te_strategy (main_task_env A H K B P cs) = direct_strategy (beside P)"
  "te_provider (main_task_env A H K B P cs) = beside P"
  by (simp_all add: main_task_env_def)

text \<open>Whatever starts, its parts agree on the chain, and the task never panics.\<close>

lemma main_wiring_task:
  assumes "main_wiring parse_key A H B N cli w = (Inr wi, w')" "wi_task wi = Some E"
  obtains K where "E = main_task_env A H K B (alloy_evm_provider N) (wi_chain_spec wi)"
    "wi_rpc wi = main_rpc (wi_chain_spec wi)"
    "wi_chain_spec wi = main_chain_spec cli (cs_id (wi_chain_spec wi))"
proof -
  let ?P = "alloy_evm_provider N"
  obtain n w1 where n: "startup_chain_id cli ?P w = (Inr n, w1)"
    using assms(1) by (auto simp: main_wiring_def Let_def io_bind_Inr_iff)
  show thesis
  proof (cases "ca_private_key cli")
    case None
    then show thesis using assms n by (auto simp: main_wiring_def Let_def io_defs)
  next
    case (Some key)
    show thesis
    proof (cases "from_private_key parse_key key")
      case (Inl e)
      then show thesis using assms n Some by (auto simp: main_wiring_def Let_def io_defs)
    next
      case (Inr K)
      then have "wi = \<lparr>wi_chain_spec = main_chain_spec cli n, wi_rpc = main_rpc (main_chain_spec cli n),
          wi_rpc_config = main_rpc_config cli, wi_task = Some (main_task_env A H K B ?P (main_chain_spec cli n))\<rparr>"
        using assms n Some by (auto simp: main_wiring_def Let_def io_defs)
      then show thesis using assms(2) that [of K] by simp
    qed
  qed
qed

end
