(* ===== verification/Program.thy ===== *)
theory Program
  imports Startup
begin

text \<open>
  The running program: the RPC server and the bundler task over one pool, as \<open>main\<close> spawns
  them.  Submissions are served one after another: each is one step, and a step of the task
  takes in the submissions that are served while its handler awaits the node; the node moves
  on its own in between.  The statements of this theory are about these runs.  What happens
  when submissions overlap, or the task's removals fall between the locks of an \<open>add\<close>, is
  outside of them; \<open>Pool_Threads\<close> and \<open>Rpc_Threads\<close> are about that.
\<close>

section \<open>State and steps\<close>

record 'w program =
  pg_rpc :: rpc_state
  pg_task :: task
  pg_node :: 'w

text \<open>What the served requests make of the pool a handler finds after its await.\<close>

definition served ::
  "'w task_env \<Rightarrow> (user_operation \<times> address) list \<Rightarrow> rpc_state \<Rightarrow> operation_pool \<Rightarrow> operation_pool" where
  "served E calls s p = rs_pool (snd (send_all (te_hashing E) (te_chain_spec E) calls (s\<lparr>rs_pool := p\<rparr>)))"

text \<open>The handlers that look at the pool after awaiting the node.\<close>

definition awaits_with_pool :: "task \<Rightarrow> bool" where
  "awaits_with_pool t \<longleftrightarrow> ts_state t = Building \<or> ts_state t = Pending"

text \<open>A step is labelled with the submissions that are served during it.\<close>

inductive program_step ::
  "'w task_env \<Rightarrow> (user_operation \<times> address) list \<Rightarrow> 'w program \<Rightarrow> 'w program \<Rightarrow> bool" for E where
  request: "send_user_operation (te_hashing E) (te_chain_spec E) uo ep (pg_rpc s) = (r, rpc') \<Longrightarrow>
    program_step E [(uo, ep)] s (s\<lparr>pg_rpc := rpc'\<rparr>)"
| task_moves: "calls = [] \<or> awaits_with_pool (pg_task s) \<Longrightarrow>
    send_all (te_hashing E) (te_chain_spec E) calls (pg_rpc s) = (rs, rpc') \<Longrightarrow>
    task_step E (served E calls (pg_rpc s)) now (pg_task s, rs_pool (pg_rpc s), pg_node s) = Returns (t', p', w') \<Longrightarrow>
    program_step E calls s \<lparr>pg_rpc = rpc'\<lparr>rs_pool := p'\<rparr>, pg_task = t', pg_node = w'\<rparr>"
| node_moves: "program_step E [] s (s\<lparr>pg_node := w'\<rparr>)"

inductive_cases program_stepE: "program_step E calls s s'"

text \<open>The program starts with an empty pool and a tracker that could be initialised.\<close>

definition program_init :: "'w task_env \<Rightarrow> 'w program \<Rightarrow> bool" where
  "program_init E s \<longleftrightarrow>
     pg_rpc s = main_rpc (te_chain_spec E) \<and>
     (\<exists>w. task_start E (rs_pool (pg_rpc s)) w = (Inr (), pg_task s, rs_pool (pg_rpc s), pg_node s))"

inductive program_reaches :: "'w task_env \<Rightarrow> 'w program \<Rightarrow> bool" for E where
  initial: "program_init E s \<Longrightarrow> program_reaches E s"
| step: "program_reaches E s \<Longrightarrow> program_step E calls s s' \<Longrightarrow> program_reaches E s'"

text \<open>
  The submissions that the server has answered with a hash: the state it was in, the operation
  and the entry point as they were sent, and the hash.
\<close>

type_synonym accepted_calls = "(rpc_state \<times> user_operation \<times> address \<times> b256) list"

fun accepted_in ::
  "hashing \<Rightarrow> chain_spec \<Rightarrow> (user_operation \<times> address) list \<Rightarrow> rpc_state \<Rightarrow> accepted_calls" where
  "accepted_in H cs [] s = []"
| "accepted_in H cs ((uo, ep) # calls) s =
     (case send_user_operation H cs uo ep s of
        (r, s1) \<Rightarrow> (case r of Returns (Inr h) \<Rightarrow> [(s, uo, ep, h)] | _ \<Rightarrow> []) @ accepted_in H cs calls s1)"

inductive program_history :: "'w task_env \<Rightarrow> accepted_calls \<Rightarrow> 'w program \<Rightarrow> bool" for E where
  begins: "program_init E s \<Longrightarrow> program_history E [] s"
| continues: "program_history E hist s \<Longrightarrow> program_step E calls s s' \<Longrightarrow>
    program_history E (hist @ accepted_in (te_hashing E) (te_chain_spec E) calls (pg_rpc s)) s'"

lemma history_reaches: "program_history E hist s \<Longrightarrow> program_reaches E s"
  by (induction rule: program_history.induct) (auto intro: program_reaches.intros)

lemma reaches_history: "program_reaches E s \<Longrightarrow> \<exists>hist. program_history E hist s"
proof (induction rule: program_reaches.induct)
  case (initial s)
  then show ?case using program_history.begins by blast
next
  case (step s calls s')
  then show ?case using program_history.continues by blast
qed

section \<open>The states of the program are states of the task machine\<close>

lemma served_inv:
  assumes "rpc_inv (te_hashing E) s" "pool_inv (te_hashing E) p"
  shows "pool_inv (te_hashing E) (served E calls s p)"
proof -
  obtain rs s' where run: "send_all (te_hashing E) (te_chain_spec E) calls (s\<lparr>rs_pool := p\<rparr>) = (rs, s')"
    by (cases "send_all (te_hashing E) (te_chain_spec E) calls (s\<lparr>rs_pool := p\<rparr>)")
  have "rpc_inv (te_hashing E) (s\<lparr>rs_pool := p\<rparr>)" using assms by (simp add: rpc_inv_def)
  from send_all_inv [OF this run] show ?thesis using run by (simp add: served_def rpc_inv_def)
qed

lemma program_refines_task:
  assumes "program_reaches E s"
  shows "rpc_inv (te_hashing E) (pg_rpc s) \<and> reaches E (pg_task s, rs_pool (pg_rpc s), pg_node s)"
  using assms
proof (induction rule: program_reaches.induct)
  case (initial s)
  then obtain w where w: "pg_rpc s = main_rpc (te_chain_spec E)"
      "task_start E (rs_pool (pg_rpc s)) w = (Inr (), pg_task s, rs_pool (pg_rpc s), pg_node s)"
    by (auto simp: program_init_def)
  have inv: "rpc_inv (te_hashing E) (pg_rpc s)" unfolding w(1) main_rpc_def rm_default_def by (rule rpc_new_inv)
  then have "pool_inv (te_hashing E) (rs_pool (pg_rpc s))" by (simp add: rpc_inv_def)
  from reaches.started [OF this w(2)] inv show ?case by blast
next
  case (step s calls0 s')
  have inv: "rpc_inv (te_hashing E) (pg_rpc s)" and r: "reaches E (pg_task s, rs_pool (pg_rpc s), pg_node s)"
    using step.IH by blast+
  from step.hyps(2) show ?case
  proof (cases rule: program_step.cases)
    case (request uo ep r rpc')
    have inv': "rpc_inv (te_hashing E) rpc'" using send_inv [OF inv request(3)] .
    then have "pool_inv (te_hashing E) (rs_pool rpc')" by (simp add: rpc_inv_def)
    from reaches.outside [OF r this] inv' show ?thesis by (simp add: request(2))
  next
    case (task_moves rs rpc' now t' p' w')
    have env: "pool_inv (te_hashing E) (served E calls0 (pg_rpc s) p)" if "pool_inv (te_hashing E) p" for p
      using served_inv [OF inv that] .
    have r': "reaches E (t', p', w')" using reaches.stepped [OF r env task_moves(4)] .
    then have "pool_inv (te_hashing E) p'" using reaches_inv [OF r'] by blast
    moreover have "rpc_inv (te_hashing E) rpc'" using send_all_inv [OF inv task_moves(3)] .
    ultimately show ?thesis using r' by (simp add: task_moves(1) rpc_inv_def)
  next
    case (node_moves w')
    have "pool_inv (te_hashing E) (rs_pool (pg_rpc s))" using inv by (simp add: rpc_inv_def)
    from reaches.outside [OF r this] inv show ?thesis by (simp add: node_moves)
  qed
qed

section \<open>What requests do to the pool\<close>

definition ids :: "operation_pool \<Rightarrow> user_operation_id set" where
  "ids p = pe_id ` set_mset (entries_of p)"

text \<open>
  An operation that the server has accepted: it is in the history with the server's state at
  that time, in which its entry point, fields, fees, nonce and entities were in order.
\<close>

definition vouched :: "hashing \<Rightarrow> chain_spec \<Rightarrow> accepted_calls \<Rightarrow> user_operation \<Rightarrow> bool" where
  "vouched H cs hist uo \<longleftrightarrow>
     (\<exists>s0 user_op ep h. (s0, user_op, ep, h) \<in> set hist \<and> rpc_inv H s0 \<and>
        fst (send_user_operation H cs user_op ep s0) = Returns (Inr h) \<and>
        uo = set_context H ep (cs_id cs) user_op \<and> is_entry_point cs ep \<and> admissible cs s0 uo \<and>
        h = uo_hash H uo)"

definition pool_vouched :: "hashing \<Rightarrow> chain_spec \<Rightarrow> accepted_calls \<Rightarrow> operation_pool \<Rightarrow> bool" where
  "pool_vouched H cs hist p \<longleftrightarrow> (\<forall>e\<in>#entries_of p. vouched H cs hist (pe_uo e))"

lemma vouched_append: "vouched H cs hist uo \<Longrightarrow> vouched H cs (hist @ hist') uo"
  unfolding vouched_def by fastforce

lemma pool_vouched_append: "pool_vouched H cs hist p \<Longrightarrow> pool_vouched H cs (hist @ hist') p"
  by (simp add: pool_vouched_def vouched_append)

lemma send_pool:
  assumes "rpc_inv H s" "send_user_operation H cs uo ep s = (r, s')"
  shows "ids (rs_pool s) \<subseteq> ids (rs_pool s')"
    and "pool_vouched H cs hist (rs_pool s) \<Longrightarrow>
      pool_vouched H cs (hist @ (case r of Returns (Inr h) \<Rightarrow> [(s, uo, ep, h)] | _ \<Rightarrow> [])) (rs_pool s')"
proof -
  let ?acc = "case r of Returns (Inr h) \<Rightarrow> [(s, uo, ep, h)] | _ \<Rightarrow> []"
  have "ids (rs_pool s) \<subseteq> ids (rs_pool s') \<and>
      (pool_vouched H cs hist (rs_pool s) \<longrightarrow> pool_vouched H cs (hist @ ?acc) (rs_pool s'))"
    using assms(2)
  proof (cases rule: send_cases)
    case (rejected e)
    then show ?thesis by (simp add: pool_vouched_append)
  next
    case (validated p')
    let ?uo = "set_context H ep (cs_id cs) uo" and ?p = "rs_pool s"
    have inv: "pool_inv H ?p" using assms(1) by (simp add: rpc_inv_def)
    obtain a where add: "pool_add H ?uo (current_base_fee s) ?p = (a, p')"
      using validated(5) by (metis prod.collapse)
    show ?thesis
    proof (cases a)
      case (Inl e)
      then show ?thesis using pool_add_outcome [OF inv add] validated(3) by (simp add: pool_vouched_append)
    next
      case (Inr h)
      then have h: "h = uo_hash H ?uo" and ent: "entries_of p' = add_mset (new_entry H ?uo (current_base_fee s) ?p)
          {#e \<in># entries_of ?p. pe_id e \<noteq> uo_id ?uo#}"
        using pool_add_outcome [OF inv add] by simp_all
      have r: "r = Returns (Inr h)" using validated(4) add Inr by simp
      have "admissible cs s ?uo"
        using validate_admissible [OF assms(1), of cs ?uo] validated(2) by auto
      then have ok: "vouched H cs (hist @ ?acc) ?uo"
        unfolding vouched_def using assms validated(1) h r
        by (intro exI [of _ s] exI [of _ uo] exI [of _ ep] exI [of _ h]) (simp del: set_context_simps)
      have "pe_id (new_entry H ?uo (current_base_fee s) ?p) = uo_id ?uo"
        "pe_uo (new_entry H ?uo (current_base_fee s) ?p) = ?uo" by simp_all
      then show ?thesis
        using ok ent validated(3) by (auto simp: ids_def pool_vouched_def vouched_append)
    qed
  qed
  then show "ids (rs_pool s) \<subseteq> ids (rs_pool s')"
    and "pool_vouched H cs hist (rs_pool s) \<Longrightarrow> pool_vouched H cs (hist @ ?acc) (rs_pool s')" by blast+
qed

lemma send_all_pool:
  assumes "rpc_inv H s" "send_all H cs calls s = (rs, s')"
  shows "ids (rs_pool s) \<subseteq> ids (rs_pool s') \<and>
    (pool_vouched H cs hist (rs_pool s) \<longrightarrow> pool_vouched H cs (hist @ accepted_in H cs calls s) (rs_pool s'))"
  using assms
proof (induction H cs calls s arbitrary: rs hist rule: send_all.induct)
  case (2 H cs uo ep calls s)
  obtain r s1 where 1: "send_user_operation H cs uo ep s = (r, s1)"
    by (cases "send_user_operation H cs uo ep s")
  obtain rs1 where rest: "send_all H cs calls s1 = (rs1, s')"
    using 2(3) by (auto simp: 1 split: prod.splits)
  let ?acc = "case r of Returns (Inr h) \<Rightarrow> [(s, uo, ep, h)] | _ \<Rightarrow> []"
  have acc: "accepted_in H cs ((uo, ep) # calls) s = ?acc @ accepted_in H cs calls s1" by (simp add: 1)
  show ?case
    using "2.IH" [OF 1 [symmetric] send_inv [OF 2(2) 1] rest, of "hist @ ?acc"] send_pool(1) [OF 2(2) 1] send_pool(2) [OF 2(2) 1, of hist]
    unfolding acc by auto
qed simp

text \<open>How the pool of the program changes in a step of the task.\<close>

lemma task_moves_pool:
  assumes "calls = [] \<or> awaits_with_pool t" "send_all (te_hashing E) (te_chain_spec E) calls s = (rs, rpc')"
    and "task_step E (served E calls s) now (t, rs_pool s, w) = Returns (t', p', w')"
  obtains (kept) "p' = rs_pool rpc'"
  | (proposed) b w1 where "ts_state t = Building" "bp_make_bundle (te_proposer E) (rs_pool s) w = (Inr b, w1)"
      "p' = remove_rejected (bd_rejected_ops b) (rs_pool rpc')"
  | (mined) n k w1 where "ts_state t = Pending"
      "check_pending (te_provider E) (ts_tracker t, w) = (Inr (Some (TxMined n)), k, w1)"
      "p' = remove_bundled_ops E t (rs_pool rpc')"
proof -
  have env: "served E calls s (rs_pool s) = rs_pool rpc'" using assms(2) by (simp add: served_def)
  from assms(3) show thesis
  proof (cases rule: step_pool)
    case quiet
    then have "calls = []" using assms(1) by (simp add: awaits_with_pool_def)
    then show thesis using quiet(1) assms(2) kept by simp
  next
    case waited
    then show thesis using kept env by simp
  next
    case (proposed b w1)
    then show thesis using that(2) env by simp
  next
    case (mined n k w1)
    then show thesis using that(3) env by simp
  qed
qed

lemma remove_rejected_entries:
  "pool_inv H p \<Longrightarrow> entries_of (remove_rejected rs p) = {#e \<in># entries_of p. pe_hash e \<notin> rj_hash ` set rs#}"
  using fold_remove_by_hash [of H p rj_hash rs] by (simp add: remove_rejected_def)

lemma remove_bundled_entries:
  assumes "pool_inv H p" "ts_current_bundle t = Some b"
  shows "entries_of (remove_bundled_ops E t p) = {#e \<in># entries_of p. pe_id e \<notin> packed_id E ` set (bd_ops b)#}"
  using fold_remove_by_id [OF assms(1), of "packed_id E" "bd_ops b"] assms(2) by (simp add: remove_bundled_ops_def)

section \<open>Only accepted operations are bundled\<close>

definition bundle_vouched :: "hashing \<Rightarrow> chain_spec \<Rightarrow> accepted_calls \<Rightarrow> task \<Rightarrow> bool" where
  "bundle_vouched H cs hist t \<longleftrightarrow>
     (\<forall>b. ts_current_bundle t = Some b \<longrightarrow>
        bd_ops b \<noteq> [] \<and> (\<forall>p\<in>set (bd_ops b). \<exists>uo. vouched H cs hist uo \<and> p = pack uo))"

lemma bundle_vouched_append: "bundle_vouched H cs hist t \<Longrightarrow> bundle_vouched H cs (hist @ hist') t"
  unfolding bundle_vouched_def by (meson vouched_append)

context proposer_contract
begin

lemma proposed_vouched:
  assumes "pool_inv H p" "pool_vouched H cs hist p" "bp_make_bundle bp p w = (Inr b, w')"
  shows "bd_ops b \<noteq> [] \<and> (\<forall>q\<in>set (bd_ops b). \<exists>uo. vouched H cs hist uo \<and> q = pack uo)"
proof -
  obtain kept where kept: "bd_ops b = packed_ops kept" "kept \<noteq> []" "set kept \<subseteq> set_mset (entries_of p)"
    using proposes [OF assms(1,3)] by (auto simp: bundle_from_def)
  then show ?thesis
    using assms(2) by (auto simp: packed_ops_def pool_vouched_def)
qed

lemma program_vouched:
  assumes "te_proposer E = bp" "te_hashing E = H" "program_history E hist s"
  shows "pool_vouched H (te_chain_spec E) hist (rs_pool (pg_rpc s)) \<and>
    bundle_vouched H (te_chain_spec E) hist (pg_task s)"
  using assms(3)
proof (induction rule: program_history.induct)
  case (begins s)
  then obtain w where w: "pg_rpc s = main_rpc (te_chain_spec E)"
      "task_start E (rs_pool (pg_rpc s)) w = (Inr (), pg_task s, rs_pool (pg_rpc s), pg_node s)"
    by (auto simp: program_init_def)
  have "ts_current_bundle (pg_task s) = None"
    using task_start_bundle [OF w(2)] .
  then show ?case
    by (simp add: bundle_vouched_def pool_vouched_def w(1) main_rpc_def rpc_new_def pool_new_def entries_of_def)
next
  case (continues hist s calls0 s')
  let ?cs = "te_chain_spec E" and ?hist' = "hist @ accepted_in (te_hashing E) (te_chain_spec E) calls0 (pg_rpc s)"
  note refines = program_refines_task [OF history_reaches [OF continues.hyps(1)]]
  have inv: "rpc_inv H (pg_rpc s)" and p: "pool_inv H (rs_pool (pg_rpc s))"
    using refines assms(2) by (simp_all add: rpc_inv_def)
  have kept: "bundle_vouched H ?cs ?hist' (pg_task s)" using continues.IH by (simp add: bundle_vouched_append)
  from continues.hyps(2) show ?case
  proof (cases rule: program_step.cases)
    case (request uo ep r rpc')
    then show ?thesis using send_pool(2) [of H "pg_rpc s" ?cs uo ep r rpc' hist] inv continues.IH assms(2) kept by simp
  next
    case (task_moves rs rpc' now t' p' w')
    have sent: "send_all H ?cs calls0 (pg_rpc s) = (rs, rpc')" using task_moves(3) assms(2) by simp
    have inv': "pool_inv H (rs_pool rpc')" using send_all_inv [OF inv sent] by (simp add: rpc_inv_def)
    have ok': "pool_vouched H ?cs ?hist' (rs_pool rpc')"
      using send_all_pool [OF inv sent, of hist] continues.IH assms(2) by simp
    have "bundle_vouched H ?cs ?hist' t'"
      unfolding bundle_vouched_def
    proof (intro allI impI)
      fix b
      assume "ts_current_bundle t' = Some b"
      from step_bundle [OF task_moves(4) this]
      show "bd_ops b \<noteq> [] \<and> (\<forall>p\<in>set (bd_ops b). \<exists>uo. vouched H ?cs ?hist' uo \<and> p = pack uo)"
        using kept proposed_vouched [OF p pool_vouched_append] continues.IH assms(1)
        unfolding bundle_vouched_def by blast
    qed
    moreover have "pool_vouched H ?cs ?hist' p'"
      using task_moves(2,3,4)
    proof (cases rule: task_moves_pool)
      case kept
      then show ?thesis using ok' by simp
    next
      case (proposed b w1)
      then show ?thesis using ok' remove_rejected_entries [OF inv'] by (simp add: pool_vouched_def)
    next
      case (mined n k w1)
      obtain b where b: "ts_current_bundle (pg_task s) = Some b"
        using refines reaches_inv mined(1) by (fastforce simp: task_inv_defs split: option.splits)
      then show ?thesis using ok' mined(3) remove_bundled_entries [OF inv' b, of E] by (simp add: pool_vouched_def)
    qed
    ultimately show ?thesis by (simp add: task_moves(1))
  next
    case (node_moves w')
    then show ?thesis using continues.IH by simp
  qed
qed

end

section \<open>A run for the examples\<close>

text \<open>
  The program of \<open>main\<close> on the development chain, with a node at block 5 that mines every
  transaction at once, and one request.
\<close>

definition sample_key :: key_library where
  "sample_key =
     \<lparr>kl_address = 7, kl_signature_hash = (\<lambda>_. 0), kl_sign_hash = (\<lambda>_. Inr [9]), kl_encode_signed = (\<lambda>_ sig. sig)\<rparr>"

definition mining_node :: "u64 evm_provider" where
  "mining_node = sample_provider\<lparr>evm_get_transaction_receipt := (\<lambda>_. io_return (Some \<lparr>tr_block_number = Some 5\<rparr>))\<rparr>"

definition sample_main :: "(gas_oracle \<times> u64) task_env" where
  "sample_main = main_task_env sample_abi sample_hashing sample_key happy_handler mining_node chain_spec_dev"

definition sample_sent :: user_operation where
  "sample_sent = sample_uo 1 0 300 11"

definition program_start :: "(gas_oracle \<times> u64) program" where
  "program_start = \<lparr>pg_rpc = main_rpc chain_spec_dev, pg_task = task_new sample_main, pg_node = (gas_oracle_new, 5)\<rparr>"

lemma sample_main_simps [simp]:
  "te_hashing sample_main = sample_hashing" "te_chain_spec sample_main = chain_spec_dev"
  "te_provider sample_main = beside mining_node" "te_strategy sample_main = direct_strategy (beside mining_node)"
  "te_signer sample_main = local_signer sample_key"
  "te_proposer sample_main =
     bundle_proposer_impl (proposer_new chain_spec_dev 7) happy_handler (provider_gas_oracle mining_node)"
  by (simp_all add: sample_main_def main_task_env_def sample_key_def)

lemma mining_node_simps [simp]:
  "evm_get_block_number mining_node w = (Inr w, w)" "evm_get_base_fee mining_node w = (Inr 100, w)"
  "evm_get_max_priority_fee mining_node w = (Inr 7, w)" "evm_get_nonce mining_node a w = (Inr 0, w)"
  "evm_send_raw_transaction mining_node raw w = (Inr (of_nat (length raw)), w)"
  "evm_get_transaction_receipt mining_node h w = (Inr (Some \<lparr>tr_block_number = Some 5\<rparr>), w)"
  by (simp_all add: mining_node_def sample_provider_def io_return_def)

lemma program_start_reaches: "program_reaches sample_main program_start"
proof (rule program_reaches.initial)
  have "tracker_initialize (beside mining_node) (ts_tracker (task_new sample_main), gas_oracle_new, 5) =
      (Inr (), ts_tracker (task_new sample_main), gas_oracle_new, 5)"
    by (simp add: tracker_initialize_def io_defs beside_def task_new_def tracker_new_def)
  then have "task_start sample_main (rs_pool (main_rpc chain_spec_dev)) (gas_oracle_new, 5) =
      (Inr (), task_new sample_main, rs_pool (main_rpc chain_spec_dev), gas_oracle_new, 5)"
    by (simp add: task_start_def Let_def)
  then show "program_init sample_main program_start"
    by (auto simp: program_init_def program_start_def)
qed

lemma sample_request:
  obtains h rpc1 e where "send_user_operation sample_hashing chain_spec_dev sample_sent 0 (main_rpc chain_spec_dev) = (Returns (Inr h), rpc1)"
    "pl_ordered (rs_pool rpc1) = [e]" "pe_uo e = set_context sample_hashing 0 31337 sample_sent"
    "pool_inv sample_hashing (rs_pool rpc1)"
proof -
  let ?p = "pool_new (pool_config_from chain_spec_dev)" and ?uo = "set_context sample_hashing 0 31337 sample_sent"
  have dev: "cs_id chain_spec_dev = 31337" "is_entry_point chain_spec_dev 0"
    by (simp_all add: chain_spec_dev_def is_entry_point_def)
  have rpc: "main_rpc chain_spec_dev = \<lparr>rs_pool = ?p, rs_reputation = rm_default, rs_base_fee = 0\<rparr>"
    by (simp add: main_rpc_def rpc_new_def)
  have "static_ok chain_spec_dev ?uo"
    by (simp add: static_ok_def chain_spec_dev_def sample_sent_def sample_uo_def set_context_def Let_def)
  moreover have "covers (uo_gas_fees ?uo) 0 (cs_min_max_priority_fee_per_gas chain_spec_dev)"
    by (simp add: covers_def uo_gas_fees_def chain_spec_dev_def sample_sent_def sample_uo_def set_context_def Let_def)
  moreover have "nonce_ok ?p ?uo"
    by (simp add: nonce_ok_def pool_sequences_def entries_of_def pool_new_def)
  moreover have "\<forall>a. rm_status rm_default a = Ok" by (simp add: rm_default_def)
  ultimately have valid: "fst (validate_sync chain_spec_dev (Some ?p) ?uo 0 rm_default) = Returns (Inr ())"
    by (simp add: validate_sync_accepts validate_static_ok validate_gas_price_ok validate_nonce_ok [OF pool_new_inv])
  have "pc_max_ops_per_sender (pool_config_from chain_spec_dev) \<noteq> 0" "pc_max_size (pool_config_from chain_spec_dev) \<noteq> 0"
    by (simp_all add: pool_config_from_def chain_spec_dev_def)
  then have add: "pool_add sample_hashing ?uo 0 ?p = (Inr (uo_hash sample_hashing ?uo), insert_new sample_hashing ?uo 0 ?p)"
    by (simp add: pool_add_def add_checked_def pool_new_def pool_size_def hm_contains_def hm_defs Let_def del: set_context_simps)
  obtain m where m: "validate_sync chain_spec_dev (Some ?p) ?uo 0 rm_default = (Returns (Inr ()), m)"
    using valid by (metis prod.collapse)
  let ?rpc1 = "\<lparr>rs_pool = insert_new sample_hashing ?uo 0 ?p, rs_reputation = m, rs_base_fee = 0\<rparr>"
  have "send_user_operation sample_hashing chain_spec_dev sample_sent 0 (main_rpc chain_spec_dev) =
      (Returns (Inr (uo_hash sample_hashing ?uo)), ?rpc1)"
    using m add dev by (simp add: send_user_operation_def rpc current_base_fee_def Let_def del: set_context_simps)
  moreover have "pl_ordered (insert_new sample_hashing ?uo 0 ?p) = [new_entry sample_hashing ?uo 0 ?p]"
    by (simp add: insert_new_def pool_new_def Let_def)
  moreover have "pool_inv sample_hashing (insert_new sample_hashing ?uo 0 ?p)"
    using pool_add_inv [OF pool_new_inv, of sample_hashing ?uo 0 "pool_config_from chain_spec_dev"] add by simp
  ultimately show thesis using that by simp
qed

lemma program_task_alone:
  assumes "program_reaches E s"
    and "task_step E (\<lambda>p. p) now (pg_task s, rs_pool (pg_rpc s), pg_node s) = Returns (t', p', w')"
  shows "program_reaches E \<lparr>pg_rpc = (pg_rpc s)\<lparr>rs_pool := p'\<rparr>, pg_task = t', pg_node = w'\<rparr>"
proof -
  have "served E [] (pg_rpc s) = (\<lambda>p. p)" by (simp add: served_def fun_eq_iff)
  then have "program_step E [] s \<lparr>pg_rpc = (pg_rpc s)\<lparr>rs_pool := p'\<rparr>, pg_task = t', pg_node = w'\<rparr>"
    using assms(2) by (intro program_step.task_moves) simp_all
  with assms(1) show ?thesis by (rule program_reaches.step)
qed

definition fed_oracle :: gas_oracle where
  "fed_oracle = store_fees 5 100 7 gas_oracle_new"

lemma sample_refresh:
  "refresh_if_needed mining_node (gas_oracle_new, 5) = (Inr (), fed_oracle, 5)"
  "refresh_if_needed mining_node (fed_oracle, 5) = (Inr (), fed_oracle, 5)"
  by (simp_all add: refresh_if_needed_def io_defs fed_oracle_def gas_oracle_new_def store_fees_def)

lemma sample_fees:
  "fs_current_fees (provider_gas_oracle mining_node) (gas_oracle_new, 5) = (Inr (gas_fees_new 107 7), fed_oracle, 5)"
  "fs_base_fee (provider_gas_oracle mining_node) (fed_oracle, 5) = (Inr 100, fed_oracle, 5)"
proof -
  have "oracle_fees fed_oracle = gas_fees_new 107 7" "go_last_base_fee fed_oracle = 100"
    by (simp_all add: oracle_fees_def fed_oracle_def store_fees_def gas_oracle_new_def median_priority_fee_def Let_def)
  then show
    "fs_current_fees (provider_gas_oracle mining_node) (gas_oracle_new, 5) = (Inr (gas_fees_new 107 7), fed_oracle, 5)"
    "fs_base_fee (provider_gas_oracle mining_node) (fed_oracle, 5) = (Inr 100, fed_oracle, 5)"
    using sample_refresh
    by (simp_all add: provider_gas_oracle_def current_fees_def oracle_base_fee_def io_bind_def get_state_def io_return_def)
qed

lemma sample_proposal:
  assumes "pl_ordered p = [e]" "pe_uo e = set_context sample_hashing 0 31337 sample_sent"
  shows "make_bundle (proposer_new chain_spec_dev 7) happy_handler (provider_gas_oracle mining_node) p (gas_oracle_new, 5) =
    (Inr (bundle_of (proposer_new chain_spec_dev 7) (gas_fees_new 107 7) [e] []), fed_oracle, 5)"
proof -
  have "cs_max_bundle_size chain_spec_dev \<noteq> 0" by (simp add: chain_spec_dev_def)
  then have "best_operations p (cs_max_bundle_size chain_spec_dev) = [e]"
    by (cases "cs_max_bundle_size chain_spec_dev") (simp_all add: best_operations_def assms(1))
  moreover have "affordable (proposer_new chain_spec_dev 7) 100 [e] = [e]"
    by (simp add: affordable_def assms(2) covers_def uo_gas_fees_def proposer_new_def chain_spec_dev_def
        sample_sent_def sample_uo_def set_context_def Let_def)
  ultimately show ?thesis
    by (simp add: make_bundle_def io_bind_def io_map_err_def sample_fees propose_loop.simps happy_handler_def
        io_return_def proposer_new_def)
qed

lemma sample_program:
  obtains s b where "program_reaches sample_main s" "ts_state (pg_task s) = Pending"
    "ts_current_bundle (pg_task s) = Some b" "ids (rs_pool (pg_rpc s)) \<noteq> {}"
    "ids (rs_pool (pg_rpc s)) = packed_id sample_main ` set (bd_ops b)"
    "\<exists>q. tk_pending (ts_tracker (pg_task s)) = Some q"
proof -
  let ?E = "sample_main" and ?t0 = "task_new sample_main" and ?id = "\<lambda>p :: operation_pool. p"
  obtain h rpc1 e where 1: "send_user_operation sample_hashing chain_spec_dev sample_sent 0 (main_rpc chain_spec_dev) = (Returns (Inr h), rpc1)"
    "pl_ordered (rs_pool rpc1) = [e]" "pe_uo e = set_context sample_hashing 0 31337 sample_sent"
    "pool_inv sample_hashing (rs_pool rpc1)" by (rule sample_request)
  let ?p = "rs_pool rpc1" and ?b = "bundle_of (proposer_new chain_spec_dev 7) (gas_fees_new 107 7) [e] []"
  have ents: "entries_of ?p = {#e#}" by (simp add: entries_of_def 1(2))
  have "program_step ?E [(sample_sent, 0)] program_start (program_start\<lparr>pg_rpc := rpc1\<rparr>)"
    using program_step.request [of ?E sample_sent 0 program_start "Returns (Inr h)" rpc1] 1(1)
    by (simp add: program_start_def)
  with program_start_reaches have s1: "program_reaches ?E \<lparr>pg_rpc = rpc1, pg_task = ?t0, pg_node = (gas_oracle_new, 5)\<rparr>"
    using program_reaches.step by (fastforce simp: program_start_def)
  have "pool_size ?p \<noteq> 0" using pool_size_entries [OF 1(4)] ents by simp
  then have "task_step ?E ?id 0 (?t0, ?p, gas_oracle_new, 5) = Returns (?t0\<lparr>ts_state := Building\<rparr>, ?p, gas_oracle_new, 5)"
    by (simp add: task_step_def handle_def task_new_def handle_idle_def)
  from program_task_alone [OF s1, of 0, simplified, OF this]
  have s2: "program_reaches ?E \<lparr>pg_rpc = rpc1, pg_task = ?t0\<lparr>ts_state := Building\<rparr>, pg_node = (gas_oracle_new, 5)\<rparr>" by simp
  have "task_step ?E ?id 0 (?t0\<lparr>ts_state := Building\<rparr>, ?p, gas_oracle_new, 5) =
      Returns (?t0\<lparr>ts_state := Submitting, ts_current_bundle := Some ?b\<rparr>, ?p, fed_oracle, 5)"
    using sample_proposal [OF 1(2,3)]
    by (simp add: task_step_def handle_def handle_building_def bundle_proposer_impl_def bundle_is_empty_def
        bundle_of_def remove_rejected_def)
  from program_task_alone [OF s2, of 0, simplified, OF this]
  have s3: "program_reaches ?E \<lparr>pg_rpc = rpc1, pg_task = ?t0\<lparr>ts_state := Submitting, ts_current_bundle := Some ?b\<rparr>,
      pg_node = (fed_oracle, 5)\<rparr>" by simp
  let ?t4 = "?t0\<lparr>ts_state := Pending, ts_current_bundle := Some ?b,
      ts_tracker := record_submission 0 1 (next_nonce (ts_tracker ?t0)) 107 7 (ts_tracker ?t0)\<rparr>"
  have "task_step ?E ?id 0 (?t0\<lparr>ts_state := Submitting, ts_current_bundle := Some ?b\<rparr>, ?p, fed_oracle, 5) =
      Returns (?t4, ?p, fed_oracle, 5)"
    by (simp add: task_step_def handle_def handle_submitting_def Let_def local_signer_def local_sign_def sample_key_def
        direct_strategy_def returning_def direct_submit_def io_map_err_def beside_def on_node_def bundle_of_def)
  from program_task_alone [OF s3, of 0, simplified, OF this]
  have s4: "program_reaches ?E \<lparr>pg_rpc = rpc1, pg_task = ?t4, pg_node = (fed_oracle, 5)\<rparr>" by simp
  have "entry_ok sample_hashing e" using pool_invD(10) [OF 1(4)] ents by simp
  then have "packed_id ?E ` set (bd_ops ?b) = {pe_id e}"
    using packed_ids [of "[e]" sample_hashing ?E] by (simp add: bundle_of_def)
  then have "ids ?p = packed_id ?E ` set (bd_ops ?b)" by (simp add: ids_def ents)
  moreover have "ids ?p \<noteq> {}" by (simp add: ids_def ents)
  ultimately show thesis using that [OF s4, of ?b] by (simp add: record_submission_def)
qed

section \<open>Properties\<close>

text \<open>
  Claim C7.  Every operation in the bundle that the program of \<open>main\<close> is about to submit, or
  has submitted, was accepted by the RPC server: among the submissions that the server has
  answered with a hash there is one for the operation, and in the state the server was in
  then the entry point was the supported one, the static fields were sound, the fees covered
  the base fee, the nonce followed those in the pool and every entity was in good standing.
\<close>

theorem bundles_only_accepted:
  assumes "program_history (main_task_env A H K B P cs) hist s" "ts_current_bundle (pg_task s) = Some b"
    and "p \<in> set (bd_ops b)"
  shows "\<exists>s0 user_op ep h. (s0, user_op, ep, h) \<in> set hist \<and>
    fst (send_user_operation H cs user_op ep s0) = Returns (Inr h) \<and> ep = cs_entry_point_v0_7 cs \<and>
    (let uo = set_context H ep (cs_id cs) user_op in
       p = pack uo \<and> h = compute_hash H (user_op\<lparr>uo_entry_point := ep, uo_chain_id := cs_id cs\<rparr>) \<and>
       static_ok cs uo \<and> covers (uo_gas_fees uo) (current_base_fee s0) (cs_min_max_priority_fee_per_gas cs) \<and>
       nonce_ok (rs_pool s0) uo \<and> (\<forall>en\<in>set (uo_entities uo). rm_status (rs_reputation s0) (en_address en) = Ok))"
proof -
  let ?E = "main_task_env A H K B P cs"
  have E: "te_proposer ?E = bundle_proposer_impl (proposer_new cs (kl_address K)) B (provider_gas_oracle P)"
    "te_hashing ?E = H" "te_chain_spec ?E = cs"
    by (simp_all add: main_task_env_def)
  obtain uo where "vouched H cs hist uo" "p = pack uo"
    using bpi.program_vouched [OF E(1,2) assms(1)] assms(2,3) by (auto simp: bundle_vouched_def E(3))
  then show ?thesis
    unfolding vouched_def admissible_def Let_def is_entry_point_def by (metis set_context_simps(3))
qed

theorem bundles_only_accepted_witness:
  "\<exists>hist s b p s0 user_op h. program_history sample_main hist s \<and> ts_current_bundle (pg_task s) = Some b \<and>
     p \<in> set (bd_ops b) \<and> (s0, user_op, cs_entry_point_v0_7 chain_spec_dev, h) \<in> set hist \<and>
     p = pack (set_context sample_hashing (cs_entry_point_v0_7 chain_spec_dev) 31337 user_op)"
proof -
  obtain s b where s: "program_reaches sample_main s" "ts_current_bundle (pg_task s) = Some b"
    "packed_id sample_main ` set (bd_ops b) \<noteq> {}"
    by (rule sample_program) metis
  from s(3) obtain p where p: "p \<in> set (bd_ops b)" by (metis image_is_empty ex_in_conv)
  obtain hist where hist: "program_history sample_main hist s" using reaches_history [OF s(1)] by blast
  have "cs_id chain_spec_dev = 31337" by (simp add: chain_spec_dev_def)
  then show ?thesis
    using bundles_only_accepted [OF hist [unfolded sample_main_def] s(2) p] hist s(2) p unfolding Let_def by metis
qed

text \<open>
  The type of an operation on its way to the entry point: a canonical packed operation with a
  sender, gas for its verification, the priority fee within the maximum fee, and call data
  within the limit of the chain.
\<close>

definition wire_typed :: "chain_spec \<Rightarrow> packed_uo \<Rightarrow> bool" where
  "wire_typed cs p \<longleftrightarrow>
     canonical_packed p \<and> pk_sender p \<noteq> 0 \<and> 0 < pk_pre_verification_gas p \<and>
     0 < fst (unpack_u128_pair (pk_account_gas_limits p)) \<and>
     fst (unpack_u128_pair (pk_gas_fees p)) \<le> snd (unpack_u128_pair (pk_gas_fees p)) \<and>
     0 < snd (unpack_u128_pair (pk_gas_fees p)) \<and>
     length (pk_call_data p) \<le> cs_max_transaction_size_bytes cs"

lemma wire_typed_pack: "static_ok cs uo \<Longrightarrow> wire_typed cs (pack uo)"
  using canonical_pack [of uo]
  by (auto simp: wire_typed_def static_ok_def pack_def Let_def unpack_pack_u128_pair word_less_nat_alt unat_ucast_up)

text \<open>
  Claim C6.  The wire format is a type invariant of the running program: every packed
  operation of the bundle it holds has gas words of 32 bytes, an init code that is empty or
  starts with a factory, paymaster data that is empty or holds an address and two limits, a
  sender, verification gas, and a priority fee within the maximum fee.
\<close>

theorem bundle_wire_typed:
  assumes "program_reaches (main_task_env A H K B P cs) s" "ts_current_bundle (pg_task s) = Some b"
    and "p \<in> set (bd_ops b)"
  shows "wire_typed cs p"
proof -
  let ?E = "main_task_env A H K B P cs"
  have "te_proposer ?E = bundle_proposer_impl (proposer_new cs (kl_address K)) B (provider_gas_oracle P)"
    by (simp add: main_task_env_def)
  moreover obtain hist where "program_history ?E hist s" using reaches_history [OF assms(1)] by blast
  moreover have "te_hashing ?E = H" "te_chain_spec ?E = cs" by (simp_all add: main_task_env_def)
  ultimately obtain uo where "p = pack uo" "static_ok cs uo"
    using bpi.program_vouched assms(2,3) by (fastforce simp: bundle_vouched_def vouched_def admissible_def)
  then show ?thesis by (simp only: wire_typed_pack)
qed

theorem bundle_wire_typed_witness:
  "\<exists>s b p. program_reaches sample_main s \<and> ts_current_bundle (pg_task s) = Some b \<and> p \<in> set (bd_ops b) \<and>
     wire_typed chain_spec_dev p"
proof -
  obtain s b where s: "program_reaches sample_main s" "ts_current_bundle (pg_task s) = Some b"
    "packed_id sample_main ` set (bd_ops b) \<noteq> {}"
    by (rule sample_program) metis
  from s(3) obtain p where "p \<in> set (bd_ops b)" by (metis image_is_empty ex_in_conv)
  then show ?thesis using s bundle_wire_typed [OF s(1) [unfolded sample_main_def] s(2)] by blast
qed

lemma packed_id_simps: "id_sender (packed_id E q) = pk_sender q" "id_nonce (packed_id E q) = pk_nonce q"
  by (simp_all add: packed_id_def unpack_def Let_def uo_new_def split: prod.split)

text \<open>The entry that a blamed hash belongs to, seen from an entry that the rejection removes.\<close>

lemma rejected_entry:
  assumes "pool_inv H p" "make_bundle c B G p w = (Inr b, w1)"
    and "e \<in># entries_of p" "pe_id e' = pe_id e" "pe_hash e' \<in> rj_hash ` set (bd_rejected_ops b)"
  shows "\<exists>e0 reason. \<lparr>rj_hash = pe_hash e0, rj_reason = reason\<rparr> \<in> set (bd_rejected_ops b) \<and>
    e0 \<in># entries_of p \<and> blamed c B (bd_gas_fees b) p e0 reason \<and>
    (e0 = e \<or> pe_id e0 \<noteq> pe_id e' \<and> pe_hash e0 = pe_hash e')"
proof -
  obtain r where r: "r \<in> set (bd_rejected_ops b)" "rj_hash r = pe_hash e'" using assms(5) by auto
  obtain e0 where e0: "e0 \<in># entries_of p" "pe_hash e0 = rj_hash r" "blamed c B (bd_gas_fees b) p e0 (rj_reason r)"
    using make_bundle_blames [OF assms(2) r(1)] by blast
  have "e0 = e" if "pe_id e0 = pe_id e"
  proof -
    have "hm_get (pl_by_id p) (pe_id e) = Some e0" "hm_get (pl_by_id p) (pe_id e) = Some e"
      using that e0(1) assms(3) by (simp_all add: by_id_iff [OF assms(1)])
    then show ?thesis by simp
  qed
  then have same: "e0 = e \<or> pe_id e0 \<noteq> pe_id e' \<and> pe_hash e0 = pe_hash e'" using assms(4) e0(2) r(2) by auto
  have "\<lparr>rj_hash = pe_hash e0, rj_reason = rj_reason r\<rparr> = r" using e0(2) by simp
  then have "\<lparr>rj_hash = pe_hash e0, rj_reason = rj_reason r\<rparr> \<in> set (bd_rejected_ops b)" using r(1) by (simp only:)
  then show ?thesis using e0(1,3) same by blast
qed

text \<open>
  Claim C5.  No operation is lost silently while submissions are served one after another.
  When a step of the program leaves an operation of the pool without an entry of its sender and
  nonce, there are two cases.  The task has just built a bundle, and a simulation of operations
  of the pool has blamed that very operation by its index; or, if it was replaced while the
  simulations ran, its replacement has the hash of another operation that was blamed.  Or the
  pending transaction has just been mined, and its bundle holds an operation of that sender
  and nonce.
\<close>

theorem no_silent_loss:
  assumes "te_proposer E = bundle_proposer_impl c B G" "program_reaches E s" "program_step E calls s s'"
    and "e \<in># entries_of (rs_pool (pg_rpc s))" "\<forall>e'\<in>#entries_of (rs_pool (pg_rpc s')). pe_id e' \<noteq> pe_id e"
  shows "ts_state (pg_task s) = Building \<and>
      (\<exists>b w1 e0 reason. bp_make_bundle (te_proposer E) (rs_pool (pg_rpc s)) (pg_node s) = (Inr b, w1) \<and>
         \<lparr>rj_hash = pe_hash e0, rj_reason = reason\<rparr> \<in> set (bd_rejected_ops b) \<and>
         e0 \<in># entries_of (rs_pool (pg_rpc s)) \<and> blamed c B (bd_gas_fees b) (rs_pool (pg_rpc s)) e0 reason \<and>
         (e0 = e \<or>
          (\<exists>e'. e' \<in># entries_of (rs_pool (snd (send_all (te_hashing E) (te_chain_spec E) calls (pg_rpc s)))) \<and>
             pe_id e' = pe_id e \<and> pe_hash e' = pe_hash e0 \<and> pe_id e0 \<noteq> pe_id e'))) \<or>
    ts_state (pg_task s) = Pending \<and>
      (\<exists>b n k w1 q. check_pending (te_provider E) (ts_tracker (pg_task s), pg_node s) = (Inr (Some (TxMined n)), k, w1) \<and>
         ts_current_bundle (pg_task s) = Some b \<and> q \<in> set (bd_ops b) \<and>
         pk_sender q = id_sender (pe_id e) \<and> pk_nonce q = id_nonce (pe_id e))"
proof -
  have inv: "rpc_inv (te_hashing E) (pg_rpc s)" using program_refines_task [OF assms(2)] by blast
  have here: "pe_id e \<in> ids (rs_pool (pg_rpc s))" "pe_id e \<notin> ids (rs_pool (pg_rpc s'))"
    using assms(4,5) by (auto simp: ids_def)
  from assms(3) show ?thesis
  proof (cases rule: program_step.cases)
    case (request uo ep r rpc')
    then show ?thesis using send_pool(1) [OF inv request(3)] here by auto
  next
    case (task_moves rs rpc' now t' p' w')
    have inv': "pool_inv (te_hashing E) (rs_pool rpc')"
      using send_all_inv [OF inv task_moves(3)] by (simp add: rpc_inv_def)
    have i: "pe_id e \<in> ids (rs_pool rpc')" "pe_id e \<notin> ids p'"
      using send_all_pool [OF inv task_moves(3)] here task_moves(1) by auto
    then obtain e' where e': "e' \<in># entries_of (rs_pool rpc')" "pe_id e' = pe_id e"
      unfolding ids_def by (metis imageE)
    have gone: "e' \<notin># entries_of p'" using i(2) e'(2) unfolding ids_def by (metis imageI)
    from task_moves(2,3,4) show ?thesis
    proof (cases rule: task_moves_pool)
      case kept
      then show ?thesis using i by simp
    next
      case (proposed b w1)
      then have hash: "pe_hash e' \<in> rj_hash ` set (bd_rejected_ops b)"
        using e' gone remove_rejected_entries [OF inv'] by simp
      have pool: "pool_inv (te_hashing E) (rs_pool (pg_rpc s))" using inv by (simp add: rpc_inv_def)
      have made: "make_bundle c B G (rs_pool (pg_rpc s)) (pg_node s) = (Inr b, w1)"
        using proposed(2) assms(1) by (simp add: bundle_proposer_impl_def)
      obtain e0 reason where e0: "\<lparr>rj_hash = pe_hash e0, rj_reason = reason\<rparr> \<in> set (bd_rejected_ops b)"
          "e0 \<in># entries_of (rs_pool (pg_rpc s))" "blamed c B (bd_gas_fees b) (rs_pool (pg_rpc s)) e0 reason"
          "e0 = e \<or> pe_id e0 \<noteq> pe_id e' \<and> pe_hash e0 = pe_hash e'"
        using rejected_entry [OF pool made assms(4) e'(2) hash] by blast
      have "e' \<in># entries_of (rs_pool (snd (send_all (te_hashing E) (te_chain_spec E) calls (pg_rpc s))))"
        using task_moves(3) e'(1) by simp
      then have "e0 = e \<or> (\<exists>e'. e' \<in># entries_of (rs_pool (snd (send_all (te_hashing E) (te_chain_spec E) calls (pg_rpc s)))) \<and>
          pe_id e' = pe_id e \<and> pe_hash e' = pe_hash e0 \<and> pe_id e0 \<noteq> pe_id e')"
        using e0(4) e'(2) by auto
      then show ?thesis using proposed(1,2) e0(1-3) by blast
    next
      case (mined n k w1)
      obtain b where b: "ts_current_bundle (pg_task s) = Some b"
        using program_refines_task [OF assms(2)] reaches_inv mined(1)
        by (fastforce simp: task_inv_defs split: option.splits)
      then have "pe_id e \<in> packed_id E ` set (bd_ops b)"
        using e' gone mined(3) remove_bundled_entries [OF inv' b, of E] by simp
      then obtain q where q: "q \<in> set (bd_ops b)" "packed_id E q = pe_id e" by auto
      then show ?thesis using mined b packed_id_simps [of E q] by metis
    qed
  next
    case (node_moves w')
    then show ?thesis using here by simp
  qed
qed

theorem no_silent_loss_witness:
  "\<exists>s s' e b n k w1 q. program_reaches sample_main s \<and> program_step sample_main [] s s' \<and>
     e \<in># entries_of (rs_pool (pg_rpc s)) \<and> pe_id e \<notin> ids (rs_pool (pg_rpc s')) \<and>
     check_pending (te_provider sample_main) (ts_tracker (pg_task s), pg_node s) = (Inr (Some (TxMined n)), k, w1) \<and>
     ts_current_bundle (pg_task s) = Some b \<and> q \<in> set (bd_ops b) \<and>
     pk_sender q = id_sender (pe_id e) \<and> pk_nonce q = id_nonce (pe_id e)"
proof -
  obtain s b q where s: "program_reaches sample_main s" "ts_state (pg_task s) = Pending"
    "ts_current_bundle (pg_task s) = Some b" "ids (rs_pool (pg_rpc s)) \<noteq> {}"
    "ids (rs_pool (pg_rpc s)) = packed_id sample_main ` set (bd_ops b)"
    "tk_pending (ts_tracker (pg_task s)) = Some q"
    by (rule sample_program) blast
  obtain t p w where tpw: "pg_task s = t" "rs_pool (pg_rpc s) = p" "pg_node s = w" by blast
  have inv: "pool_inv sample_hashing p" using program_refines_task [OF s(1)] tpw by (simp add: rpc_inv_def)
  let ?t' = "t\<lparr>ts_tracker := (ts_tracker t)\<lparr>tk_current_nonce := pt_nonce q + 1, tk_pending := None\<rparr>, ts_mined_block := Some 5\<rparr>"
  let ?p' = "remove_bundled_ops sample_main ?t' p"
  have "check_pending (beside mining_node) (ts_tracker t, w) =
      (Inr (Some (TxMined 5)), (ts_tracker t)\<lparr>tk_current_nonce := pt_nonce q + 1, tk_pending := None\<rparr>, w)"
    using s(6) tpw by (cases w) (simp add: check_pending_def io_defs beside_def unwrap_or_def)
  then have "task_step sample_main (\<lambda>p. p) 0 (t, p, w) = Returns (?t'\<lparr>ts_state := Confirming\<rparr>, ?p', w)"
    using s(2) tpw by (simp add: task_step_def handle_def handle_pending_def Let_def)
  moreover have "served sample_main [] (pg_rpc s) = (\<lambda>p. p)" by (simp add: served_def fun_eq_iff)
  ultimately have step: "program_step sample_main [] s
      \<lparr>pg_rpc = (pg_rpc s)\<lparr>rs_pool := ?p'\<rparr>, pg_task = ?t'\<lparr>ts_state := Confirming\<rparr>, pg_node = w\<rparr>"
    using tpw by (intro program_step.task_moves) simp_all
  have b: "ts_current_bundle ?t' = Some b" using s(3) tpw by simp
  have "ids ?p' = {}"
    using remove_bundled_entries [OF inv b, of sample_main] s(5) tpw by (auto simp: ids_def)
  moreover define s' where "s' = \<lparr>pg_rpc = (pg_rpc s)\<lparr>rs_pool := ?p'\<rparr>, pg_task = ?t'\<lparr>ts_state := Confirming\<rparr>, pg_node = w\<rparr>"
  ultimately have gone: "pe_id e \<notin> ids (rs_pool (pg_rpc s'))" for e by simp
  then have none: "\<forall>e'\<in>#entries_of (rs_pool (pg_rpc s')). pe_id e' \<noteq> pe_id e" for e by (auto simp: ids_def)
  obtain e where e: "e \<in># entries_of (rs_pool (pg_rpc s))" using s(4) by (auto simp: ids_def)
  note moved = step [folded s'_def]
  have "ts_state (pg_task s) \<noteq> Building" using s(2) by simp
  then show ?thesis
    using no_silent_loss [OF sample_main_simps(6) s(1) moved e none] s(1) moved e gone by blast
qed

end
