(* ===== verification/Event_Hashes.thy ===== *)
theory Event_Hashes
  imports Chain_Watcher Program
begin

text \<open>
  The hashes the server gives to operations against the hashes that entry point events carry.
  The server hashes 84 bytes: the inner hash, the 20 bytes of the entry point and the chain
  (\<open>compute_hash\<close> of \<open>crates/types/src/user_operation/v0_7.rs\<close>).  ERC-4337 prescribes the ABI
  encoding of the three, which is 96 bytes: three words.
\<close>

section \<open>The hash of the standard\<close>

definition standard_preimage :: "b256 \<Rightarrow> address \<Rightarrow> u256 \<Rightarrow> bytes" where
  "standard_preimage inner entry_point chain =
     to_be_bytes inner @ to_be_bytes (ucast entry_point :: u256) @ to_be_bytes chain"

definition standard_hash :: "hashing \<Rightarrow> b256 \<Rightarrow> address \<Rightarrow> u256 \<Rightarrow> b256" where
  "standard_hash H inner entry_point chain = keccak256 H (standard_preimage inner entry_point chain)"

lemma standard_preimage_differs: "standard_preimage inner ep chain \<noteq> hash_suffix H u"
proof
  assume "standard_preimage inner ep chain = hash_suffix H u"
  then have "length (standard_preimage inner ep chain) = length (hash_suffix H u)" by simp
  then show False by (simp add: standard_preimage_def hash_suffix_def)
qed

lemma standard_hash_differs:
  "compute_hash H u = standard_hash H inner ep chain \<longleftrightarrow>
   keccak_collides H (standard_preimage inner ep chain) (hash_suffix H u)"
  using standard_preimage_differs [of inner ep chain H u]
  by (auto simp: compute_hash_suffix standard_hash_def keccak_collides_def)

section \<open>Sent operations carry their computed hash\<close>

definition pool_hashed :: "hashing \<Rightarrow> operation_pool \<Rightarrow> bool" where
  "pool_hashed H p \<longleftrightarrow> (\<forall>e\<in>#entries_of p. pe_hash e = compute_hash H (pe_uo e))"

lemma set_context_hashed: "uo_hash H (set_context H ep chain u) = compute_hash H (set_context H ep chain u)"
  unfolding set_context_def Let_def compute_hash_cached_hash by (simp add: uo_hash_def)

lemma send_hashed:
  assumes "rpc_inv H s" "pool_hashed H (rs_pool s)" "send_user_operation H cs uo ep s = (r, s')"
  shows "pool_hashed H (rs_pool s')"
  using assms(3)
proof (cases rule: send_cases)
  case (validated p')
  let ?uo = "set_context H ep (cs_id cs) uo" and ?p = "rs_pool s"
  have inv: "pool_inv H ?p" using assms(1) by (simp add: rpc_inv_def)
  obtain a where add: "pool_add H ?uo (current_base_fee s) ?p = (a, p')"
    using validated(5) by (metis prod.collapse)
  have "uo_hash H ?uo = compute_hash H ?uo" by (rule set_context_hashed)
  then show ?thesis
    using pool_add_outcome [OF inv add] assms(2) validated(3)
    by (cases a) (auto simp: pool_hashed_def)
qed (use assms(2) in simp)

lemma send_all_hashed:
  "rpc_inv H s \<Longrightarrow> pool_hashed H (rs_pool s) \<Longrightarrow> send_all H cs calls s = (rs, s') \<Longrightarrow> pool_hashed H (rs_pool s')"
  by (induction H cs calls s arbitrary: rs rule: send_all.induct)
    (auto intro: send_inv send_hashed split: prod.splits)

lemma pool_new_hashed: "pool_hashed H (pool_new cfg)"
  by (simp add: pool_hashed_def pool_new_def entries_of_def)

section \<open>Properties\<close>

text \<open>
  Claim C15.  Unless keccak collides on the inputs at hand, the watcher recognises no operation
  whose event carries the hash that ERC-4337 prescribes: whatever was sent to a fresh server,
  scanning such events removes nothing from the pool and credits nobody.
\<close>

theorem standard_events_unrecognised:
  assumes "send_all H cs calls (rpc_new (pool_new cfg) (rm_new rcfg)) = (rs, s)"
    and "cw_pool w = rs_pool s" "rm_inv (cw_reputation w)"
    and "scan_user_op_events H cs P n (w, node) = (Inr (), w', node')"
    and "evm_get_logs P
       \<lparr>lf_address = cs_entry_point_v0_7 cs, lf_event_signature = event_topic H, lf_topic1 = None,
        lf_from_block = n, lf_to_block = n\<rparr> node = (Inr logs, node')"
    and "\<forall>lg\<in>set logs. 2 \<le> length (lg_topics lg) \<longrightarrow>
       (\<exists>inner ep chain. lg_topics lg ! 1 = standard_hash H inner ep chain \<and>
          (\<forall>e\<in>#entries_of (rs_pool s). \<not> keccak_collides H (standard_preimage inner ep chain) (hash_suffix H (pe_uo e))))"
  shows "entries_of (cw_pool w') = entries_of (rs_pool s) \<and>
    (\<forall>a. included (cw_reputation w') a = included (cw_reputation w) a)"
proof -
  have fresh: "rpc_inv H (rpc_new (pool_new cfg) (rm_new rcfg))" by simp
  have inv: "pool_inv H (rs_pool s)" using send_all_inv [OF fresh assms(1)] by (simp add: rpc_inv_def)
  have hashed: "pool_hashed H (rs_pool s)"
    using send_all_hashed [OF fresh _ assms(1)] pool_new_hashed by (simp add: rpc_new_def)
  have w': "w' = fold process_log logs w"
    using assms(4,5) by (auto simp: scan_user_op_events_def io_bind_on_node modify_state_def)
  have "pe_hash e \<notin> mined_hashes logs" if e: "e \<in># entries_of (rs_pool s)" for e
  proof
    have h: "pe_hash e = compute_hash H (pe_uo e)" using hashed e by (simp add: pool_hashed_def)
    assume "pe_hash e \<in> mined_hashes logs"
    then obtain lg where "lg \<in> set logs" "2 \<le> length (lg_topics lg)" "lg_topics lg ! 1 = compute_hash H (pe_uo e)"
      unfolding mined_hashes_def h by auto
    then show False using assms(6) e standard_hash_differs by metis
  qed
  then have kept: "{#e \<in># entries_of (rs_pool s). pe_hash e \<notin> mined_hashes logs#} = entries_of (rs_pool s)"
    and none: "mined_mentions (mined_hashes logs) (entries_of (rs_pool s)) a = 0" for a
    by (auto simp: filter_mset_eq_conv mined_mentions_def)
  have "watcher_inv H w" using inv assms(2,3) by (simp add: watcher_inv_def)
  then show ?thesis
    using scan_effect [of H w logs] assms(2) unfolding w' by (simp add: kept none)
qed

theorem standard_events_unrecognised_witness:
  "\<exists>rs s w' lg. send_all sample_hashing chain_spec_dev [(sample_sent, 0)] (main_rpc chain_spec_dev) = (rs, s) \<and>
     entries_of (rs_pool s) \<noteq> {#} \<and> lg_topics lg ! 1 = standard_hash sample_hashing 5 0 31337 \<and>
     scan_user_op_events sample_hashing chain_spec_dev (sample_provider\<lparr>evm_get_logs := (\<lambda>_. io_return [lg])\<rparr>) 3
       (watcher_new (rs_pool s) rm_default, 0) = (Inr (), w', 0) \<and>
     entries_of (cw_pool w') = entries_of (rs_pool s)"
proof -
  let ?lg = "\<lparr>lg_topics = [0, standard_hash sample_hashing 5 0 31337], lg_data = [], lg_transaction_hash = None\<rparr>"
  let ?P = "sample_provider\<lparr>evm_get_logs := (\<lambda>_. io_return [?lg])\<rparr>"
  obtain h s e where s: "send_user_operation sample_hashing chain_spec_dev sample_sent 0 (main_rpc chain_spec_dev) = (Returns (Inr h), s)"
    "pl_ordered (rs_pool s) = [e]" "pe_uo e = set_context sample_hashing 0 31337 sample_sent"
    by (rule sample_request)
  let ?w = "watcher_new (rs_pool s) rm_default"
  have main: "main_rpc chain_spec_dev =
      rpc_new (pool_new (pool_config_from chain_spec_dev)) (rm_new reputation_config_default)"
    by (simp add: main_rpc_def rm_default_def)
  have sent: "send_all sample_hashing chain_spec_dev [(sample_sent, 0)] (main_rpc chain_spec_dev) =
      ([(uo_sender sample_sent, Returns (Inr h))], s)"
    by (simp add: s(1))
  have run: "scan_user_op_events sample_hashing chain_spec_dev ?P 3 (?w, 0) = (Inr (), process_log ?lg ?w, 0)"
    by (simp add: scan_user_op_events_def io_defs)
  have "keccak256 sample_hashing (hash_suffix sample_hashing (pe_uo e)) = 0"
    using be256.dec_enc [of 0]
    by (simp add: s(3) sample_hashing_def hash_suffix_def hash_encoding_def pack_def Let_def
        sample_sent_def sample_uo_def from_be_bytes_def)
  moreover have "keccak256 sample_hashing (standard_preimage 5 0 31337) = 5"
    using be256.dec_enc [of 5] by (simp add: standard_preimage_def sample_hashing_def from_be_bytes_def)
  ultimately have free: "\<not> keccak_collides sample_hashing (standard_preimage 5 0 31337) (hash_suffix sample_hashing (pe_uo e'))"
    if "e' \<in># entries_of (rs_pool s)" for e'
    using that s(2) by (simp add: keccak_collides_def entries_of_def)
  have "rm_inv (cw_reputation ?w)" "cw_pool ?w = rs_pool s" by (simp_all add: watcher_new_def rm_default_def)
  moreover have "evm_get_logs ?P f 0 = (Inr [?lg], 0)" for f by (simp add: io_return_def)
  moreover have "\<forall>lg\<in>set [?lg]. 2 \<le> length (lg_topics lg) \<longrightarrow>
       (\<exists>inner ep chain. lg_topics lg ! 1 = standard_hash sample_hashing inner ep chain \<and>
          (\<forall>e\<in>#entries_of (rs_pool s). \<not> keccak_collides sample_hashing (standard_preimage inner ep chain)
             (hash_suffix sample_hashing (pe_uo e))))"
    using free by auto
  ultimately have "entries_of (cw_pool (process_log ?lg ?w)) = entries_of (rs_pool s)"
    using standard_events_unrecognised [OF sent [unfolded main] _ _ run] by blast
  moreover have "entries_of (rs_pool s) \<noteq> {#}" using s(2) by (simp add: entries_of_def)
  ultimately show ?thesis using sent run by force
qed

end
