(* ===== verification/Messages.thy ===== *)
theory Messages
  imports Rpc Strategy
begin

text \<open>
  The texts of the program: the \<open>Display\<close> implementations of \<open>crates/types\<close>, the
  \<open>#[error]\<close> attributes of \<open>crates/types/src/error.rs\<close>, \<open>crates/pool/src/error.rs\<close>,
  \<open>crates/rpc/src/error.rs\<close> and \<open>crates/builder/src/sender.rs\<close>, the \<open>format!\<close> calls that build
  error messages, and the JSON-RPC error object a client receives.  How the library prints an
  address (with its checksum) and a hash is the parameter \<open>texts\<close>.
\<close>

section \<open>Values\<close>

record texts =
  tx_address :: "address \<Rightarrow> string"
  tx_b256 :: "b256 \<Rightarrow> string"

definition show_word :: "'a::len word \<Rightarrow> string" where
  "show_word w = decimal (unat w)"

fun entity_type_text :: "entity_type \<Rightarrow> string" where
  "entity_type_text Account = ''account''"
| "entity_type_text Paymaster = ''paymaster''"
| "entity_type_text Factory = ''factory''"
| "entity_type_text Aggregator = ''aggregator''"

definition entity_text :: "texts \<Rightarrow> entity \<Rightarrow> string" where
  "entity_text T en = entity_type_text (en_kind en) @ '':'' @ tx_address T (en_address en)"

fun entry_point_version_text :: "entry_point_version \<Rightarrow> string" where
  "entry_point_version_text V0_7 = ''v0.7''"

definition user_operation_id_text :: "texts \<Rightarrow> user_operation_id \<Rightarrow> string" where
  "user_operation_id_text T i = tx_address T (id_sender i) @ '':'' @ show_word (id_nonce i)"

definition gas_fees_text :: "gas_fees \<Rightarrow> string" where
  "gas_fees_text f =
     ''GasFees { max_fee: '' @ show_word (gf_max_fee f) @ '', priority: '' @ show_word (gf_max_priority f) @ '' }''"

fun validation_revert_text :: "texts \<Rightarrow> validation_revert \<Rightarrow> string" where
  "validation_revert_text T (VrFailedOp op_index reason) =
     ''FailedOp(index='' @ decimal op_index @ '', reason='' @ reason @ '')''"
| "validation_revert_text T (VrFailedOpWithRevert op_index reason inner) =
     ''FailedOpWithRevert(index='' @ decimal op_index @ '', reason='' @ reason @ '', inner=0x'' @ hex_bytes inner @ '')''"
| "validation_revert_text T (VrSignatureValidationFailed aggregator) =
     ''SignatureValidationFailed(aggregator='' @ tx_address T aggregator @ '')''"
| "validation_revert_text T (VrUnknown data) = ''Unknown(0x'' @ hex_bytes data @ '')''"

section \<open>Errors of the pool and of validation\<close>

text \<open>The \<open>format!\<close> calls of \<open>validation.rs\<close> and \<open>pool.rs\<close>.\<close>

fun validation_msg_text :: "texts \<Rightarrow> validation_msg \<Rightarrow> string" where
  "validation_msg_text T (InvalidNonceSequence expected sndr key got) =
     ''invalid nonce sequence: expected '' @ show_word expected @ '' for sender '' @ tx_address T sndr @
     '' key '' @ show_word key @ '', got '' @ show_word got"
| "validation_msg_text T (EntityIsThrottled en) = entity_text T en @ '' is throttled''"
| "validation_msg_text T (EntityIsBanned en) = entity_text T en @ '' is banned''"

fun validation_error_text :: "texts \<Rightarrow> validation_error \<Rightarrow> string" where
  "validation_error_text T (InvalidSender a) = ''invalid sender: '' @ tx_address T a"
| "validation_error_text T (InvalidNonce expected got) =
     ''invalid nonce: expected '' @ show_word expected @ '', got '' @ show_word got"
| "validation_error_text T (GasTooLow field val minimum) =
     ''gas limit too low: '' @ field @ '' = '' @ show_word val @ '', minimum = '' @ show_word minimum"
| "validation_error_text T (GasTooHigh field val maximum) =
     ''gas limit too high: '' @ field @ '' = '' @ show_word val @ '', maximum = '' @ show_word maximum"
| "validation_error_text T (MaxFeeTooLow fee base_fee) =
     ''max fee per gas too low: '' @ show_word fee @ '', base fee: '' @ show_word base_fee"
| "validation_error_text T (PriorityFeeExceedsMaxFee priority max_fee) =
     ''max priority fee exceeds max fee: priority='' @ show_word priority @ '', max='' @ show_word max_fee"
| "validation_error_text T (PaymasterDepositTooLow a) = ''paymaster deposit too low: '' @ tx_address T a"
| "validation_error_text T (CallDataTooLarge sz mx) =
     ''call data too large: '' @ decimal sz @ '' bytes, max '' @ decimal mx"
| "validation_error_text T (SimulationReverted m) = ''simulation reverted: '' @ m"
| "validation_error_text T (InvalidSignature m) = ''invalid signature: '' @ m"
| "validation_error_text T (ForbiddenOpcode m) = ''unstaked entity used forbidden opcode: '' @ m"
| "validation_error_text T (ForbiddenStorageAccess m) = ''unstaked entity accessed forbidden storage: '' @ m"
| "validation_error_text T (ExpiredOrNotDue valid_after valid_until) =
     ''expired or not yet valid: valid_after='' @ show_word valid_after @ '', valid_until='' @ show_word valid_until"
| "validation_error_text T (ValidationOther m) = validation_msg_text T m"

fun pool_msg_text :: "texts \<Rightarrow> pool_msg \<Rightarrow> string" where
  "pool_msg_text T (SenderLimit sndr cnt mx) =
     ''sender '' @ tx_address T sndr @ '' already has '' @ decimal cnt @ '' operations (max '' @ decimal mx @ '')''"

fun pool_error_text :: "texts \<Rightarrow> pool_error \<Rightarrow> string" where
  "pool_error_text T (AlreadyKnown h) = ''operation already known: '' @ tx_b256 T h"
| "pool_error_text T (ReplacementUnderpriced existing fee) =
     ''replacement underpriced: existing fee '' @ show_word existing @ '', new fee '' @ show_word fee"
| "pool_error_text T (PoolFull max_size) = ''pool is full (max '' @ decimal max_size @ '')''"
| "pool_error_text T (PoolValidation e) = ''validation failed: '' @ validation_error_text T e"
| "pool_error_text T (EntityThrottled m) = ''entity throttled: '' @ m"
| "pool_error_text T (NotFound h) = ''operation not found: '' @ tx_b256 T h"
| "pool_error_text T (PoolOther m) = pool_msg_text T m"

section \<open>Errors of the signers and strategies\<close>

fun signer_error_text :: "signer_error \<Rightarrow> string" where
  "signer_error_text NoSigner = ''no signer available''"
| "signer_error_text (SigningFailed m) = ''signing failed: '' @ m"
| "signer_error_text (SignerOther m) = m"

fun submit_error_text :: "submit_error \<Rightarrow> string" where
  "submit_error_text (Retryable m) = ''retryable: '' @ m"
| "submit_error_text (StrategyFailed m) = ''strategy failed: '' @ m"
| "submit_error_text (Terminal m) = ''terminal: '' @ m"

section \<open>Errors of the server\<close>

text \<open>The \<open>format!\<close> and \<open>to_string\<close> calls of \<open>eth.rs\<close>.\<close>

fun rpc_msg_text :: "texts \<Rightarrow> rpc_msg \<Rightarrow> string" where
  "rpc_msg_text T (UnsupportedEntryPoint a) = ''unsupported entry point: '' @ tx_address T a"
| "rpc_msg_text T (ValidationFailed e) = validation_error_text T e"
| "rpc_msg_text T NoEntryPointProvider = ''provider not configured for gas estimation''"
| "rpc_msg_text T (RpcSimulationFailed e) = ''simulation failed: '' @ display_provider_error e"
| "rpc_msg_text T (ValidationReverted rv) = ''validation reverted: '' @ validation_revert_text T rv"
| "rpc_msg_text T (ExecutionReverted rv) = ''execution reverted: '' @ validation_revert_text T rv"
| "rpc_msg_text T (ProviderFailed e) = display_provider_error e"

fun rpc_error_text :: "texts \<Rightarrow> rpc_error \<Rightarrow> string" where
  "rpc_error_text T (InvalidParams m) = ''invalid params: '' @ rpc_msg_text T m"
| "rpc_error_text T (MethodNotFound m) = ''method not found: '' @ m"
| "rpc_error_text T (InternalError m) = ''internal error: '' @ rpc_msg_text T m"
| "rpc_error_text T (RpcPool e) = ''pool error: '' @ pool_error_text T e"
| "rpc_error_text T (RpcOther m) = m"

text \<open>The message of the error object; its code is \<open>rpc_error_code\<close>.\<close>

fun rpc_error_message :: "texts \<Rightarrow> rpc_error \<Rightarrow> string" where
  "rpc_error_message T (InvalidParams m) = rpc_msg_text T m"
| "rpc_error_message T (MethodNotFound m) = m"
| "rpc_error_message T (InternalError m) = rpc_msg_text T m"
| "rpc_error_message T (RpcPool e) = pool_error_text T e"
| "rpc_error_message T (RpcOther m) = m"

record error_object =
  eo_code :: int
  eo_message :: string

definition rpc_error_object :: "texts \<Rightarrow> rpc_error \<Rightarrow> error_object" where
  "rpc_error_object T e = \<lparr>eo_code = rpc_error_code e, eo_message = rpc_error_message T e\<rparr>"

section \<open>The error types of the types crate\<close>

text \<open>Types that \<open>crates/types/src/error.rs\<close> declares beside the ones the other crates use.\<close>

datatype types_provider_error =
    TpTransport string
  | TpContractRevert string
  | TpEntryPoint string
  | TpSimulationFailed string
  | TpOther string

datatype types_pool_error =
    TlAlreadyKnown b256
  | TlReplacementUnderpriced u128 u128
  | TlPoolFull nat
  | TlValidation validation_error
  | TlEntityThrottled string
  | TlNotFound b256
  | TlOther string

datatype builder_error =
    NothingToBundle
  | NonceConflict string
  | SubmissionFailed string
  | FeeEscalationExhausted u32
  | TransactionReverted string
  | ReorgedOut u64
  | BuilderOther string

datatype types_rpc_error =
    TrInvalidParams string
  | TrMethodNotFound string
  | TrInternal string
  | TrOther string

datatype bunzo_error =
    BzProvider types_provider_error
  | BzPool types_pool_error
  | BzBuilder builder_error
  | BzSigner signer_error
  | BzRpc types_rpc_error
  | BzOther string

fun types_provider_error_text :: "types_provider_error \<Rightarrow> string" where
  "types_provider_error_text (TpTransport m) = ''rpc transport error: '' @ m"
| "types_provider_error_text (TpContractRevert m) = ''contract revert: '' @ m"
| "types_provider_error_text (TpEntryPoint m) = ''entry point error: '' @ m"
| "types_provider_error_text (TpSimulationFailed m) = ''simulation failed: '' @ m"
| "types_provider_error_text (TpOther m) = m"

fun types_pool_error_text :: "texts \<Rightarrow> types_pool_error \<Rightarrow> string" where
  "types_pool_error_text T (TlAlreadyKnown h) = ''operation already known: '' @ tx_b256 T h"
| "types_pool_error_text T (TlReplacementUnderpriced existing fee) =
     ''replacement underpriced: existing fee '' @ show_word existing @ '', new fee '' @ show_word fee"
| "types_pool_error_text T (TlPoolFull max_size) = ''pool is full (max '' @ decimal max_size @ '')''"
| "types_pool_error_text T (TlValidation e) = ''validation failed: '' @ validation_error_text T e"
| "types_pool_error_text T (TlEntityThrottled m) = ''entity '' @ m @ '' is throttled''"
| "types_pool_error_text T (TlNotFound h) = ''operation not found: '' @ tx_b256 T h"
| "types_pool_error_text T (TlOther m) = m"

fun builder_error_text :: "builder_error \<Rightarrow> string" where
  "builder_error_text NothingToBundle = ''no operations to bundle''"
| "builder_error_text (NonceConflict m) = ''nonce conflict: '' @ m"
| "builder_error_text (SubmissionFailed m) = ''submission failed: '' @ m"
| "builder_error_text (FeeEscalationExhausted attempts) =
     ''fee escalation exhausted after '' @ show_word attempts @ '' attempts''"
| "builder_error_text (TransactionReverted m) = ''transaction reverted: '' @ m"
| "builder_error_text (ReorgedOut b) = ''bundle reorged out at block '' @ show_word b"
| "builder_error_text (BuilderOther m) = m"

fun types_rpc_error_text :: "types_rpc_error \<Rightarrow> string" where
  "types_rpc_error_text (TrInvalidParams m) = ''invalid params: '' @ m"
| "types_rpc_error_text (TrMethodNotFound m) = ''method not found: '' @ m"
| "types_rpc_error_text (TrInternal m) = ''internal error: '' @ m"
| "types_rpc_error_text (TrOther m) = m"

fun bunzo_error_text :: "texts \<Rightarrow> bunzo_error \<Rightarrow> string" where
  "bunzo_error_text T (BzProvider e) = ''provider error: '' @ types_provider_error_text e"
| "bunzo_error_text T (BzPool e) = ''pool error: '' @ types_pool_error_text T e"
| "bunzo_error_text T (BzBuilder e) = ''builder error: '' @ builder_error_text e"
| "bunzo_error_text T (BzSigner e) = ''signer error: '' @ signer_error_text e"
| "bunzo_error_text T (BzRpc e) = ''rpc error: '' @ types_rpc_error_text e"
| "bunzo_error_text T (BzOther m) = m"

section \<open>Properties\<close>

text \<open>
  What a client is told when its operation is refused: the code is always the one for
  invalid parameters, also for a full pool, and the message names the cause: the entry point
  it asked for, or else what validation found, or else why the pool refused.
\<close>

theorem send_error_object:
  assumes "send_user_operation H cs uo ep s = (Returns (Inl e), s')"
  shows "rpc_error_object T e = \<lparr>eo_code = -32602, eo_message =
    (if \<not> is_entry_point cs ep then ''unsupported entry point: '' @ tx_address T ep
     else
       (let uo' = set_context H ep (cs_id cs) uo in
        case fst (validate_sync cs (Some (rs_pool s)) uo' (current_base_fee s) (rs_reputation s)) of
          Returns (Inl err) \<Rightarrow> validation_error_text T err
        | _ \<Rightarrow>
            (case fst (pool_add H uo' (current_base_fee s) (rs_pool s)) of
               Inl err \<Rightarrow> pool_error_text T err
             | Inr h \<Rightarrow> [])))\<rparr>"
  using assms
  by (auto simp: send_user_operation_def rpc_error_object_def invalid_useroperation_def Let_def
      split: if_splits prod.splits sum.splits run.splits)

text \<open>Addresses and hashes without the checksum.\<close>

definition sample_texts :: texts where
  "sample_texts = \<lparr>tx_address = (\<lambda>a. ''0x'' @ hex_bytes (to_be_bytes a)), tx_b256 = (\<lambda>h. ''0x'' @ hex_bytes (to_be_bytes h))\<rparr>"

theorem send_error_object_witness:
  "\<exists>e s'. send_user_operation sample_hashing chain_spec_mainnet (mainnet_uo\<lparr>uo_sender := 0\<rparr>) mainnet_entry_point mainnet_rpc =
      (Returns (Inl e), s') \<and>
    rpc_error_object sample_texts e = \<lparr>eo_code = -32602, eo_message = ''invalid sender: '' @ tx_address sample_texts 0\<rparr>"
proof -
  let ?uo = "mainnet_uo\<lparr>uo_sender := 0\<rparr>"
  have v: "validate_sync chain_spec_mainnet (Some p) (set_context H ep c ?uo) b m = (Returns (Inl (InvalidSender 0)), m)"
    for H ep c b p m
    by (simp add: validate_sync_def validate_static_fields_def)
  have ep: "is_entry_point chain_spec_mainnet mainnet_entry_point" by (simp add: is_entry_point_def)
  have s: "send_user_operation sample_hashing chain_spec_mainnet ?uo mainnet_entry_point mainnet_rpc =
      (Returns (Inl (InvalidParams (ValidationFailed (InvalidSender 0)))), mainnet_rpc)"
    unfolding send_user_operation_def Let_def v by (simp add: ep)
  from send_error_object [OF s, of sample_texts] s show ?thesis by (simp add: v ep Let_def)
qed

end
