(* ===== verification/Rpc_Server.thy ===== *)
theory Rpc_Server
  imports Startup Messages
begin

text \<open>
  The server that answers clients: the methods of the \<open>EthApi\<close> trait
  (\<open>crates/rpc/src/eth.rs\<close>) as requests, \<open>RpcServer\<close> and its two constructors
  (\<open>crates/rpc/src/server.rs\<close>), and the sequence of the answers to a sequence of requests, with
  failures turned into the error objects of \<open>crates/rpc/src/error.rs\<close>.  The HTTP transport and
  the JSON codec are library code.
\<close>

section \<open>Server\<close>

record 'w rpc_server =
  sv_config :: rpc_server_config
  sv_chain_spec :: chain_spec
  sv_state :: rpc_state
  sv_provider :: "'w evm_provider option"
  sv_entry_point_provider :: "'w entry_point_provider option"

definition rpc_server_new ::
  "rpc_server_config \<Rightarrow> chain_spec \<Rightarrow> operation_pool \<Rightarrow> reputation_manager \<Rightarrow> 'w rpc_server" where
  "rpc_server_new cfg cs p m =
     \<lparr>sv_config = cfg, sv_chain_spec = cs, sv_state = rpc_new p m, sv_provider = None,
      sv_entry_point_provider = None\<rparr>"

definition rpc_server_with_providers ::
  "rpc_server_config \<Rightarrow> chain_spec \<Rightarrow> operation_pool \<Rightarrow> reputation_manager \<Rightarrow> 'w evm_provider \<Rightarrow>
   'w entry_point_provider \<Rightarrow> 'w rpc_server" where
  "rpc_server_with_providers cfg cs p m P EP =
     \<lparr>sv_config = cfg, sv_chain_spec = cs, sv_state = rpc_new p m, sv_provider = Some P,
      sv_entry_point_provider = Some EP\<rparr>"

text \<open>The server of \<open>main\<close>: the clients of node and entry point beside the parts already wired.\<close>

definition main_server ::
  "cli_args \<Rightarrow> chain_spec \<Rightarrow> 'w evm_provider \<Rightarrow> 'w entry_point_provider \<Rightarrow> 'w rpc_server" where
  "main_server cli cs P EP =
     rpc_server_with_providers (main_rpc_config cli) cs (pool_new (pool_config_from cs)) rm_default P EP"

lemma main_server_state [simp]:
  "sv_state (main_server cli cs P EP) = main_rpc cs" "sv_chain_spec (main_server cli cs P EP) = cs"
  by (simp_all add: main_server_def rpc_server_with_providers_def main_rpc_def)

section \<open>Requests and answers\<close>

datatype eth_request =
    EthSendUserOperation user_operation address
  | EthEstimateUserOperationGas uo_optional_gas address
  | EthGetUserOperationByHash b256
  | EthGetUserOperationReceipt b256
  | EthChainId

datatype eth_response =
    HashResult b256
  | EstimateResult gas_estimate
  | OperationResult "uo_with_entry_point option"
  | ReceiptResult "uo_receipt option"
  | ChainIdResult string
  | ErrorResult error_object

definition respond :: "texts \<Rightarrow> ('a \<Rightarrow> eth_response) \<Rightarrow> rpc_error + 'a \<Rightarrow> eth_response" where
  "respond T f r = (case r of Inl e \<Rightarrow> ErrorResult (rpc_error_object T e) | Inr a \<Rightarrow> f a)"

definition respond_run :: "texts \<Rightarrow> ('a \<Rightarrow> eth_response) \<Rightarrow> (rpc_error + 'a) run \<Rightarrow> eth_response run" where
  "respond_run T f r = (case r of Panics \<Rightarrow> Panics | Returns v \<Rightarrow> Returns (respond T f v))"

fun serve ::
  "texts \<Rightarrow> hashing \<Rightarrow> eth_request \<Rightarrow> 'w rpc_server \<Rightarrow> 'w \<Rightarrow> eth_response run \<times> 'w rpc_server \<times> 'w" where
  "serve T H (EthSendUserOperation uo ep) sv w =
     (case send_user_operation H (sv_chain_spec sv) uo ep (sv_state sv) of
        (r, s) \<Rightarrow> (respond_run T HashResult r, sv\<lparr>sv_state := s\<rparr>, w))"
| "serve T H (EthEstimateUserOperationGas uo ep) sv w =
     (case estimate_user_operation_gas H (sv_chain_spec sv) (sv_entry_point_provider sv) uo ep (sv_state sv) w of
        (r, w') \<Rightarrow> (respond_run T EstimateResult r, sv, w'))"
| "serve T H (EthGetUserOperationByHash h) sv w =
     (Returns (OperationResult (get_user_operation_by_hash (sv_chain_spec sv) h (sv_state sv))), sv, w)"
| "serve T H (EthGetUserOperationReceipt h) sv w =
     (case get_user_operation_receipt H (sv_chain_spec sv) (sv_provider sv) h w of
        (r, w') \<Rightarrow> (Returns (respond T ReceiptResult r), sv, w'))"
| "serve T H EthChainId sv w = (Returns (ChainIdResult (chain_id (sv_chain_spec sv))), sv, w)"

fun serve_all ::
  "texts \<Rightarrow> hashing \<Rightarrow> eth_request list \<Rightarrow> 'w rpc_server \<Rightarrow> 'w \<Rightarrow>
   eth_response run list \<times> 'w rpc_server \<times> 'w" where
  "serve_all T H [] sv w = ([], sv, w)"
| "serve_all T H (q # qs) sv w =
     (case serve T H q sv w of
        (r, sv1, w1) \<Rightarrow> (case serve_all T H qs sv1 w1 of (rs, sv2, w2) \<Rightarrow> (r # rs, sv2, w2)))"

section \<open>Facts\<close>

text \<open>The submissions among the requests, and their answers.\<close>

fun submissions :: "eth_request list \<Rightarrow> (user_operation \<times> address) list" where
  "submissions [] = []"
| "submissions (EthSendUserOperation uo ep # qs) = (uo, ep) # submissions qs"
| "submissions (_ # qs) = submissions qs"

fun is_submission :: "eth_request \<Rightarrow> bool" where
  "is_submission (EthSendUserOperation uo ep) = True"
| "is_submission _ = False"

definition refusal_code :: "eth_response run \<Rightarrow> bool" where
  "refusal_code r \<longleftrightarrow> (case r of Returns (ErrorResult e) \<Rightarrow> eo_code e \<in> {-32602, -32603} | _ \<Rightarrow> True)"

definition client_error :: "rpc_error \<Rightarrow> bool" where
  "client_error e \<longleftrightarrow> (case e of MethodNotFound _ \<Rightarrow> False | _ \<Rightarrow> True)"

lemma refusal_code_simps [simp]:
  "refusal_code Panics" "refusal_code (Returns (HashResult h))" "refusal_code (Returns (EstimateResult g))"
  "refusal_code (Returns (OperationResult u))" "refusal_code (Returns (ReceiptResult c))"
  "refusal_code (Returns (ChainIdResult i))"
  by (simp_all add: refusal_code_def)

lemma refusal_code_error [simp]:
  "client_error e \<Longrightarrow> refusal_code (Returns (ErrorResult (rpc_error_object T e)))"
  by (cases e) (simp_all add: refusal_code_def rpc_error_object_def client_error_def invalid_useroperation_def)

lemma send_client_error:
  "send_user_operation H cs uo ep s = (Returns (Inl e), s') \<Longrightarrow> client_error e"
  by (auto simp: send_user_operation_def Let_def client_error_def split: if_splits prod.splits sum.splits run.splits)

lemma estimate_client_error:
  "estimate_user_operation_gas H cs epp uo ep s w = (Returns (Inl e), w') \<Longrightarrow> client_error e"
  by (auto simp: estimate_user_operation_gas_def Let_def client_error_def
      split: if_splits option.splits prod.splits sum.splits run.splits)

lemma map_sum_Inl_iff: "map_sum f id x = Inl e \<longleftrightarrow> (\<exists>e'. x = Inl e' \<and> e = f e')"
  by (cases x) auto

lemma receipt_client_error:
  "get_user_operation_receipt H cs P h w = (Inl e, w') \<Longrightarrow> client_error e"
  by (auto simp: get_user_operation_receipt_def Let_def client_error_def io_defs map_sum_Inl_iff
      split: if_splits option.splits prod.splits sum.splits list.splits)

lemma send_returns:
  assumes "send_user_operation H cs uo ep s = (r, s')"
  shows "r \<noteq> Panics"
  using assms by (cases rule: send_cases) auto

text \<open>The answers to the submissions.\<close>

definition submission_answers :: "eth_request list \<Rightarrow> 'a list \<Rightarrow> 'a list" where
  "submission_answers qs rs = map snd (filter (\<lambda>(q, r). is_submission q) (zip qs rs))"

lemma submission_answers_Nil [simp]: "submission_answers [] rs = []"
  by (simp add: submission_answers_def)

lemma submission_answers_Cons:
  "submission_answers (q # qs) (r # rs) = submission_answers [q] [r] @ submission_answers qs rs"
  by (simp add: submission_answers_def)

text \<open>One request: only a submission changes the state, only an estimate can panic.\<close>

lemma serve_one:
  assumes "serve T H q sv w = (r, sv', w')"
  shows "sv' = sv\<lparr>sv_state := snd (send_all H (sv_chain_spec sv) (submissions [q]) (sv_state sv))\<rparr> \<and>
    refusal_code r \<and> (r = Panics \<longrightarrow> (\<exists>uo ep. q = EthEstimateUserOperationGas uo ep)) \<and>
    submission_answers [q] [r] = map (\<lambda>(a, v). respond_run T HashResult v)
       (fst (send_all H (sv_chain_spec sv) (submissions [q]) (sv_state sv)))"
proof (cases q)
  case (EthSendUserOperation uo ep)
  obtain v s where v: "send_user_operation H (sv_chain_spec sv) uo ep (sv_state sv) = (v, s)" by fastforce
  then show ?thesis
    using assms EthSendUserOperation v send_returns [OF v] send_client_error [of H "sv_chain_spec sv" uo ep "sv_state sv"]
    by (auto simp: submission_answers_def respond_run_def respond_def split: run.splits sum.splits)
next
  case (EthEstimateUserOperationGas uo ep)
  obtain v w1 where v: "estimate_user_operation_gas H (sv_chain_spec sv) (sv_entry_point_provider sv) uo ep (sv_state sv) w = (v, w1)"
    by fastforce
  then show ?thesis
    using assms EthEstimateUserOperationGas
      estimate_client_error [of H "sv_chain_spec sv" "sv_entry_point_provider sv" uo ep "sv_state sv" w]
    by (auto simp: submission_answers_def respond_run_def respond_def split: run.splits sum.splits)
next
  case (EthGetUserOperationReceipt h)
  obtain v w1 where v: "get_user_operation_receipt H (sv_chain_spec sv) (sv_provider sv) h w = (v, w1)" by fastforce
  then show ?thesis
    using assms EthGetUserOperationReceipt receipt_client_error [of H "sv_chain_spec sv" "sv_provider sv" h w]
    by (auto simp: submission_answers_def respond_def split: sum.splits)
qed (use assms in \<open>auto simp: submission_answers_def\<close>)

lemma send_all_append:
  "send_all H cs (xs @ ys) s =
     (case send_all H cs xs s of (rs, s1) \<Rightarrow> (case send_all H cs ys s1 of (rs', s2) \<Rightarrow> (rs @ rs', s2)))"
  by (induction H cs xs s rule: send_all.induct) (simp_all split: prod.split)

lemma submissions_Cons: "submissions (q # qs) = submissions [q] @ submissions qs"
  by (cases q) simp_all

section \<open>Properties\<close>

text \<open>
  Claim C13.  Queries do not interfere.  Whatever sequence of requests a server answers, its
  state is the one that the submissions alone leave behind, and they get the answers they
  would get alone; nothing but a gas estimate can panic; and every error object carries the
  code for invalid parameters or for an internal error, so the code the crate reserves for a
  reverted execution is never sent.
\<close>

theorem queries_do_not_interfere:
  assumes "serve_all T H qs sv w = (rs, sv', w')"
  shows "length rs = length qs \<and>
    sv' = sv\<lparr>sv_state := snd (send_all H (sv_chain_spec sv) (submissions qs) (sv_state sv))\<rparr> \<and>
    submission_answers qs rs =
      map (\<lambda>(a, r). respond_run T HashResult r) (fst (send_all H (sv_chain_spec sv) (submissions qs) (sv_state sv))) \<and>
    (\<forall>(q, r)\<in>set (zip qs rs). r = Panics \<longrightarrow> (\<exists>uo ep. q = EthEstimateUserOperationGas uo ep)) \<and>
    (\<forall>e. Returns (ErrorResult e) \<in> set rs \<longrightarrow> eo_code e \<in> {-32602, -32603} \<and> eo_code e \<noteq> execution_reverted)"
  using assms
proof (induction qs arbitrary: sv w rs)
  case Nil
  then show ?case by (simp add: submission_answers_def)
next
  case (Cons q qs)
  obtain r sv1 w1 where 1: "serve T H q sv w = (r, sv1, w1)" by (metis prod.exhaust)
  obtain rs1 sv2 w2 where 2: "serve_all T H qs sv1 w1 = (rs1, sv2, w2)" by (metis prod.exhaust)
  have rs: "rs = r # rs1" "sv' = sv2" "w' = w2" using Cons.prems 1 2 by simp_all
  note one = serve_one [OF 1] and IH = Cons.IH [OF 2 [folded rs(2,3)]]
  have chain: "sv_chain_spec sv1 = sv_chain_spec sv" using one by simp
  have code: "eo_code e \<in> {-32602, -32603}" if "r = Returns (ErrorResult e)" for e
    using one that by (simp add: refusal_code_def)
  obtain xs s1 where 3: "send_all H (sv_chain_spec sv) (submissions [q]) (sv_state sv) = (xs, s1)" by fastforce
  obtain ys s2 where 4: "send_all H (sv_chain_spec sv) (submissions qs) s1 = (ys, s2)" by fastforce
  have "sv_state sv1 = s1" using one 3 by simp
  then show ?case
    using code one IH unfolding rs submissions_Cons [of q qs] send_all_append chain
    by (auto simp: submission_answers_Cons [of q qs] execution_reverted_def 3 4)
qed

text \<open>A server without providers, asked for its chain, for a receipt and to take an operation.\<close>

definition sample_requests :: "eth_request list" where
  "sample_requests =
     [EthChainId, EthGetUserOperationReceipt 5, EthSendUserOperation (mainnet_uo\<lparr>uo_sender := 0\<rparr>) mainnet_entry_point]"

definition sample_server :: "nat rpc_server" where
  "sample_server = rpc_server_new rpc_server_config_default chain_spec_mainnet (rs_pool mainnet_rpc) rm_default"

theorem queries_do_not_interfere_witness:
  "\<exists>rs sv. serve_all sample_texts sample_hashing sample_requests sample_server 7 = (rs, sv, 7) \<and> length rs = 3 \<and>
     rs ! 1 = Returns (ReceiptResult None) \<and> (\<forall>e. rs ! 2 = Returns (ErrorResult e) \<longrightarrow> eo_code e \<in> {-32602, -32603})"
proof -
  obtain r s where r: "send_user_operation sample_hashing chain_spec_mainnet (mainnet_uo\<lparr>uo_sender := 0\<rparr>) mainnet_entry_point
      (sv_state sample_server) = (r, s)" by fastforce
  let ?rs = "[Returns (ChainIdResult (chain_id chain_spec_mainnet)), Returns (ReceiptResult None),
      respond_run sample_texts HashResult r]"
  have "sv_chain_spec sample_server = chain_spec_mainnet" "sv_provider sample_server = None"
    by (simp_all add: sample_server_def rpc_server_new_def)
  then have run: "serve_all sample_texts sample_hashing sample_requests sample_server 7 =
      (?rs, sample_server\<lparr>sv_state := s\<rparr>, 7)"
    using r by (simp add: sample_requests_def get_user_operation_receipt_def io_return_def respond_def)
  show ?thesis
    using run queries_do_not_interfere [OF run] by (intro exI [of _ ?rs] exI) auto
qed

end
