(* ===== verification/Rpc_Threads.thy ===== *)
theory Rpc_Threads
  imports Rpc Pool_Threads "HOL-Library.Sublist"
begin

text \<open>
  \<open>eth_sendUserOperation\<close> (\<open>crates/rpc/src/eth.rs\<close>) under concurrency.  The server works on many
  requests at once; a request touches the shared state at several points: the base fee, the
  two questions validation asks the pool (\<open>crates/pool/src/validation.rs\<close>), the status and the
  counter of each entity in the reputation manager, and the lock acquisitions of the pool's
  \<open>add\<close>, which are the steps of \<open>Pool_Threads\<close>.  Between two of these points other requests
  run.  \<open>Rpc\<close> models a submission as one step; the lemmas below show that a submission left
  alone is that step.
\<close>

section \<open>Program points\<close>

text \<open>
  Where a request next touches shared state, with the local variables that are live there:
  inside the two loops over the entities, the entity at hand and those after it.
\<close>

datatype request_pc =
    Received user_operation address
  | AskReplacement user_operation u128
  | AskSequence user_operation u128
  | AskEntity user_operation u128 entity "entity list"
  | CountEntity user_operation u128 entity "entity list"
  | InPool user_operation pool_pc
  | Answered "(rpc_error + b256) run"

definition refuse :: "validation_error \<Rightarrow> request_pc" where
  "refuse e = Answered (Returns (Inl (InvalidParams (ValidationFailed e))))"

text \<open>The heads of the two loops of \<open>validate_reputation\<close>; after the second comes \<open>add\<close>.\<close>

definition count_loop :: "user_operation \<Rightarrow> u128 \<Rightarrow> entity list \<Rightarrow> request_pc" where
  "count_loop uo base_fee ens =
     (case ens of [] \<Rightarrow> InPool uo (AddKnown uo base_fee) | en # ens' \<Rightarrow> CountEntity uo base_fee en ens')"

definition ask_loop :: "user_operation \<Rightarrow> u128 \<Rightarrow> entity list \<Rightarrow> request_pc" where
  "ask_loop uo base_fee ens =
     (case ens of [] \<Rightarrow> count_loop uo base_fee (uo_entities uo) | en # ens' \<Rightarrow> AskEntity uo base_fee en ens')"

text \<open>What the request does with the result of \<open>add\<close>.\<close>

fun pool_answer :: "user_operation \<Rightarrow> pool_pc \<Rightarrow> request_pc" where
  "pool_answer uo (Done (AddResult (Inl e))) = Answered (Returns (Inl (RpcPool e)))"
| "pool_answer uo (Done (AddResult (Inr h))) = Answered (Returns (Inr h))"
| "pool_answer uo pc = InPool uo pc"

fun request_micro :: "hashing \<Rightarrow> chain_spec \<Rightarrow> request_pc \<Rightarrow> rpc_state \<Rightarrow> request_pc \<times> rpc_state" where
  "request_micro H cs (Received user_op entry_point) s =
     (if \<not> is_entry_point cs entry_point
      then (Answered (Returns (Inl (InvalidParams (UnsupportedEntryPoint entry_point)))), s)
      else
        (let uo = set_context H entry_point (cs_id cs) user_op;
             base_fee = current_base_fee s
         in case validate_static_fields cs uo of
              Inl e \<Rightarrow> (refuse e, s)
            | Inr _ \<Rightarrow>
                (case validate_gas_price cs uo base_fee of
                   Inl e \<Rightarrow> (refuse e, s)
                 | Inr _ \<Rightarrow> (AskReplacement uo base_fee, s))))"
| "request_micro H cs (AskReplacement uo base_fee) s =
     (if get_by_id (rs_pool s) (uo_id uo) \<noteq> None then (ask_loop uo base_fee (uo_entities uo), s)
      else (AskSequence uo base_fee, s))"
| "request_micro H cs (AskSequence uo base_fee) s =
     (let i = uo_id uo; key = nonce_key i; sq = nonce_sequence i
      in case max_nonce_sequence (rs_pool s) (id_sender i) key of
           None \<Rightarrow> (ask_loop uo base_fee (uo_entities uo), s)
         | Some max_seq \<Rightarrow>
             if sq \<noteq> max_seq + 1
             then (refuse (ValidationOther (InvalidNonceSequence (max_seq + 1) (id_sender i) key sq)), s)
             else (ask_loop uo base_fee (uo_entities uo), s))"
| "request_micro H cs (AskEntity uo base_fee en ens) s =
     (case check_entity (rs_reputation s) en of
        Inr _ \<Rightarrow> (ask_loop uo base_fee ens, s)
      | Inl status \<Rightarrow>
          (case reputation_msg en status of
             Panics \<Rightarrow> (Answered Panics, s)
           | Returns msg \<Rightarrow> (refuse (ValidationOther msg), s)))"
| "request_micro H cs (CountEntity uo base_fee en ens) s =
     (count_loop uo base_fee ens, s\<lparr>rs_reputation := record_seen (en_address en) (rs_reputation s)\<rparr>)"
| "request_micro H cs (InPool uo pc) s =
     (case micro H pc (rs_pool s) of (pc', p) \<Rightarrow> (pool_answer uo pc', s\<lparr>rs_pool := p\<rparr>))"
| "request_micro H cs (Answered r) s = (Answered r, s)"

section \<open>Concurrent requests\<close>

fun pc_sender :: "request_pc \<Rightarrow> address" where
  "pc_sender (Received uo ep) = uo_sender uo"
| "pc_sender (AskReplacement uo b) = uo_sender uo"
| "pc_sender (AskSequence uo b) = uo_sender uo"
| "pc_sender (AskEntity uo b en ens) = uo_sender uo"
| "pc_sender (CountEntity uo b en ens) = uo_sender uo"
| "pc_sender (InPool uo pc) = uo_sender uo"
| "pc_sender (Answered r) = 0"

text \<open>The answer a step gives, with the sender of its operation.\<close>

definition answers :: "request_pc \<Rightarrow> request_pc \<Rightarrow> (address \<times> (rpc_error + b256) run) list" where
  "answers pc pc' =
     (case (pc, pc') of
        (Answered _, _) \<Rightarrow> []
      | (_, Answered r) \<Rightarrow> [(pc_sender pc, r)]
      | _ \<Rightarrow> [])"

text \<open>Workers, the answers given so far, and the state they share.\<close>

type_synonym requests = "request_pc list \<times> (address \<times> (rpc_error + b256) run) list \<times> rpc_state"

inductive requests_step :: "hashing \<Rightarrow> chain_spec \<Rightarrow> requests \<Rightarrow> requests \<Rightarrow> bool" for H cs where
  runs: "i < length ts \<Longrightarrow> request_micro H cs (ts ! i) s = (pc, s') \<Longrightarrow>
    requests_step H cs (ts, given, s) (ts[i := pc], given @ answers (ts ! i) pc, s')"
| receives: "i < length ts \<Longrightarrow> ts ! i = Answered r \<Longrightarrow>
    requests_step H cs (ts, given, s) (ts[i := Received uo ep], given, s)"

inductive_cases requests_stepE: "requests_step H cs q q'"

definition requests_reach :: "hashing \<Rightarrow> chain_spec \<Rightarrow> requests \<Rightarrow> requests \<Rightarrow> bool" where
  "requests_reach H cs = (requests_step H cs)\<^sup>*\<^sup>*"

fun waiting :: "request_pc \<Rightarrow> bool" where
  "waiting (Received uo ep) = True"
| "waiting (Answered r) = True"
| "waiting _ = False"

section \<open>A request alone\<close>

definition request_alone :: "hashing \<Rightarrow> chain_spec \<Rightarrow> nat \<Rightarrow> request_pc \<times> rpc_state \<Rightarrow> request_pc \<times> rpc_state" where
  "request_alone H cs n = ((\<lambda>(pc, s). request_micro H cs pc s) ^^ n)"

lemma request_alone_simps [simp]:
  "request_alone H cs 0 q = q"
  "request_alone H cs (Suc n) (pc, s) = request_alone H cs n (request_micro H cs pc s)"
  by (simp_all add: request_alone_def funpow_Suc_right del: funpow.simps(2))

lemma request_alone_done [simp]: "request_alone H cs n (Answered r, s) = (Answered r, s)"
  by (induction n) simp_all

lemma request_alone_add: "request_alone H cs (m + n) q = request_alone H cs n (request_alone H cs m q)"
  by (simp add: request_alone_def add.commute [of m n] funpow_add)

text \<open>The questions about the entities, all at once.\<close>

lemma alone_ask_entities:
  "request_alone H cs (length ens) (ask_loop uo b ens, s) =
     (case check_entities (rs_reputation s) ens of
        Panics \<Rightarrow> (Answered Panics, s)
      | Returns (Inl e) \<Rightarrow> (refuse e, s)
      | Returns (Inr _) \<Rightarrow> (count_loop uo b (uo_entities uo), s))"
  by (induction ens) (auto simp: refuse_def ask_loop_def split: sum.split run.split)

lemma alone_count_entities:
  "request_alone H cs (length ens) (count_loop uo b ens, s) =
     (InPool uo (AddKnown uo b), s\<lparr>rs_reputation := record_seen_all ens (rs_reputation s)\<rparr>)"
  by (induction ens arbitrary: s) (simp_all add: record_seen_all_def count_loop_def)

text \<open>The steps inside the pool are those of the pool's own calls.\<close>

lemma alone_in_pool:
  assumes "alone H m (pc, rs_pool s) = (Done (AddResult r), p)" "pool_answer uo pc = InPool uo pc"
  shows "request_alone H cs m (InPool uo pc, s) = (Answered (Returns (map_sum RpcPool id r)), s\<lparr>rs_pool := p\<rparr>)"
  using assms
proof (induction m arbitrary: pc s)
  case 0
  then show ?case by (cases r) simp_all
next
  case (Suc m)
  obtain pc1 p1 where 1: "micro H pc (rs_pool s) = (pc1, p1)" by fastforce
  then have rest: "alone H m (pc1, p1) = (Done (AddResult r), p)" using Suc.prems(1) by simp
  show ?case
  proof (cases "pool_answer uo pc1 = InPool uo pc1")
    case True
    then show ?thesis using Suc.IH [of pc1 "s\<lparr>rs_pool := p1\<rparr>"] rest 1 by simp
  next
    case False
    then obtain r1 where pc1: "pc1 = Done (AddResult r1)"
      by (cases "(uo, pc1)" rule: pool_answer.cases) auto
    then have "r1 = r" "p1 = p" using rest by simp_all
    then show ?thesis using 1 pc1 by (cases r) simp_all
  qed
qed

text \<open>From one point to another in at most so many steps.\<close>

definition alone_in ::
  "hashing \<Rightarrow> chain_spec \<Rightarrow> nat \<Rightarrow> request_pc \<times> rpc_state \<Rightarrow> request_pc \<times> rpc_state \<Rightarrow> bool" where
  "alone_in H cs k q q' \<longleftrightarrow> (\<exists>m\<le>k. request_alone H cs m q = q')"

lemma alone_in_trans:
  assumes "alone_in H cs j q q'" "alone_in H cs k q' q''" "j + k \<le> n"
  shows "alone_in H cs n q q''"
proof -
  obtain m l where "m \<le> j" "request_alone H cs m q = q'" "l \<le> k" "request_alone H cs l q' = q''"
    using assms(1,2) unfolding alone_in_def by blast
  then have "request_alone H cs (m + l) q = q''" "m + l \<le> n"
    using assms(3) by (simp_all add: request_alone_add)
  then show ?thesis unfolding alone_in_def by blast
qed

lemma alone_in_step: "request_micro H cs pc s = q \<Longrightarrow> alone_in H cs 1 (pc, s) q"
  unfolding alone_in_def by (intro exI [of _ 1]) simp

lemma alone_in_mono: "alone_in H cs j q q' \<Longrightarrow> j \<le> k \<Longrightarrow> alone_in H cs k q q'"
  unfolding alone_in_def by (blast intro: order_trans)

lemma alone_in_next:
  "alone_in H cs k q (pc, s) \<Longrightarrow> request_micro H cs pc s = q' \<Longrightarrow> alone_in H cs (Suc k) q q'"
  using alone_in_trans [of H cs k q "(pc, s)" 1 q' "Suc k"] alone_in_step [of H cs pc s q'] by simp

lemma alone_in_answered:
  assumes "alone_in H cs k q (Answered r, s)"
  shows "request_alone H cs k q = (Answered r, s)"
proof -
  obtain m where "m \<le> k" "request_alone H cs m q = (Answered r, s)" using assms unfolding alone_in_def by blast
  then show ?thesis using request_alone_add [of H cs m "k - m" q] by simp
qed

text \<open>The two questions to the pool are \<open>validate_nonce\<close>.\<close>

lemma alone_nonce:
  "alone_in H cs 2 (AskReplacement uo b, s)
     (case validate_nonce (Some (rs_pool s)) uo of
        Inl e \<Rightarrow> refuse e
      | Inr _ \<Rightarrow> ask_loop uo b (uo_entities uo), s)"
proof (cases "get_by_id (rs_pool s) (uo_id uo) = None")
  case True
  show ?thesis
    by (rule alone_in_trans [OF alone_in_step alone_in_step])
      (use True in \<open>auto simp: validate_nonce_def Let_def split: option.split\<close>)
next
  case False
  then have "alone_in H cs 1 (AskReplacement uo b, s) (ask_loop uo b (uo_entities uo), s)"
    by (intro alone_in_step) simp
  moreover have "validate_nonce (Some (rs_pool s)) uo = Inr ()"
    using False by (auto simp: validate_nonce_def Let_def)
  ultimately show ?thesis by (simp add: alone_in_mono)
qed

lemma uo_entities_length: "length (uo_entities uo) \<le> 3"
  by (simp add: uo_entities_def split: option.split)

lemma alone_reputation:
  "alone_in H cs 6 (ask_loop uo b (uo_entities uo), s)
     (case validate_reputation uo (rs_reputation s) of
        (Panics, m) \<Rightarrow> (Answered Panics, s)
      | (Returns (Inl e), m) \<Rightarrow> (refuse e, s)
      | (Returns (Inr _), m) \<Rightarrow> (InPool uo (AddKnown uo b), s\<lparr>rs_reputation := m\<rparr>))"
proof -
  note len = uo_entities_length [of uo]
  have ask: "alone_in H cs 3 (ask_loop uo b (uo_entities uo), s)
     (case check_entities (rs_reputation s) (uo_entities uo) of
        Panics \<Rightarrow> (Answered Panics, s)
      | Returns (Inl e) \<Rightarrow> (refuse e, s)
      | Returns (Inr _) \<Rightarrow> (count_loop uo b (uo_entities uo), s))"
    unfolding alone_in_def using len alone_ask_entities [of H cs "uo_entities uo" uo b s] by blast
  show ?thesis
  proof (cases "check_entities (rs_reputation s) (uo_entities uo) = Returns (Inr ())")
    case True
    have count: "alone_in H cs 3 (count_loop uo b (uo_entities uo), s)
        (InPool uo (AddKnown uo b), s\<lparr>rs_reputation := record_seen_all (uo_entities uo) (rs_reputation s)\<rparr>)"
      unfolding alone_in_def using len alone_count_entities [of H cs "uo_entities uo" uo b s] by blast
    have "alone_in H cs 3 (ask_loop uo b (uo_entities uo), s) (count_loop uo b (uo_entities uo), s)"
      using ask True by simp
    from alone_in_trans [OF this count, of 6] show ?thesis
      using True by (simp add: validate_reputation_def)
  next
    case False
    then show ?thesis
      using alone_in_mono [OF ask, of 6] by (simp add: validate_reputation_def split: run.splits sum.splits)
  qed
qed

text \<open>A submission that passes validation arrives at the pool with its entities counted.\<close>

lemma alone_validation:
  assumes "is_entry_point cs ep"
  shows "alone_in H cs 9 (Received user_op ep, s)
    (let uo = set_context H ep (cs_id cs) user_op in
     case validate_sync cs (Some (rs_pool s)) uo (current_base_fee s) (rs_reputation s) of
       (Panics, m) \<Rightarrow> (Answered Panics, s)
     | (Returns (Inl e), m) \<Rightarrow> (refuse e, s)
     | (Returns (Inr _), m) \<Rightarrow> (InPool uo (AddKnown uo (current_base_fee s)), s\<lparr>rs_reputation := m\<rparr>))"
proof -
  let ?uo = "set_context H ep (cs_id cs) user_op" and ?b = "current_base_fee s"
  have first: "alone_in H cs 1 (Received user_op ep, s)
      (case validate_static_fields cs ?uo of
         Inl e \<Rightarrow> (refuse e, s)
       | Inr _ \<Rightarrow> (case validate_gas_price cs ?uo ?b of Inl e \<Rightarrow> (refuse e, s) | Inr _ \<Rightarrow> (AskReplacement ?uo ?b, s)))"
    by (rule alone_in_step) (simp add: assms Let_def)
  show ?thesis
  proof (cases "validate_static_fields cs ?uo = Inr () \<and> validate_gas_price cs ?uo ?b = Inr ()")
    case False
    then show ?thesis
      using alone_in_mono [OF first, of 9] by (auto simp: validate_sync_def Let_def split: sum.splits)
  next
    case ok: True
    then have "alone_in H cs 1 (Received user_op ep, s) (AskReplacement ?uo ?b, s)" using first by simp
    from alone_in_trans [OF this alone_nonce, of 3]
    have nonce: "alone_in H cs 3 (Received user_op ep, s)
        (case validate_nonce (Some (rs_pool s)) ?uo of Inl e \<Rightarrow> refuse e | Inr _ \<Rightarrow> ask_loop ?uo ?b (uo_entities ?uo), s)"
      by simp
    show ?thesis
    proof (cases "validate_nonce (Some (rs_pool s)) ?uo")
      case (Inl e)
      then show ?thesis using ok alone_in_mono [OF nonce, of 9] by (simp add: validate_sync_def Let_def)
    next
      case (Inr u)
      then have "alone_in H cs 3 (Received user_op ep, s) (ask_loop ?uo ?b (uo_entities ?uo), s)" using nonce by simp
      from alone_in_trans [OF this alone_reputation, of 9] show ?thesis
        using ok Inr by (simp add: validate_sync_def Let_def)
    qed
  qed
qed

lemma alone_in_add:
  assumes "pool_add H uo b (rs_pool s) = (Inr h, p)"
  shows "alone_in H cs 14 (InPool uo (AddKnown uo b), s) (Answered (Returns (Inr h)), s\<lparr>rs_pool := p\<rparr>)"
  using alone_in_pool [of H 14 "AddKnown uo b" s "Inr h" p uo cs] assms
  by (auto simp: alone_in_def alone_add_call simp del: alone_simps)

lemma alone_submission:
  "alone_in H cs 23 (Received uo ep, s)
     (Answered (fst (send_user_operation H cs uo ep s)), snd (send_user_operation H cs uo ep s))"
proof (cases "is_entry_point cs ep")
  case False
  then have "alone_in H cs 1 (Received uo ep, s)
      (Answered (fst (send_user_operation H cs uo ep s)), snd (send_user_operation H cs uo ep s))"
    by (intro alone_in_step) (simp add: send_user_operation_def)
  then show ?thesis by (rule alone_in_mono) simp
next
  case True
  let ?uo = "set_context H ep (cs_id cs) uo" and ?b = "current_base_fee s"
  obtain v m where v: "validate_sync cs (Some (rs_pool s)) ?uo ?b (rs_reputation s) = (v, m)" by fastforce
  have m: "m = rs_reputation s" if "v \<noteq> Returns (Inr ())"
    using validate_sync_manager [of cs "Some (rs_pool s)" ?uo ?b "rs_reputation s"] v that by simp
  have val: "alone_in H cs 9 (Received uo ep, s)
      (case v of Panics \<Rightarrow> (Answered Panics, s) | Returns (Inl e) \<Rightarrow> (refuse e, s)
       | Returns (Inr _) \<Rightarrow> (InPool ?uo (AddKnown ?uo ?b), s\<lparr>rs_reputation := m\<rparr>))"
    using alone_validation [OF True, of H uo s] v by (simp add: Let_def split: run.splits sum.splits)
  show ?thesis
  proof (cases "v = Returns (Inr ())")
    case ok: True
    obtain r p where add: "pool_add H ?uo ?b (rs_pool s) = (r, p)" by fastforce
    let ?s1 = "s\<lparr>rs_reputation := m\<rparr>"
    have "alone H 14 (AddKnown ?uo ?b, rs_pool ?s1) = (Done (AddResult r), p)"
      using add by (simp add: alone_add_call)
    from alone_in_pool [OF this, of ?uo cs]
    have "alone_in H cs 14 (InPool ?uo (AddKnown ?uo ?b), ?s1) (Answered (Returns (map_sum RpcPool id r)), ?s1\<lparr>rs_pool := p\<rparr>)"
      unfolding alone_in_def by auto
    moreover have "alone_in H cs 9 (Received uo ep, s) (InPool ?uo (AddKnown ?uo ?b), ?s1)" using val ok by simp
    ultimately have "alone_in H cs 23 (Received uo ep, s) (Answered (Returns (map_sum RpcPool id r)), ?s1\<lparr>rs_pool := p\<rparr>)"
      using alone_in_trans [of H cs 9 _ _ 14] by simp
    then show ?thesis
      using True v ok add by (cases r) (simp_all add: send_user_operation_def Let_def)
  next
    case False
    then show ?thesis
      using alone_in_mono [OF val, of 23] True v m
      by (auto simp: send_user_operation_def Let_def refuse_def split: run.splits sum.splits)
  qed
qed

section \<open>Counting\<close>

text \<open>
  What a request in flight has still to count for an address: what it has found in good
  standing and not recorded yet.  A request claims a place for its sender once the sender
  was found in good standing, and has counted once the sender is recorded.
\<close>

definition occurrences :: "entity list \<Rightarrow> address \<Rightarrow> nat" where
  "occurrences ens a = length (filter (\<lambda>en. en_address en = a) ens)"

fun owed :: "address \<Rightarrow> request_pc \<Rightarrow> nat" where
  "owed a (AskEntity uo b en ens) = mentions uo a - occurrences (en # ens) a"
| "owed a (CountEntity uo b en ens) = occurrences (en # ens) a"
| "owed a _ = 0"

fun claimed :: "address \<Rightarrow> request_pc \<Rightarrow> nat" where
  "claimed a (AskEntity uo b en ens) = (if uo_sender uo = a \<and> Suc (length ens) < length (uo_entities uo) then 1 else 0)"
| "claimed a (CountEntity uo b en ens) = (if uo_sender uo = a then 1 else 0)"
| "claimed a (InPool uo pc) = (if uo_sender uo = a then 1 else 0)"
| "claimed a _ = 0"

fun counted :: "address \<Rightarrow> request_pc \<Rightarrow> nat" where
  "counted a (CountEntity uo b en ens) = (if uo_sender uo = a \<and> Suc (length ens) < length (uo_entities uo) then 1 else 0)"
| "counted a (InPool uo pc) = (if uo_sender uo = a then 1 else 0)"
| "counted a _ = 0"

fun pc_ok :: "request_pc \<Rightarrow> bool" where
  "pc_ok (AskEntity uo b en ens) \<longleftrightarrow> suffix (en # ens) (uo_entities uo)"
| "pc_ok (CountEntity uo b en ens) \<longleftrightarrow> suffix (en # ens) (uo_entities uo)"
| "pc_ok _ \<longleftrightarrow> True"

lemma uo_entities_nonempty [simp]: "uo_entities uo \<noteq> []"
  by (simp add: uo_entities_def)

lemma occurrences_all: "occurrences (uo_entities uo) a = mentions uo a"
  by (simp add: occurrences_def mentions_def)

text \<open>The heads of the loops, whether or not entities are left.\<close>

lemma count_loop_counts [simp]:
  "owed a (count_loop uo b ens) = occurrences ens a"
  "claimed a (count_loop uo b ens) = (if uo_sender uo = a then 1 else 0)"
  "counted a (count_loop uo b ens) = (if uo_sender uo = a \<and> length ens < length (uo_entities uo) then 1 else 0)"
  "pc_ok (count_loop uo b ens) \<longleftrightarrow> ens = [] \<or> suffix ens (uo_entities uo)"
  by (simp_all add: count_loop_def occurrences_def split: list.split)

lemma ask_loop_counts [simp]:
  "owed a (ask_loop uo b ens) = mentions uo a - occurrences ens a"
  "claimed a (ask_loop uo b ens) = (if uo_sender uo = a \<and> length ens < length (uo_entities uo) then 1 else 0)"
  "counted a (ask_loop uo b ens) = 0"
  "pc_ok (ask_loop uo b ens) \<longleftrightarrow> ens = [] \<or> suffix ens (uo_entities uo)"
  by (simp_all add: ask_loop_def occurrences_all split: list.split) (simp_all add: occurrences_def)

lemma heads_not_answered [simp]:
  "count_loop uo b ens \<noteq> Answered r" "ask_loop uo b ens \<noteq> Answered r"
  by (simp_all add: ask_loop_def count_loop_def split: list.split)

lemma pool_answer_counts [simp]:
  "owed a (pool_answer uo pc) = 0" "pc_ok (pool_answer uo pc)"
  by (cases "(uo, pc)" rule: pool_answer.cases; simp)+

definition in_all :: "(request_pc \<Rightarrow> nat) \<Rightarrow> request_pc list \<Rightarrow> nat" where
  "in_all f ts = sum_list (map f ts)"

lemma in_all_update:
  assumes "i < length ts"
  shows "in_all f (ts[i := pc]) + f (ts ! i) = in_all f ts + f pc"
proof -
  have "ts = take i ts @ ts ! i # drop (Suc i) ts" using assms by (rule id_take_nth_drop)
  moreover have "ts[i := pc] = take i ts @ pc # drop (Suc i) ts" using assms by (rule upd_conv_take_nth_drop)
  ultimately show ?thesis unfolding in_all_def
    by (smt (verit) add.commute add.left_commute list.simps(9) map_append sum_list.Cons sum_list.append)
qed

lemma in_all_le: "(\<And>pc. f pc \<le> c) \<Longrightarrow> in_all f ts \<le> c * length ts"
  by (induction ts) (simp_all add: in_all_def add_mono)

lemma occurrences_suffix: "suffix ens (uo_entities uo) \<Longrightarrow> occurrences ens a \<le> mentions uo a"
  by (auto simp: suffix_def occurrences_def mentions_def)

lemma owed_le: "pc_ok pc \<Longrightarrow> owed a pc \<le> 3"
proof (cases pc)
  case (AskEntity uo b en ens)
  then show ?thesis using mentions_bounds(1) [of uo a] by simp
next
  case (CountEntity uo b en ens)
  assume "pc_ok pc"
  with CountEntity show ?thesis using occurrences_suffix [of "en # ens" uo a] mentions_bounds(1) [of uo a] by simp
qed simp_all

lemma claimed_le: "claimed a pc \<le> 1" and counted_le_claimed: "counted a pc \<le> claimed a pc"
  by (cases pc; simp)+

lemma in_all_counted: "in_all (counted a) ts \<le> in_all (claimed a) ts"
  by (induction ts) (simp_all add: in_all_def add_mono counted_le_claimed)

lemma in_all_owed: "list_all pc_ok ts \<Longrightarrow> in_all (owed a) ts \<le> 3 * length ts"
  by (induction ts) (auto simp: in_all_def add_mono owed_le)

text \<open>What one step does to the counters of one address.\<close>

definition step_counts ::
  "address \<Rightarrow> request_pc \<Rightarrow> reputation_manager \<Rightarrow> request_pc \<Rightarrow> reputation_manager \<Rightarrow> nat \<Rightarrow> bool" where
  "step_counts a pc m pc' m' answered \<longleftrightarrow>
     (unat (seen m' a) + owed a pc' \<le> unat (seen m a) + owed a pc \<or> rm_status m a = Ok \<and> m' = m) \<and>
     answered + counted a pc' + unat (seen m a) \<le> counted a pc + unat (seen m' a) \<and>
     (answered + claimed a pc' \<le> claimed a pc \<or>
      rm_status m a = Ok \<and> m' = m \<and> answered + counted a pc' = counted a pc)"

lemma suffix_uncons:
  assumes "suffix (en # ens) xs"
  shows "suffix ens xs" "length ens < length xs"
  using assms by (auto simp: suffix_def)

lemma hd_account: "hd (uo_entities uo) = entity_account (uo_sender uo)"
  by (simp add: uo_entities_def)

lemma suffix_full:
  assumes "suffix (en # ens) xs" "length xs \<le> length (en # ens)"
  shows "xs = en # ens"
  using assms by (auto simp: suffix_def)

lemma answers_plain [simp]: "accepted a (answers pc pc') = 0" if "\<And>h. pc' \<noteq> Answered (Returns (Inr h))"
  using that by (auto simp: accepted_def answers_def split: request_pc.split)

lemma refuse_plain [simp]: "refuse e \<noteq> Answered (Returns (Inr h))" "pc_ok (refuse e)" "owed a (refuse e) = 0"
  "claimed a (refuse e) = 0" "counted a (refuse e) = 0"
  by (simp_all add: refuse_def)

lemma ask_entity_counts:
  assumes "request_micro H cs (AskEntity uo b en ens) s = (pc', s')" "suffix (en # ens) (uo_entities uo)"
  shows "pc_ok pc' \<and> s' = s \<and>
    step_counts a (AskEntity uo b en ens) (rs_reputation s) pc' (rs_reputation s)
      (accepted a (answers (AskEntity uo b en ens) pc'))"
proof (cases "rm_status (rs_reputation s) (en_address en) = Ok")
  case True
  then have "pc' = ask_loop uo b ens" "s' = s"
    using assms(1) by (auto simp: check_entity_def)
  moreover have "en_address en = a" if "uo_sender uo = a" "\<not> length (en # ens) < length (uo_entities uo)"
    using suffix_full [OF assms(2)] that hd_account [of uo] by (simp add: entity_defs)
  ultimately show ?thesis
    using True suffix_uncons [OF assms(2)]
    by (auto simp: step_counts_def occurrences_def intro: diff_le_mono2)
next
  case False
  then have "check_entity (rs_reputation s) en = Inl (rm_status (rs_reputation s) (en_address en))"
    by (simp add: check_entity_Inl)
  with False obtain e where "check_entity (rs_reputation s) en = Inl e" "e \<noteq> Ok" by blast
  then have "(\<exists>v. pc' = refuse v) \<and> s' = s"
    using assms(1) by (cases e) auto
  then show ?thesis by (auto simp: step_counts_def)
qed

lemma count_entity_counts:
  assumes "request_micro H cs (CountEntity uo b en ens) s = (pc', s')" "suffix (en # ens) (uo_entities uo)"
    and "rm_inv (rs_reputation s)" "unat (seen (rs_reputation s) (en_address en)) < 2 ^ 63"
  shows "pc_ok pc' \<and> s' = s\<lparr>rs_reputation := record_seen (en_address en) (rs_reputation s)\<rparr> \<and>
    step_counts a (CountEntity uo b en ens) (rs_reputation s) pc' (rs_reputation s')
      (accepted a (answers (CountEntity uo b en ens) pc'))"
proof -
  have pc': "pc' = count_loop uo b ens" and s': "s' = s\<lparr>rs_reputation := record_seen (en_address en) (rs_reputation s)\<rparr>"
    using assms(1) by simp_all
  have seen: "unat (seen (record_seen (en_address en) (rs_reputation s)) a) =
      (if a = en_address en then Suc (unat (seen (rs_reputation s) a)) else unat (seen (rs_reputation s) a))"
    using assms(3) unat_add_fits [of "seen (rs_reputation s) (en_address en)" 1] assms(4)
    by (simp add: counters_record_seen)
  have first: "en_address en = a" if "uo_sender uo = a" "\<not> length (en # ens) < length (uo_entities uo)"
    using suffix_full [OF assms(2)] that hd_account [of uo] by (simp add: entity_defs)
  have count: "counted a (count_loop uo b ens) \<le>
      counted a (CountEntity uo b en ens) + (if a = en_address en then 1 else 0)"
    using first by auto
  have owed: "owed a (CountEntity uo b en ens) =
      (if a = en_address en then Suc (owed a (count_loop uo b ens)) else owed a (count_loop uo b ens))"
    by (simp add: occurrences_def)
  have plain: "accepted a (answers (CountEntity uo b en ens) (count_loop uo b ens)) = 0" by simp
  have "step_counts a (CountEntity uo b en ens) (rs_reputation s) (count_loop uo b ens)
      (record_seen (en_address en) (rs_reputation s)) 0"
    unfolding step_counts_def seen owed using count by (cases "a = en_address en") simp_all
  then show ?thesis
    using suffix_uncons [OF assms(2)] by (simp add: s' pc' plain)
qed

text \<open>Every step, with the manager afterwards.\<close>

definition only_seen :: "reputation_manager \<Rightarrow> bool" where
  "only_seen m \<longleftrightarrow> rm_inv m \<and> rm_config m = reputation_config_default \<and> (\<forall>a. included m a = 0)"

lemma only_seen_Ok:
  assumes "only_seen m" "unat (seen m a) < 2 ^ 53"
  shows "rm_status m a = Ok \<longleftrightarrow> unat (seen m a) \<le> 10"
  using assms default_status_cases [of "\<lparr>re_ops_seen = seen m a, re_ops_included = 0\<rparr>"]
  by (simp add: rm_status_counters only_seen_def)

text \<open>An answer from the pool takes the place that the request has claimed.\<close>

lemma pool_answer_step:
  "accepted a (answers (InPool uo pc) (pool_answer uo pc1)) + counted a (pool_answer uo pc1) \<le> counted a (InPool uo pc)"
  "accepted a (answers (InPool uo pc) (pool_answer uo pc1)) + claimed a (pool_answer uo pc1) \<le> claimed a (InPool uo pc)"
  by (cases "(uo, pc1)" rule: pool_answer.cases; simp add: answers_def accepted_def)+

lemma answers_none [simp]: "answers (Answered r) pc = []"
  by (simp add: answers_def)

lemma accepted_none [simp]: "accepted a [] = 0"
  by (simp add: accepted_def)

lemma micro_counts:
  assumes "request_micro H cs pc s = (pc', s')" "pc_ok pc" "only_seen (rs_reputation s)"
    and "\<And>a. unat (seen (rs_reputation s) a) < 2 ^ 53"
  shows "pc_ok pc' \<and> only_seen (rs_reputation s') \<and>
    step_counts a pc (rs_reputation s) pc' (rs_reputation s') (accepted a (answers pc pc'))"
proof (cases "(\<exists>uo b en ens. pc = AskEntity uo b en ens) \<or> (\<exists>uo b en ens. pc = CountEntity uo b en ens)")
  case True
  then show ?thesis
  proof (elim disjE exE)
    fix uo b en ens
    assume "pc = AskEntity uo b en ens"
    then show ?thesis using ask_entity_counts [of H cs uo b en ens s pc' s' a] assms by auto
  next
    fix uo b en ens
    assume pc: "pc = CountEntity uo b en ens"
    have "unat (seen (rs_reputation s) (en_address en)) < 2 ^ 63"
      using assms(4) [of "en_address en"] by (rule less_trans) simp
    then show ?thesis
      using count_entity_counts [of H cs uo b en ens s pc' s' a] assms pc
      by (auto simp: only_seen_def counters_record_seen)
  qed
next
  case False
  have "pc_ok pc' \<and> rs_reputation s' = rs_reputation s \<and>
      owed a pc' \<le> owed a pc \<and>
      accepted a (answers pc pc') + counted a pc' \<le> counted a pc \<and>
      accepted a (answers pc pc') + claimed a pc' \<le> claimed a pc"
  proof (cases "\<exists>uo q. pc = InPool uo q")
    case True
    then obtain uo q where pc: "pc = InPool uo q" by blast
    obtain q' p where "micro H q (rs_pool s) = (q', p)" by fastforce
    then have "pc' = pool_answer uo q'" "rs_reputation s' = rs_reputation s" using assms(1) pc by auto
    then show ?thesis using pool_answer_step [of a uo q q'] by (simp only: pc pool_answer_counts) simp
  next
    case other: False
    then show ?thesis
      using assms(1,2) False
      by (cases "(H, cs, pc, s)" rule: request_micro.cases)
        (auto simp: Let_def occurrences_all split: if_splits sum.splits option.splits prod.splits)
  qed
  then show ?thesis using assms(3) by (simp add: step_counts_def)
qed

text \<open>
  The invariant of \<open>n\<close> workers.  What an address has on its counter and is still owed stays
  below ten and three for each worker; the accepted operations of a sender are counted; and
  they stay, with the claims in flight, within ten and one for each worker.
\<close>

definition counts_inv :: "nat \<Rightarrow> requests \<Rightarrow> bool" where
  "counts_inv n q \<longleftrightarrow>
     (case q of (ts, given, s) \<Rightarrow>
        length ts = n \<and> list_all pc_ok ts \<and> only_seen (rs_reputation s) \<and>
        (\<forall>a. unat (seen (rs_reputation s) a) + in_all (owed a) ts \<le> 10 + 3 * n \<and>
             accepted a given + in_all (counted a) ts \<le> unat (seen (rs_reputation s) a) \<and>
             accepted a given + in_all (claimed a) ts \<le> 10 + n))"

lemma accepted_append: "accepted a (xs @ ys) = accepted a xs + accepted a ys"
  by (simp add: accepted_def)

lemma list_all_update: "list_all P xs \<Longrightarrow> P x \<Longrightarrow> list_all P (xs[i := x])"
  using set_update_subset_insert [of xs i x] by (auto simp: list_all_iff)

lemma counts_inv_runs:
  assumes inv: "counts_inv n (ts, given, s)" and n: "n < 2 ^ 50" and i: "i < length ts"
    and micro: "request_micro H cs (ts ! i) s = (pc, s')"
  shows "counts_inv n (ts[i := pc], given @ answers (ts ! i) pc, s')"
proof -
  let ?m = "rs_reputation s" and ?m' = "rs_reputation s'"
  have len: "length ts = n" and oks: "list_all pc_ok ts" and only: "only_seen ?m"
    and per: "unat (seen ?m a) + in_all (owed a) ts \<le> 10 + 3 * n"
      "accepted a given + in_all (counted a) ts \<le> unat (seen ?m a)"
      "accepted a given + in_all (claimed a) ts \<le> 10 + n" for a
    using inv by (auto simp: counts_inv_def)
  have small: "unat (seen ?m a) < 2 ^ 53" for a
    using per(1) [of a] n by simp
  have ok: "pc_ok (ts ! i)" using oks i by (simp add: list_all_length)
  have one: "pc_ok pc" "only_seen ?m'"
    "step_counts a (ts ! i) ?m pc ?m' (accepted a (answers (ts ! i) pc))" for a
    using micro_counts [OF micro ok only small] by blast+
  have oks': "list_all pc_ok (ts[i := pc])" using oks one(1) by (rule list_all_update)
  have len': "length (ts[i := pc]) = n" using len by simp
  note upd = in_all_update [OF i]
  have "unat (seen ?m' a) + in_all (owed a) (ts[i := pc]) \<le> 10 + 3 * n" for a
  proof (cases "unat (seen ?m' a) + owed a pc \<le> unat (seen ?m a) + owed a (ts ! i)")
    case True
    then show ?thesis using per(1) [of a] upd [of "owed a" pc] by linarith
  next
    case False
    then have "rm_status ?m a = Ok" "?m' = ?m" using one(3) [of a] unfolding step_counts_def by blast+
    then have "unat (seen ?m' a) \<le> 10" using only_seen_Ok [OF only small] by simp
    then show ?thesis using in_all_owed [OF oks', of a] len' by simp
  qed
  moreover have counted': "accepted a (given @ answers (ts ! i) pc) + in_all (counted a) (ts[i := pc]) \<le> unat (seen ?m' a)" for a
    using per(2) [of a] upd [of "counted a" pc] one(3) [of a] unfolding step_counts_def accepted_append by linarith
  moreover have "accepted a (given @ answers (ts ! i) pc) + in_all (claimed a) (ts[i := pc]) \<le> 10 + n" for a
  proof (cases "accepted a (answers (ts ! i) pc) + claimed a pc \<le> claimed a (ts ! i)")
    case True
    then show ?thesis using per(3) [of a] upd [of "claimed a" pc] unfolding accepted_append by linarith
  next
    case False
    then have "rm_status ?m a = Ok" "?m' = ?m" using one(3) [of a] unfolding step_counts_def by blast+
    then have "unat (seen ?m' a) \<le> 10" using only_seen_Ok [OF only small] by simp
    then have "accepted a (given @ answers (ts ! i) pc) \<le> 10" using counted' [of a] by simp
    moreover have "in_all (claimed a) (ts[i := pc]) \<le> n"
      using in_all_le [of "claimed a" 1 "ts[i := pc]"] claimed_le len' by simp
    ultimately show ?thesis by simp
  qed
  ultimately show ?thesis
    using oks' len' one(2) by (simp add: counts_inv_def)
qed

lemma counts_inv_step:
  assumes "counts_inv n q" "n < 2 ^ 50" "requests_step H cs q q'"
  shows "counts_inv n q'"
  using assms(3)
proof (cases rule: requests_step.cases)
  case (runs i ts s pc s' given)
  then show ?thesis using counts_inv_runs assms(1,2) by simp
next
  case (receives i ts r given s uo ep)
  then have "in_all f (ts[i := Received uo ep]) = in_all f ts"
    if "f (Answered r) = 0" "f (Received uo ep) = 0" for f
    using in_all_update [of i ts f "Received uo ep"] that by simp
  then show ?thesis
    using assms(1) receives by (simp add: counts_inv_def list_all_update)
qed

lemma counts_inv_reach:
  assumes "requests_reach H cs q q'" "counts_inv n q" "n < 2 ^ 50"
  shows "counts_inv n q'"
  using assms unfolding requests_reach_def
  by (induction rule: rtranclp_induct) (auto intro: counts_inv_step)

lemma counts_inv_start:
  assumes "list_all waiting ts"
  shows "counts_inv (length ts) (ts, [], rpc_new p rm_default)"
proof -
  have "in_all f ts = 0" if "\<And>pc. waiting pc \<Longrightarrow> f pc = 0" for f
    using assms that by (induction ts) (simp_all add: in_all_def)
  moreover have "owed a pc = 0" "claimed a pc = 0" "counted a pc = 0" if "waiting pc" for a pc
    using that by (cases pc; simp)+
  moreover have "list_all pc_ok ts"
    using assms by (rule list.pred_mono_strong) (auto elim: waiting.elims)
  ultimately show ?thesis
    by (simp add: counts_inv_def only_seen_def rpc_new_def rm_default_def accepted_def)
qed

section \<open>The size of the pool\<close>

text \<open>A request whose \<open>add\<close> has passed the size check and not indexed its entry yet.\<close>

fun has_room :: "request_pc \<Rightarrow> nat" where
  "has_room (InPool uo pc) = admitted pc"
| "has_room _ = 0"

lemma has_room_heads [simp]:
  "has_room (count_loop uo b ens) = 0" "has_room (ask_loop uo b ens) = 0" "has_room (refuse e) = 0"
  "has_room (pool_answer uo pc) = admitted pc"
  by (simp_all add: count_loop_def ask_loop_def refuse_def split: list.split)
    (cases "(uo, pc)" rule: pool_answer.cases; simp)

lemma request_size:
  assumes "request_micro H cs pc s = (pc', s')"
  shows "pl_config (rs_pool s') = pl_config (rs_pool s) \<and>
    (pool_size (rs_pool s') + has_room pc' \<le> pool_size (rs_pool s) + has_room pc \<or>
     has_room pc' = 1 \<and> pool_size (rs_pool s') = pool_size (rs_pool s) \<and>
     pool_size (rs_pool s) < pc_max_size (pl_config (rs_pool s)))"
proof (cases "\<exists>uo q. pc = InPool uo q")
  case True
  then obtain uo q where pc: "pc = InPool uo q" by blast
  obtain q' p where m: "micro H q (rs_pool s) = (q', p)" by fastforce
  have "pc' = pool_answer uo q'" "s' = s\<lparr>rs_pool := p\<rparr>" using assms pc m by simp_all
  then show ?thesis using micro_size [OF m] pc by simp
next
  case False
  then have "rs_pool s' = rs_pool s \<and> has_room pc' = 0"
    using assms by (cases "(H, cs, pc, s)" rule: request_micro.cases)
      (auto simp: Let_def split: if_splits sum.splits run.splits option.splits)
  then show ?thesis by simp
qed

definition room_inv :: "pool_config \<Rightarrow> nat \<Rightarrow> requests \<Rightarrow> bool" where
  "room_inv cfg n q \<longleftrightarrow>
     (case q of (ts, given, s) \<Rightarrow> length ts = n \<and> pl_config (rs_pool s) = cfg \<and>
        pool_size (rs_pool s) + in_all has_room ts + 1 \<le> pc_max_size cfg + n)"

lemma has_room_le: "has_room pc \<le> 1"
  using admitted_le by (cases pc) auto

lemma room_inv_step:
  assumes "room_inv cfg n q" "requests_step H cs q q'"
  shows "room_inv cfg n q'"
  using assms(2)
proof (cases rule: requests_step.cases)
  case (runs i ts s pc s' given)
  have "in_all has_room (ts[i := pc]) \<le> n"
    using in_all_le [of has_room 1 "ts[i := pc]"] has_room_le assms(1) runs(1) by (simp add: room_inv_def)
  then show ?thesis
    using assms(1) request_size [OF runs(4)] in_all_update [OF runs(3), of has_room pc]
    by (auto simp: runs(1,2) room_inv_def)
next
  case (receives i ts r given s uo ep)
  then show ?thesis
    using assms(1) in_all_update [of i ts has_room "Received uo ep"] by (simp add: room_inv_def)
qed

lemma room_inv_reach:
  assumes "requests_reach H cs q q'" "room_inv cfg n q"
  shows "room_inv cfg n q'"
  using assms unfolding requests_reach_def
  by (induction rule: rtranclp_induct) (auto intro: room_inv_step)

lemma room_inv_start:
  assumes "list_all waiting ts" "ts \<noteq> []"
  shows "room_inv cfg (length ts) (ts, [], rpc_new (pool_new cfg) m)"
proof -
  have "has_room pc = 0" if "waiting pc" for pc using that by (cases pc) simp_all
  then have "in_all has_room ts = 0" using assms(1) by (induction ts) (simp_all add: in_all_def)
  moreover obtain n where "length ts = Suc n" using assms(2) by (cases ts) simp_all
  ultimately show ?thesis by (simp add: room_inv_def rpc_new_def pool_new_def pool_size_def hm_len_none)
qed

section \<open>Races\<close>

text \<open>A worker may run alone for a while.\<close>

lemma alone_reach:
  assumes "i < length ts" "request_alone H cs m (ts ! i, s) = (pc, s')"
  shows "\<exists>given'. requests_reach H cs (ts, given, s) (ts[i := pc], given', s')"
  using assms
proof (induction m arbitrary: ts given s)
  case 0
  then have "ts[i := pc] = ts" "s' = s" by auto
  then show ?case unfolding requests_reach_def by auto
next
  case (Suc m)
  obtain pc1 s1 where 1: "request_micro H cs (ts ! i) s = (pc1, s1)" by fastforce
  then have "request_alone H cs m (ts[i := pc1] ! i, s1) = (pc, s')" using Suc.prems by simp
  then obtain given' where "requests_reach H cs (ts[i := pc1], given @ answers (ts ! i) pc1, s1) (ts[i := pc], given', s')"
    using Suc.IH [of "ts[i := pc1]" s1] Suc.prems(1) by fastforce
  then show ?case
    using requests_step.runs [OF Suc.prems(1) 1] unfolding requests_reach_def
    by (meson converse_rtranclp_into_rtranclp)
qed

lemma alone_in_reach:
  assumes "i < length ts" "alone_in H cs k (ts ! i, s) (pc, s')"
  shows "\<exists>given'. requests_reach H cs (ts, given, s) (ts[i := pc], given', s')"
  using assms alone_reach unfolding alone_in_def by blast

lemma requests_reach_trans:
  "requests_reach H cs q q1 \<Longrightarrow> requests_reach H cs q1 q2 \<Longrightarrow> requests_reach H cs q q2"
  unfolding requests_reach_def by simp

text \<open>A server that has just started, and an operation it takes.\<close>

abbreviation fresh_rpc :: rpc_state where
  "fresh_rpc \<equiv> rpc_new (pool_new pool_config_default) rm_default"

definition takes :: "hashing \<Rightarrow> chain_spec \<Rightarrow> user_operation \<Rightarrow> address \<Rightarrow> b256 \<Rightarrow> bool" where
  "takes H cs uo ep h \<longleftrightarrow> fst (send_user_operation H cs uo ep fresh_rpc) = Returns (Inr h)"

lemma map_sum_Inr_iff: "map_sum f id x = Inr y \<longleftrightarrow> x = Inr y" "Inr y = map_sum f id x \<longleftrightarrow> x = Inr y"
  by (cases x; auto)+

lemma takesD:
  assumes "takes H cs user_op ep h"
  defines "uo \<equiv> set_context H ep (cs_id cs) user_op"
  shows "is_entry_point cs ep" "h = uo_hash H uo"
    "validate_static_fields cs uo = Inr ()" "validate_gas_price cs uo 0 = Inr ()"
    "validate_nonce (Some (pool_new pool_config_default)) uo = Inr ()"
proof -
  have b: "current_base_fee fresh_rpc = 0" by (simp add: current_base_fee_def rpc_new_def)
  obtain r s' where r: "send_user_operation H cs user_op ep fresh_rpc = (r, s')" by fastforce
  then have res: "r = Returns (Inr h)" using assms(1) by (simp add: takes_def)
  from r have "is_entry_point cs ep \<and>
      fst (validate_sync cs (Some (pool_new pool_config_default)) uo 0 rm_default) = Returns (Inr ()) \<and>
      fst (pool_add H uo 0 (pool_new pool_config_default)) = Inr h"
  proof (cases rule: send_cases)
    case (validated p')
    then show ?thesis using res by (simp add: b uo_def) (simp add: rpc_new_def map_sum_Inr_iff)
  qed (use res in simp)
  then show "is_entry_point cs ep" "h = uo_hash H uo" "validate_static_fields cs uo = Inr ()"
    "validate_gas_price cs uo 0 = Inr ()" "validate_nonce (Some (pool_new pool_config_default)) uo = Inr ()"
    by (auto simp: validate_sync_accepts pool_add_def add_checked_def Let_def split: option.splits if_splits)
qed

text \<open>An accepted operation still passes validation when another one was counted before it.\<close>

lemma validates_after_one:
  assumes "takes H cs uo2 ep h2"
    and m1_def: "m1 = record_seen_all (uo_entities uo1) rm_default"
  shows "\<exists>m2. validate_sync cs (Some (pool_new pool_config_default)) (set_context H ep (cs_id cs) uo2) 0 m1 =
    (Returns (Inr ()), m2)"
proof -
  have "only_seen m1" and seen: "unat (seen m1 a) \<le> 3" for a
  proof -
    have fresh: "rm_inv rm_default" "rm_config rm_default = reputation_config_default" "seen rm_default a = 0"
      "included rm_default a = 0" for a by (simp_all add: rm_default_def)
    then show "only_seen m1" by (simp add: only_seen_def m1_def record_seen_all_included)
    have "unat (of_nat (mentions uo1 a) :: u64) \<le> mentions uo1 a"
      by (simp add: unsigned_of_nat take_bit_eq_mod)
    then show "unat (seen m1 a) \<le> 3"
      using mentions_bounds(1) [of uo1 a]
      by (simp add: m1_def record_seen_all_seen [OF fresh(1)] fresh mentions_def [symmetric])
  qed
  have "rm_status m1 a = Ok" for a
    using only_seen_Ok [OF \<open>only_seen m1\<close>, of a] seen [of a] by simp
  then have "fst (validate_sync cs (Some (pool_new pool_config_default)) (set_context H ep (cs_id cs) uo2) 0 m1) = Returns (Inr ())"
    using takesD [OF assms(1)] by (simp add: validate_sync_accepts)
  then show ?thesis by (metis prod.collapse)
qed

text \<open>Both operations then enter the pool, whatever their sequence numbers are.\<close>

lemma both_enter:
  assumes "uo_id uo1 \<noteq> uo_id uo2" "uo_hash H uo1 \<noteq> uo_hash H uo2"
  shows "\<exists>p1 p2. pool_add H uo1 b (pool_new pool_config_default) = (Inr (uo_hash H uo1), p1) \<and>
    pool_add H uo2 b p1 = (Inr (uo_hash H uo2), p2) \<and> pe_id ` set_mset (entries_of p2) = {uo_id uo1, uo_id uo2}"
proof -
  let ?p0 = "pool_new pool_config_default"
  define p1 where "p1 = insert_new H uo1 b ?p0"
  have e0: "entries_of ?p0 = {#}" by (simp add: entries_of_def pool_new_def)
  have get0: "hm_get (pl_by_hash ?p0) h = None" "hm_get (pl_by_id ?p0) i = None" for h i
    by (simp_all add: pool_new_def)
  have cfg: "pc_max_ops_per_sender (pl_config ?p0) = 4" "pc_max_size (pl_config ?p0) = 4096"
    by (simp_all add: pool_new_def pool_config_default_def)
  have ops0: "sender_ops ?p0 a = 0" for a by (simp add: sender_ops_def e0)
  have size0: "pool_size ?p0 = 0" using pool_size_entries [of H ?p0] by (simp add: e0)
  have add1: "pool_add H uo1 b ?p0 = (Inr (uo_hash H uo1), p1)"
    by (simp add: pool_add_eq [OF pool_new_inv] add_checked_eq [OF pool_new_inv] get0 ops0 size0 cfg p1_def)
  have inv1: "pool_inv H p1" using pool_add_inv [of H ?p0 uo1 b] add1 by simp
  have e1: "entries_of p1 = {#new_entry H uo1 b ?p0#}"
    using insert_new_entries [of H ?p0 uo1 b] by (simp add: p1_def get0 e0)
  have get1: "hm_get (pl_by_hash p1) (uo_hash H uo2) = None" "hm_get (pl_by_id p1) (uo_id uo2) = None"
    using assms insert_new_get [of H ?p0 uo1 b] by (simp_all add: p1_def get0)
  have "sender_ops p1 a \<le> 1" for a by (simp add: sender_ops_def e1)
  then have "sender_ops p1 (uo_sender uo2) < 4" by (rule le_less_trans) simp
  moreover have "pool_size p1 = 1" using pool_size_entries [OF inv1] by (simp add: e1)
  moreover have "pl_config p1 = pl_config ?p0" by (simp add: p1_def)
  ultimately have add2: "pool_add H uo2 b p1 = (Inr (uo_hash H uo2), insert_new H uo2 b p1)"
    by (simp add: pool_add_eq [OF inv1] add_checked_eq [OF inv1] get1 cfg)
  have "entries_of (insert_new H uo2 b p1) = {#new_entry H uo2 b p1, new_entry H uo1 b ?p0#}"
    using insert_new_entries [OF inv1 get1(1)] by (simp add: e1)
  then show ?thesis using add1 add2 by auto
qed

text \<open>Two submissions validate one after the other before either reaches the pool.\<close>

lemma both_at_pool:
  assumes "takes H cs uo1 ep h1" "takes H cs uo2 ep h2"
  shows "\<exists>given m. requests_reach H cs ([Received uo1 ep, Received uo2 ep], [], fresh_rpc)
    ([InPool (set_context H ep (cs_id cs) uo1) (AddKnown (set_context H ep (cs_id cs) uo1) 0),
      InPool (set_context H ep (cs_id cs) uo2) (AddKnown (set_context H ep (cs_id cs) uo2) 0)], given,
     fresh_rpc\<lparr>rs_reputation := m\<rparr>)"
proof -
  let ?u1 = "set_context H ep (cs_id cs) uo1" and ?u2 = "set_context H ep (cs_id cs) uo2"
  define m1 where "m1 = record_seen_all (uo_entities ?u1) rm_default"
  have fresh: "rs_pool fresh_rpc = pool_new pool_config_default" "rs_reputation fresh_rpc = rm_default"
    "current_base_fee (fresh_rpc\<lparr>rs_reputation := m\<rparr>) = 0" "current_base_fee fresh_rpc = 0" for m
    by (simp_all add: rpc_new_def current_base_fee_def)
  note t1 = takesD [OF assms(1)] and t2 = takesD [OF assms(2)]
  have "fst (validate_sync cs (Some (pool_new pool_config_default)) ?u1 0 rm_default) = Returns (Inr ())"
    using t1 by (simp add: validate_sync_accepts rm_default_def)
  then have v1: "validate_sync cs (Some (pool_new pool_config_default)) ?u1 0 rm_default = (Returns (Inr ()), m1)"
    using validate_sync_manager [of cs "Some (pool_new pool_config_default)" ?u1 0 rm_default]
    by (metis m1_def prod.collapse)
  obtain m2 where v2: "validate_sync cs (Some (pool_new pool_config_default)) ?u2 0 m1 = (Returns (Inr ()), m2)"
    using validates_after_one [OF assms(2) m1_def] by blast
  let ?s1 = "fresh_rpc\<lparr>rs_reputation := m1\<rparr>" and ?s2 = "fresh_rpc\<lparr>rs_reputation := m2\<rparr>"
  have a1: "alone_in H cs 9 (Received uo1 ep, fresh_rpc) (InPool ?u1 (AddKnown ?u1 0), ?s1)"
    using alone_validation [OF t1(1), of H uo1 fresh_rpc] v1 by (simp add: Let_def fresh)
  have a2: "alone_in H cs 9 (Received uo2 ep, ?s1) (InPool ?u2 (AddKnown ?u2 0), ?s2)"
    using alone_validation [OF t2(1), of H uo2 ?s1] v2 by (simp add: Let_def fresh)
  obtain g1 where "requests_reach H cs ([Received uo1 ep, Received uo2 ep], [], fresh_rpc) ([InPool ?u1 (AddKnown ?u1 0), Received uo2 ep], g1, ?s1)"
    using alone_in_reach [of 0 "[Received uo1 ep, Received uo2 ep]" H cs 9] a1 by fastforce
  moreover obtain g2 where "requests_reach H cs ([InPool ?u1 (AddKnown ?u1 0), Received uo2 ep], g1, ?s1) ([InPool ?u1 (AddKnown ?u1 0), InPool ?u2 (AddKnown ?u2 0)], g2, ?s2)"
    using alone_in_reach [of 1 "[InPool ?u1 (AddKnown ?u1 0), Received uo2 ep]" H cs 9] a2 by fastforce
  ultimately show ?thesis using requests_reach_trans by blast
qed

text \<open>What it takes for a fresh server to take an operation.\<close>

lemma takesI:
  assumes "is_entry_point cs ep" "validate_static_fields cs (set_context H ep (cs_id cs) uo) = Inr ()"
    and "validate_gas_price cs (set_context H ep (cs_id cs) uo) 0 = Inr ()"
  shows "takes H cs uo ep (uo_hash H (set_context H ep (cs_id cs) uo))"
proof -
  let ?u = "set_context H ep (cs_id cs) uo" and ?p = "pool_new pool_config_default"
  have fresh: "rs_pool fresh_rpc = ?p" "rs_reputation fresh_rpc = rm_default" "current_base_fee fresh_rpc = 0"
    by (simp_all add: rpc_new_def current_base_fee_def)
  have "validate_nonce (Some ?p) ?u = Inr ()"
    by (simp add: validate_nonce_def get_by_id_def max_nonce_sequence_def pool_new_def hm_defs)
  then have "fst (validate_sync cs (Some ?p) ?u 0 rm_default) = Returns (Inr ())"
    using assms(2,3) by (simp add: validate_sync_accepts rm_default_def)
  then obtain m where "validate_sync cs (Some ?p) ?u 0 rm_default = (Returns (Inr ()), m)" by (metis prod.collapse)
  moreover obtain p where "pool_add H ?u 0 ?p = (Inr (uo_hash H ?u), p)"
    by (simp add: pool_add_def add_checked_def pool_size_def pool_new_def pool_config_default_def hm_defs Let_def)
  ultimately show ?thesis
    using assms(1) by (simp add: takes_def send_user_operation_def Let_def fresh)
qed

section \<open>Properties\<close>

text \<open>
  Claim C17.  A submission that is not interrupted is answered after at most twenty-three
  accesses to shared state.  If the entry point is not the supported one, or the operation is
  not admissible (static fields, fees, nonce rule, standing of its entities), it is refused as
  invalid and nothing changes.  Otherwise its entities are counted, and the answer and the
  pool are those of the abstract addition: its error, and the pool as it was, or the hash
  of the operation and the map with its entry.
\<close>

theorem submissions_alone_refine:
  assumes "rpc_inv H s"
  shows "let uo = set_context H ep (cs_id cs) user_op in
    \<exists>r s'. request_alone H cs 23 (Received user_op ep, s) = (Answered r, s') \<and> rpc_inv H s' \<and>
    (if is_entry_point cs ep \<and> admissible cs s uo
     then rs_reputation s' = record_seen_all (uo_entities uo) (rs_reputation s) \<and>
       (case abs_add H (pl_config (rs_pool s)) uo (new_entry H uo (current_base_fee s) (rs_pool s)) (abs_pool (rs_pool s)) of
          Inl err \<Rightarrow> r = Returns (Inl (RpcPool err)) \<and> rs_pool s' = rs_pool s
        | Inr m \<Rightarrow> r = Returns (Inr (uo_hash H uo)) \<and> abs_pool (rs_pool s') = m)
     else s' = s \<and> (\<exists>e. r = Returns (Inl (InvalidParams e))))"
proof -
  obtain r s' where send: "send_user_operation H cs user_op ep s = (r, s')" by fastforce
  have "request_alone H cs 23 (Received user_op ep, s) = (Answered r, s')"
    using alone_in_answered [OF alone_submission, of H cs user_op ep s] send by simp
  then show ?thesis
    unfolding Let_def using send_abs [OF assms send] send_inv [OF assms send] by blast
qed

theorem submissions_alone_refine_witness:
  "\<exists>r s'. request_alone sample_hashing chain_spec_mainnet 23 (Received mainnet_uo mainnet_entry_point, mainnet_rpc) =
     (Answered r, s') \<and> rpc_inv sample_hashing s'"
proof -
  have inv: "rpc_inv sample_hashing mainnet_rpc" by (simp add: mainnet_rpc_def rm_default_def)
  show ?thesis
    using submissions_alone_refine [OF inv, of mainnet_entry_point chain_spec_mainnet mainnet_uo]
    unfolding Let_def by blast
qed

text \<open>
  Claim C20.  However the lock-level steps of the submissions of \<open>n\<close> workers of a fresh server
  interleave, at most ten and \<open>n\<close> operations of one sender are accepted, the reputation
  manager stays consistent, and the pool holds at most \<open>n - 1\<close> operations more than its
  maximum.  The indexes of the pool need not stay consistent: see the racing additions.
\<close>

theorem concurrent_accept_bound:
  assumes "list_all waiting ts" "ts \<noteq> []" "length ts < 2 ^ 50"
    and "requests_reach H cs (ts, [], rpc_new (pool_new cfg) rm_default) (ts', given, s)"
  shows "accepted a given \<le> 10 + length ts \<and> rm_inv (rs_reputation s) \<and>
    pool_size (rs_pool s) \<le> pc_max_size cfg + (length ts - 1)"
proof -
  have "counts_inv (length ts) (ts', given, s)"
    using counts_inv_reach [OF assms(4) counts_inv_start [OF assms(1)] assms(3)] .
  then have "accepted a given + in_all (claimed a) ts' \<le> 10 + length ts" "rm_inv (rs_reputation s)"
    by (simp_all add: counts_inv_def only_seen_def)
  moreover have "room_inv cfg (length ts) (ts', given, s)"
    using room_inv_reach [OF assms(4) room_inv_start [OF assms(1,2)]] .
  then have "pool_size (rs_pool s) + 1 \<le> pc_max_size cfg + length ts" by (simp add: room_inv_def)
  moreover have "0 < length ts" using assms(2) by simp
  ultimately show ?thesis by simp
qed

theorem concurrent_accept_bound_witness:
  "\<exists>ts given s. requests_reach sample_hashing chain_spec_mainnet
      ([Received mainnet_uo mainnet_entry_point, Received mainnet_uo mainnet_entry_point], [],
       rpc_new (pool_new pool_config_default) rm_default) (ts, given, s) \<and>
    (\<exists>r. ts ! 0 = Answered r) \<and> accepted 1 given \<le> 12 \<and> pool_size (rs_pool s) \<le> 4097"
proof -
  let ?s = "rpc_new (pool_new pool_config_default) rm_default"
  let ?ts = "[Received mainnet_uo mainnet_entry_point, Received mainnet_uo mainnet_entry_point]"
  obtain r s where "send_user_operation sample_hashing chain_spec_mainnet mainnet_uo mainnet_entry_point ?s = (r, s)"
    by fastforce
  then have "alone_in sample_hashing chain_spec_mainnet 23 (?ts ! 0, ?s) (Answered r, s)"
    using alone_submission [of sample_hashing chain_spec_mainnet mainnet_uo mainnet_entry_point ?s] by simp
  then obtain given where reach: "requests_reach sample_hashing chain_spec_mainnet (?ts, [], ?s) (?ts[0 := Answered r], given, s)"
    using alone_in_reach [of 0 ?ts] by fastforce
  have "list_all waiting ?ts" "?ts \<noteq> []" "length ?ts < 2 ^ 50" "pc_max_size pool_config_default = 4096"
    by (simp_all add: pool_config_default_def)
  from concurrent_accept_bound [OF this(1-3) reach, of 1] this(4) reach show ?thesis by fastforce
qed

text \<open>
  Claim C24.  Validation and addition are not one step: two operations of one sender and nonce
  key, each acceptable to a fresh server, are both accepted when they race, whatever their
  sequence numbers are, so the pool can hold nonces with a gap that it refuses to build one
  at a time.
\<close>

theorem racing_submissions_skip_nonces:
  assumes "takes H cs uo1 ep h1" "takes H cs uo2 ep h2" "h1 \<noteq> h2"
    and "uo_sender uo1 = uo_sender uo2" "nonce_key (uo_id uo1) = nonce_key (uo_id uo2)"
    and "nonce_sequence (uo_id uo1) \<noteq> nonce_sequence (uo_id uo2)"
  shows "\<exists>given s. requests_reach H cs ([Received uo1 ep, Received uo2 ep], [], fresh_rpc)
      ([Answered (Returns (Inr h1)), Answered (Returns (Inr h2))], given, s) \<and>
    pool_sequences (rs_pool s) (uo_sender uo1) (nonce_key (uo_id uo1)) =
      {nonce_sequence (uo_id uo1), nonce_sequence (uo_id uo2)}"
proof -
  let ?u1 = "set_context H ep (cs_id cs) uo1" and ?u2 = "set_context H ep (cs_id cs) uo2"
  have ids: "uo_id ?u1 = uo_id uo1" "uo_id ?u2 = uo_id uo2" by (simp_all add: uo_id_def)
  have fresh: "rs_pool fresh_rpc = pool_new pool_config_default" by (simp add: rpc_new_def)
  note t1 = takesD [OF assms(1)] and t2 = takesD [OF assms(2)]
  obtain g2 m2 where 2: "requests_reach H cs ([Received uo1 ep, Received uo2 ep], [], fresh_rpc)
      ([InPool ?u1 (AddKnown ?u1 0), InPool ?u2 (AddKnown ?u2 0)], g2, fresh_rpc\<lparr>rs_reputation := m2\<rparr>)"
    using both_at_pool [OF assms(1,2)] by blast
  let ?s2 = "fresh_rpc\<lparr>rs_reputation := m2\<rparr>"
  have "uo_id ?u1 \<noteq> uo_id ?u2" unfolding ids using assms(6) by auto
  moreover have "uo_hash H ?u1 \<noteq> uo_hash H ?u2" using assms(3) unfolding t1(2) t2(2) .
  ultimately obtain p1 p2 where p: "pool_add H ?u1 0 (pool_new pool_config_default) = (Inr h1, p1)"
    "pool_add H ?u2 0 p1 = (Inr h2, p2)" "pe_id ` set_mset (entries_of p2) = {uo_id uo1, uo_id uo2}"
    using both_enter [of ?u1 ?u2 H 0] unfolding t1(2) t2(2) ids by blast
  have a3: "alone_in H cs 14 (InPool ?u1 (AddKnown ?u1 0), ?s2) (Answered (Returns (Inr h1)), ?s2\<lparr>rs_pool := p1\<rparr>)"
    by (rule alone_in_add) (simp add: fresh p(1))
  have a4: "alone_in H cs 14 (InPool ?u2 (AddKnown ?u2 0), ?s2\<lparr>rs_pool := p1\<rparr>) (Answered (Returns (Inr h2)), ?s2\<lparr>rs_pool := p1, rs_pool := p2\<rparr>)"
    by (rule alone_in_add) (simp add: p(2))
  obtain g3 where 3: "requests_reach H cs ([InPool ?u1 (AddKnown ?u1 0), InPool ?u2 (AddKnown ?u2 0)], g2, ?s2)
      ([Answered (Returns (Inr h1)), InPool ?u2 (AddKnown ?u2 0)], g3, ?s2\<lparr>rs_pool := p1\<rparr>)"
    using alone_in_reach [of 0 "[InPool ?u1 (AddKnown ?u1 0), InPool ?u2 (AddKnown ?u2 0)]" H cs 14] a3 by fastforce
  obtain g4 where 4: "requests_reach H cs ([Answered (Returns (Inr h1)), InPool ?u2 (AddKnown ?u2 0)], g3, ?s2\<lparr>rs_pool := p1\<rparr>)
      ([Answered (Returns (Inr h1)), Answered (Returns (Inr h2))], g4, ?s2\<lparr>rs_pool := p1, rs_pool := p2\<rparr>)"
    using alone_in_reach [of 1 "[Answered (Returns (Inr h1)), InPool ?u2 (AddKnown ?u2 0)]" H cs 14] a4 by fastforce
  have "pool_sequences p2 (uo_sender uo1) (nonce_key (uo_id uo1)) =
      {nonce_sequence i | i. i \<in> pe_id ` set_mset (entries_of p2) \<and> id_sender i = uo_sender uo1 \<and> nonce_key i = nonce_key (uo_id uo1)}"
    unfolding pool_sequences_def by blast
  also have "\<dots> = {nonce_sequence (uo_id uo1), nonce_sequence (uo_id uo2)}"
    unfolding p(3) using assms(4,5) by auto
  finally have seqs: "pool_sequences (rs_pool (?s2\<lparr>rs_pool := p1, rs_pool := p2\<rparr>)) (uo_sender uo1) (nonce_key (uo_id uo1)) =
      {nonce_sequence (uo_id uo1), nonce_sequence (uo_id uo2)}" by simp
  show ?thesis
    using requests_reach_trans [OF 2 requests_reach_trans [OF 3 4]] seqs by blast
qed

lemma sample_hash_nonce: "compute_hash sample_hashing u = uo_nonce u"
proof -
  have "from_be_bytes (to_be_bytes (uo_nonce u)) = uo_nonce u" by (rule be256.dec_enc)
  then show ?thesis
    by (simp add: compute_hash_def sample_hashing_def pack_def Let_def from_be_bytes_def)
qed

theorem racing_submissions_skip_nonces_witness:
  "\<exists>given s. requests_reach sample_hashing chain_spec_dev
      ([Received (sample_uo 1 5 30 11) 0, Received (sample_uo 1 9 30 11) 0], [], fresh_rpc)
      ([Answered (Returns (Inr 5)), Answered (Returns (Inr 9))], given, s) \<and>
    pool_sequences (rs_pool s) 1 0 = {5, 9}"
proof -
  have takes: "takes sample_hashing chain_spec_dev (sample_uo 1 n 30 11) 0 n" for n
  proof -
    have "is_entry_point chain_spec_dev 0" by (simp add: is_entry_point_def chain_spec_dev_def)
    moreover have "validate_static_fields chain_spec_dev (set_context sample_hashing 0 c (sample_uo 1 n 30 11)) = Inr ()"
      "validate_gas_price chain_spec_dev (set_context sample_hashing 0 c (sample_uo 1 n 30 11)) 0 = Inr ()" for c
      by (simp_all add: validate_static_ok static_ok_def validate_gas_price_ok covers_def uo_gas_fees_def
          chain_spec_dev_def sample_uo_def set_context_def Let_def)
    ultimately show ?thesis
      using takesI [of chain_spec_dev 0 sample_hashing "sample_uo 1 n 30 11"]
      by (simp add: sample_hash_nonce) (simp add: sample_uo_def)
  qed
  have "uo_sender (sample_uo 1 n 30 11) = 1" "nonce_sequence (uo_id (sample_uo 1 n 30 11)) = ucast n"
    "nonce_key (uo_id (sample_uo 1 n 30 11)) = drop_bit 64 n" for n
    by (simp_all add: sample_uo_def nonce_sequence_eq nonce_key_def)
  then show ?thesis
    using racing_submissions_skip_nonces [OF takes [of 5] takes [of 9]] by simp
qed

end
