(* ===== verification/Conflict.thy ===== *)
theory Conflict
  imports Hash_Map
begin

text \<open>
  \<open>crates/builder/src/conflict.rs\<close>: the storage accesses of an operation and the detector
  that reports which earlier operations of a bundle a new one conflicts with.
\<close>

section \<open>State and operations\<close>

datatype access_type = Read | Write

type_synonym slot = "address \<times> b256"

record storage_access =
  sa_slots :: "(slot, access_type) hmap"

definition storage_access_default :: storage_access where
  "storage_access_default = \<lparr>sa_slots = hm_empty\<rparr>"

definition record_read :: "address \<Rightarrow> b256 \<Rightarrow> storage_access \<Rightarrow> storage_access" where
  "record_read a s acc = acc\<lparr>sa_slots := hm_upsert (a, s) Read id (sa_slots acc)\<rparr>"

definition record_write :: "address \<Rightarrow> b256 \<Rightarrow> storage_access \<Rightarrow> storage_access" where
  "record_write a s acc = acc\<lparr>sa_slots := hm_insert (a, s) Write (sa_slots acc)\<rparr>"

definition accessed_slots :: "storage_access \<Rightarrow> (slot \<times> access_type) list" where
  "accessed_slots acc = hm_entries (sa_slots acc)"

definition written_slots :: "storage_access \<Rightarrow> slot list" where
  "written_slots acc = map fst (filter (\<lambda>(_, access). access = Write) (hm_entries (sa_slots acc)))"

record conflict_detector =
  cd_accessed :: "(slot, nat list) hmap"
  cd_written :: "(slot, nat) hmap"
  cd_senders :: "address list"

definition detector_new :: conflict_detector where
  "detector_new = \<lparr>cd_accessed = hm_empty, cd_written = hm_empty, cd_senders = []\<rparr>"

text \<open>\<open>self.senders[idx] != sender\<close>, a panic when the index is out of bounds.\<close>

definition foreign :: "conflict_detector \<Rightarrow> address \<Rightarrow> nat \<Rightarrow> bool run" where
  "foreign d snd_addr idx =
     (if idx < length (cd_senders d) then Returns (cd_senders d ! idx \<noteq> snd_addr) else Panics)"

fun check_indices :: "conflict_detector \<Rightarrow> address \<Rightarrow> nat list \<Rightarrow> nat set \<Rightarrow> nat set run" where
  "check_indices d a [] conflicts = Returns conflicts"
| "check_indices d a (idx # ids) conflicts =
     (case foreign d a idx of
        Panics \<Rightarrow> Panics
      | Returns True \<Rightarrow> check_indices d a ids (insert idx conflicts)
      | Returns False \<Rightarrow> check_indices d a ids conflicts)"

fun check_slots ::
  "conflict_detector \<Rightarrow> address \<Rightarrow> (slot \<times> access_type) list \<Rightarrow> nat set \<Rightarrow> nat set run" where
  "check_slots d a [] conflicts = Returns conflicts"
| "check_slots d a ((key, Write) # rest) conflicts =
     (case hm_get (cd_accessed d) key of
        None \<Rightarrow> check_slots d a rest conflicts
      | Some ids \<Rightarrow>
          (case check_indices d a ids conflicts of
             Panics \<Rightarrow> Panics
           | Returns conflicts' \<Rightarrow> check_slots d a rest conflicts'))"
| "check_slots d a ((key, Read) # rest) conflicts =
     (case hm_get (cd_written d) key of
        None \<Rightarrow> check_slots d a rest conflicts
      | Some writer_idx \<Rightarrow>
          (case foreign d a writer_idx of
             Panics \<Rightarrow> Panics
           | Returns True \<Rightarrow> check_slots d a rest (insert writer_idx conflicts)
           | Returns False \<Rightarrow> check_slots d a rest conflicts))"

definition check_conflicts :: "conflict_detector \<Rightarrow> address \<Rightarrow> storage_access \<Rightarrow> nat set run" where
  "check_conflicts d a acc = check_slots d a (accessed_slots acc) {}"

definition add_slot :: "nat \<Rightarrow> slot \<times> access_type \<Rightarrow> conflict_detector \<Rightarrow> conflict_detector" where
  "add_slot idx kt d =
     d\<lparr>cd_accessed := hm_upsert (fst kt) [] (\<lambda>ids. ids @ [idx]) (cd_accessed d),
       cd_written :=
         (if snd kt = Write then hm_insert (fst kt) idx (cd_written d) else cd_written d)\<rparr>"

definition add_operation ::
  "address \<Rightarrow> storage_access \<Rightarrow> conflict_detector \<Rightarrow> nat \<times> conflict_detector" where
  "add_operation a acc d =
     (let idx = length (cd_senders d);
          d' = d\<lparr>cd_senders := cd_senders d @ [a]\<rparr>
      in (idx, fold (add_slot idx) (accessed_slots acc) d'))"

definition detector_reset :: "conflict_detector \<Rightarrow> conflict_detector" where
  "detector_reset d = d\<lparr>cd_accessed := hm_empty, cd_written := hm_empty, cd_senders := []\<rparr>"

section \<open>The abstract bundle\<close>

text \<open>
  The detector stands for the list of operations added so far, each with its sender and
  its access map.  \<open>rep ops d\<close> says what the three containers hold for that list.
\<close>

type_synonym operation = "address \<times> (slot \<Rightarrow> access_type option)"

definition access_of :: "storage_access \<Rightarrow> slot \<Rightarrow> access_type option" where
  "access_of acc = hm_get (sa_slots acc)"

definition accessors :: "operation list \<Rightarrow> slot \<Rightarrow> nat list" where
  "accessors ops k = filter (\<lambda>i. snd (ops ! i) k \<noteq> None) [0..<length ops]"

definition writers :: "operation list \<Rightarrow> slot \<Rightarrow> nat list" where
  "writers ops k = filter (\<lambda>i. snd (ops ! i) k = Some Write) [0..<length ops]"

definition last_opt :: "'a list \<Rightarrow> 'a option" where
  "last_opt xs = (if xs = [] then None else Some (last xs))"

definition list_opt :: "'a list \<Rightarrow> 'a list option" where
  "list_opt xs = (if xs = [] then None else Some xs)"

definition rep :: "operation list \<Rightarrow> conflict_detector \<Rightarrow> bool" where
  "rep ops d \<longleftrightarrow>
     hm_inv (cd_accessed d) \<and> hm_inv (cd_written d) \<and> cd_senders d = map fst ops \<and>
     (\<forall>k. hm_get (cd_accessed d) k = list_opt (accessors ops k)) \<and>
     (\<forall>k. hm_get (cd_written d) k = last_opt (writers ops k))"

lemma access_record:
  assumes "hm_inv (sa_slots acc)"
  shows "access_of (record_read a s acc) =
      (access_of acc)((a, s) \<mapsto> (case access_of acc (a, s) of None \<Rightarrow> Read | Some t \<Rightarrow> t))"
    and "access_of (record_write a s acc) = (access_of acc)((a, s) \<mapsto> Write)"
    and "hm_inv (sa_slots (record_read a s acc))" "hm_inv (sa_slots (record_write a s acc))"
  using assms by (simp_all add: access_of_def record_read_def record_write_def hm_get_upsert)

lemma accessed_slots_facts:
  assumes "hm_inv (sa_slots acc)"
  shows "map_of (accessed_slots acc) = access_of acc" "distinct (map fst (accessed_slots acc))"
    "set (accessed_slots acc) = {(k, t). access_of acc k = Some t}"
  using assms by (simp_all add: accessed_slots_def access_of_def hm.entries_get hm.entries_distinct
      hm.set_entries)

lemma indices_snoc:
  "accessors (ops @ [p]) k = accessors ops k @ (if snd p k = None then [] else [length ops])"
  "writers (ops @ [p]) k = writers ops k @ (if snd p k = Some Write then [length ops] else [])"
  by (auto simp: accessors_def writers_def nth_append intro!: filter_cong)

lemma rep_new: "rep [] detector_new"
  by (simp add: rep_def detector_new_def accessors_def writers_def list_opt_def last_opt_def)

lemma fold_add_slot:
  assumes "distinct (map fst sl)" "hm_inv (cd_accessed d)" "hm_inv (cd_written d)"
  shows "hm_inv (cd_accessed (fold (add_slot idx) sl d)) \<and>
    hm_inv (cd_written (fold (add_slot idx) sl d)) \<and>
    cd_senders (fold (add_slot idx) sl d) = cd_senders d \<and>
    hm_get (cd_accessed (fold (add_slot idx) sl d)) k =
      (if map_of sl k = None then hm_get (cd_accessed d) k
       else Some ((case hm_get (cd_accessed d) k of None \<Rightarrow> [] | Some ids \<Rightarrow> ids) @ [idx])) \<and>
    hm_get (cd_written (fold (add_slot idx) sl d)) k =
      (if map_of sl k = Some Write then Some idx else hm_get (cd_written d) k)"
  using assms
proof (induction sl arbitrary: d)
  case (Cons kt sl)
  obtain k' t where kt: "kt = (k', t)" by (cases kt)
  have fresh: "map_of sl k' = None" using Cons.prems(1) by (simp add: kt map_of_eq_None_iff)
  have d1: "hm_inv (cd_accessed (add_slot idx kt d))" "hm_inv (cd_written (add_slot idx kt d))"
    using Cons.prems by (simp_all add: add_slot_def)
  have dist: "distinct (map fst sl)" using Cons.prems(1) by simp
  show ?case
    using Cons.IH [OF dist d1] Cons.prems(2,3) fresh
    by (cases "k = k'"; cases t)
      (simp_all add: kt add_slot_def hm_get_upsert del: map_of_eq_Some_iff)
qed simp

lemma rep_add:
  assumes "rep ops d" "hm_inv (sa_slots acc)"
  shows "rep (ops @ [(a, access_of acc)]) (snd (add_operation a acc d))"
    and "fst (add_operation a acc d) = length ops"
proof -
  let ?d = "d\<lparr>cd_senders := cd_senders d @ [a]\<rparr>"
  have inv: "hm_inv (cd_accessed ?d)" "hm_inv (cd_written ?d)" and n: "length (cd_senders d) = length ops"
    using assms(1) by (simp_all add: rep_def)
  note F = fold_add_slot [OF accessed_slots_facts(2) [OF assms(2)] inv]
  show "rep (ops @ [(a, access_of acc)]) (snd (add_operation a acc d))"
    using F assms(1)
    by (simp add: rep_def add_operation_def Let_def n accessed_slots_facts(1) [OF assms(2)]
        indices_snoc list_opt_def last_opt_def)
  show "fst (add_operation a acc d) = length ops" by (simp add: add_operation_def Let_def n)
qed

lemma repD:
  assumes "rep ops d"
  shows "hm_get (cd_accessed d) k = list_opt (accessors ops k)"
    "hm_get (cd_written d) k = last_opt (writers ops k)" "cd_senders d = map fst ops"
  using assms unfolding rep_def by blast+

section \<open>What a check reports\<close>

definition slot_conflicts :: "operation list \<Rightarrow> address \<Rightarrow> slot \<times> access_type \<Rightarrow> nat set" where
  "slot_conflicts ops a kt =
     {i. fst (ops ! i) \<noteq> a \<and>
         (if snd kt = Write then i \<in> set (accessors ops (fst kt))
          else last_opt (writers ops (fst kt)) = Some i)}"

lemma foreign_rep:
  "rep ops d \<Longrightarrow> i < length ops \<Longrightarrow> foreign d a i = Returns (fst (ops ! i) \<noteq> a)"
  by (simp add: foreign_def rep_def)

lemma check_indices_rep:
  "rep ops d \<Longrightarrow> \<forall>i\<in>set ids. i < length ops \<Longrightarrow>
   check_indices d a ids C = Returns (C \<union> {i \<in> set ids. fst (ops ! i) \<noteq> a})"
  by (induction ids arbitrary: C) (auto simp: foreign_rep split: bool.split)

lemma writers_bound: "last_opt (writers ops k) = Some i \<Longrightarrow> i < length ops"
  by (auto simp: last_opt_def writers_def split: if_splits dest!: last_in_set)

lemma check_slots_rep:
  assumes "rep ops d"
  shows "check_slots d a sl C = Returns (C \<union> (\<Union>kt\<in>set sl. slot_conflicts ops a kt))"
proof (induction sl arbitrary: C)
  case (Cons kt sl)
  obtain k t where kt: "kt = (k, t)" by (cases kt)
  show ?case
  proof (cases t)
    case Write
    have bound: "\<forall>i\<in>set (accessors ops k). i < length ops" by (simp add: accessors_def)
    note get = repD(1) [OF assms, of k]
    show ?thesis
    proof (cases "accessors ops k = []")
      case True
      then show ?thesis
        using Cons.IH get by (simp add: kt Write list_opt_def slot_conflicts_def)
    next
      case False
      then show ?thesis
        using Cons.IH get check_indices_rep [OF assms bound]
        by (simp add: kt Write list_opt_def slot_conflicts_def) blast
    qed
  next
    case Read
    show ?thesis
    proof (cases "last_opt (writers ops k)")
      case None
      then have "hm_get (cd_written d) k = None" by (simp add: repD(2) [OF assms])
      then show ?thesis using Cons.IH by (simp add: kt Read slot_conflicts_def None)
    next
      case (Some i)
      then have "hm_get (cd_written d) k = Some i" by (simp add: repD(2) [OF assms])
      then show ?thesis
        using Cons.IH foreign_rep [OF assms writers_bound [OF Some]] Some
        by (cases "fst (ops ! i) = a") (auto simp: kt Read slot_conflicts_def)
    qed
  qed
qed simp

text \<open>The last writer of a slot is the one after which nobody writes it.\<close>

lemma last_writer_iff:
  "last_opt (writers ops k) = Some i \<longleftrightarrow>
     i < length ops \<and> snd (ops ! i) k = Some Write \<and>
     (\<forall>j<length ops. i < j \<longrightarrow> snd (ops ! j) k \<noteq> Some Write)"
proof (induction ops rule: rev_induct)
  case Nil
  then show ?case by (simp add: writers_def last_opt_def)
next
  case (snoc p ops)
  show ?case
  proof (cases "snd p k = Some Write")
    case True
    then show ?thesis
      by (auto simp: indices_snoc last_opt_def nth_append less_Suc_eq)
  next
    case False
    then show ?thesis
      using snoc by (auto simp: indices_snoc nth_append less_Suc_eq)
  qed
qed

section \<open>Properties\<close>

definition detector_run :: "(address \<times> storage_access) list \<Rightarrow> conflict_detector" where
  "detector_run adds = foldl (\<lambda>d (a, acc). snd (add_operation a acc d)) detector_new adds"

definition ops_of :: "(address \<times> storage_access) list \<Rightarrow> operation list" where
  "ops_of adds = map (map_prod id access_of) adds"

definition valid_accesses :: "(address \<times> storage_access) list \<Rightarrow> bool" where
  "valid_accesses adds \<longleftrightarrow> (\<forall>p\<in>set adds. hm_inv (sa_slots (snd p)))"

lemma ops_of_simps [simp]:
  "ops_of [] = []" "ops_of (xs @ [p]) = ops_of xs @ [(fst p, access_of (snd p))]"
  "length (ops_of xs) = length xs"
  "i < length xs \<Longrightarrow> ops_of xs ! i = (fst (xs ! i), access_of (snd (xs ! i)))"
  by (simp_all add: ops_of_def map_prod_def split: prod.split)

lemma detector_run_rep: "valid_accesses adds \<Longrightarrow> rep (ops_of adds) (detector_run adds)"
proof (induction adds rule: rev_induct)
  case Nil
  then show ?case by (simp add: detector_run_def rep_new)
next
  case (snoc p adds)
  then have "rep (ops_of adds) (detector_run adds)" "hm_inv (sa_slots (snd p))"
    by (simp_all add: valid_accesses_def)
  from rep_add(1) [OF this, of "fst p"] show ?case
    by (simp add: detector_run_def split_beta)
qed

text \<open>The storage conflict of two accesses: one writes a slot the other accesses.\<close>

definition conflicting :: "storage_access \<Rightarrow> storage_access \<Rightarrow> bool" where
  "conflicting x y \<longleftrightarrow>
     (\<exists>k. access_of x k = Some Write \<and> access_of y k \<noteq> None \<or>
          access_of x k \<noteq> None \<and> access_of y k = Some Write)"

definition reported_at ::
  "(address \<times> storage_access) list \<Rightarrow> storage_access \<Rightarrow> nat \<Rightarrow> slot \<Rightarrow> bool" where
  "reported_at adds acc i k \<longleftrightarrow>
     access_of acc k = Some Write \<and> access_of (snd (adds ! i)) k \<noteq> None \<or>
     access_of acc k = Some Read \<and> access_of (snd (adds ! i)) k = Some Write \<and>
       (\<forall>j<length adds. i < j \<longrightarrow> access_of (snd (adds ! j)) k \<noteq> Some Write)"

lemma check_conflicts_run:
  assumes "valid_accesses adds" "hm_inv (sa_slots acc)"
  shows "check_conflicts (detector_run adds) a acc =
    Returns {i. i < length adds \<and> fst (adds ! i) \<noteq> a \<and> (\<exists>k. reported_at adds acc i k)}"
proof -
  let ?ops = "ops_of adds"
  have mem: "i \<in> slot_conflicts ?ops a (k, t) \<longleftrightarrow> i < length adds \<and> fst (adds ! i) \<noteq> a \<and>
      (if t = Write then access_of (snd (adds ! i)) k \<noteq> None
       else access_of (snd (adds ! i)) k = Some Write \<and>
         (\<forall>j<length adds. i < j \<longrightarrow> access_of (snd (adds ! j)) k \<noteq> Some Write))" for i k t
    by (auto simp: slot_conflicts_def last_writer_iff accessors_def)
  have at: "(\<exists>t. access_of acc k = Some t \<and> i \<in> slot_conflicts ?ops a (k, t)) \<longleftrightarrow>
      i < length adds \<and> fst (adds ! i) \<noteq> a \<and> reported_at adds acc i k" for i k
  proof (cases "access_of acc k")
    case None
    then show ?thesis by (simp add: reported_at_def)
  next
    case (Some t)
    then show ?thesis by (cases t) (auto simp: reported_at_def mem)
  qed
  have "(\<Union>kt\<in>set (accessed_slots acc). slot_conflicts ?ops a kt) =
      {i. \<exists>k t. access_of acc k = Some t \<and> i \<in> slot_conflicts ?ops a (k, t)}"
    unfolding accessed_slots_facts(3) [OF assms(2)] by auto
  also have "\<dots> = {i. i < length adds \<and> fst (adds ! i) \<noteq> a \<and> (\<exists>k. reported_at adds acc i k)}"
    unfolding at by blast
  finally show ?thesis
    using check_slots_rep [OF detector_run_rep [OF assms(1)], of a "accessed_slots acc" "{}"]
    by (simp add: check_conflicts_def)
qed

text \<open>
  Claim C31.  The detector never indexes out of bounds, and it reports exactly the earlier
  operations of other senders that accessed a slot the new operation writes, or that were
  the last to write a slot it reads.
\<close>

theorem check_conflicts_exact:
  assumes "valid_accesses adds" "hm_inv (sa_slots acc)"
  shows "check_conflicts (detector_run adds) a acc =
    Returns {i. i < length adds \<and> fst (adds ! i) \<noteq> a \<and>
      (\<exists>k. access_of acc k = Some Write \<and> access_of (snd (adds ! i)) k \<noteq> None \<or>
           access_of acc k = Some Read \<and> access_of (snd (adds ! i)) k = Some Write \<and>
           (\<forall>j<length adds. i < j \<longrightarrow> access_of (snd (adds ! j)) k \<noteq> Some Write))}"
  using check_conflicts_run [OF assms] unfolding reported_at_def .

theorem check_conflicts_exact_witness:
  "check_conflicts (detector_run [(1, record_write 9 0 storage_access_default)]) 2
     (record_read 9 0 storage_access_default) = Returns {0}"
proof -
  have inv: "hm_inv (sa_slots storage_access_default)" and acc: "access_of storage_access_default = (\<lambda>_. None)"
    by (simp_all add: storage_access_default_def access_of_def fun_eq_iff)
  show ?thesis
    using check_conflicts_exact [of "[(1, record_write 9 0 storage_access_default)]"
        "record_read 9 0 storage_access_default" 2]
    by (auto simp: valid_accesses_def access_record [OF inv] inv acc)
qed

text \<open>
  A bundle built with the detector: an operation is taken when the check against the ones
  already taken reports nothing.
\<close>

definition admit ::
  "(address \<times> storage_access) list \<times> conflict_detector \<Rightarrow> address \<times> storage_access \<Rightarrow>
   (address \<times> storage_access) list \<times> conflict_detector" where
  "admit kd p =
     (if check_conflicts (snd kd) (fst p) (snd p) = Returns {}
      then (fst kd @ [p], snd (add_operation (fst p) (snd p) (snd kd))) else kd)"

definition conflict_free :: "(address \<times> storage_access) list \<Rightarrow> bool" where
  "conflict_free ops \<longleftrightarrow>
     (\<forall>j<length ops. \<forall>i<j. fst (ops ! i) \<noteq> fst (ops ! j) \<longrightarrow> \<not> conflicting (snd (ops ! i)) (snd (ops ! j)))"

lemma check_empty_iff:
  assumes "valid_accesses ops" "conflict_free ops" "hm_inv (sa_slots acc)"
  shows "check_conflicts (detector_run ops) a acc = Returns {} \<longleftrightarrow>
    (\<forall>i<length ops. fst (ops ! i) \<noteq> a \<longrightarrow> \<not> conflicting (snd (ops ! i)) acc)"
proof -
  have run: "check_conflicts (detector_run ops) a acc = Returns {} \<longleftrightarrow>
      (\<forall>i<length ops. fst (ops ! i) \<noteq> a \<longrightarrow> (\<forall>k. \<not> reported_at ops acc i k))"
    unfolding check_conflicts_run [OF assms(1,3)] by blast
  have "\<exists>i k. i < length ops \<and> fst (ops ! i) \<noteq> a \<and> reported_at ops acc i k"
    if i: "i < length ops" "fst (ops ! i) \<noteq> a" "conflicting (snd (ops ! i)) acc" for i
  proof -
    obtain k where k: "access_of (snd (ops ! i)) k = Some Write \<and> access_of acc k \<noteq> None \<or>
        access_of (snd (ops ! i)) k \<noteq> None \<and> access_of acc k = Some Write"
      using i(3) unfolding conflicting_def by blast
    show ?thesis
    proof (cases "access_of acc k = Some Write")
      case True
      then have "reported_at ops acc i k" using k by (auto simp: reported_at_def)
      then show ?thesis using i by blast
    next
      case False
      then have read: "access_of acc k = Some Read" and w: "access_of (snd (ops ! i)) k = Some Write"
        using k by (auto, metis access_type.exhaust)
      define W where "W = {j. j < length ops \<and> access_of (snd (ops ! j)) k = Some Write}"
      have W: "finite W" "i \<in> W" using i w by (auto simp: W_def)
      define m where "m = Max W"
      have m: "m \<in> W" "i \<le> m" using W Max_in by (auto simp: m_def)
      have last: "\<forall>j<length ops. m < j \<longrightarrow> access_of (snd (ops ! j)) k \<noteq> Some Write"
      proof (intro allI impI notI)
        fix j assume j: "j < length ops" "m < j" "access_of (snd (ops ! j)) k = Some Write"
        then have "j \<le> m" using W(1) by (simp add: m_def W_def)
        with j show False by simp
      qed
      have "fst (ops ! m) = fst (ops ! i)"
      proof (rule ccontr)
        assume ne: "fst (ops ! m) \<noteq> fst (ops ! i)"
        then have "i < m" using m(2) by (cases "i = m") auto
        moreover have "conflicting (snd (ops ! i)) (snd (ops ! m))"
          using w m(1) unfolding conflicting_def W_def by blast
        ultimately show False
          using assms(2) ne m(1) by (auto simp: conflict_free_def W_def)
      qed
      moreover have "reported_at ops acc m k"
        using m(1) last read by (simp add: reported_at_def W_def)
      moreover have "m < length ops" using m(1) by (simp add: W_def)
      ultimately show ?thesis using i(2) by (intro exI [of _ m] exI [of _ k]) simp
    qed
  qed
  moreover have "conflicting (snd (ops ! i)) acc" if "reported_at ops acc i k" for i k
    using that unfolding reported_at_def conflicting_def by (intro exI [of _ k]) auto
  ultimately show ?thesis unfolding run by blast
qed

lemma conflict_free_snoc:
  assumes "conflict_free ops"
    and "\<forall>i<length ops. fst (ops ! i) \<noteq> a \<longrightarrow> \<not> conflicting (snd (ops ! i)) acc"
  shows "conflict_free (ops @ [(a, acc)])"
  using assms by (auto simp: conflict_free_def nth_append less_Suc_eq)

lemma admit_run:
  assumes "valid_accesses cands"
  shows "let (kept, d) = foldl admit ([], detector_new) cands in
    d = detector_run kept \<and> valid_accesses kept \<and> conflict_free kept \<and> set kept \<subseteq> set cands"
  using assms
proof (induction cands rule: rev_induct)
  case Nil
  then show ?case by (simp add: detector_run_def valid_accesses_def conflict_free_def)
next
  case (snoc p cands)
  obtain kept d where r: "foldl admit ([], detector_new) cands = (kept, d)" by fastforce
  then have IH: "d = detector_run kept" "valid_accesses kept" "conflict_free kept" "set kept \<subseteq> set cands"
    and p: "hm_inv (sa_slots (snd p))"
    using snoc by (auto simp: valid_accesses_def)
  have d': "snd (add_operation (fst p) (snd p) d) = detector_run (kept @ [p])"
    by (simp add: IH(1) detector_run_def split_beta)
  have "conflict_free (kept @ [p])" if "check_conflicts d (fst p) (snd p) = Returns {}"
    using that check_empty_iff [OF IH(2,3) p, of "fst p"] conflict_free_snoc [OF IH(3), of "fst p" "snd p"]
    by (simp add: IH(1))
  moreover have "valid_accesses (kept @ [p])"
    using IH(2) p by (simp add: valid_accesses_def)
  ultimately show ?case
    using IH d' by (auto simp: r admit_def [of "(kept, detector_run kept)" p])
qed

text \<open>
  Claim C39.  Used as an admission filter the detector is sound and complete: the operations
  it lets in are pairwise free of conflicts between different senders, and it reports
  nothing for a further operation exactly when that operation conflicts with none of them.
\<close>

theorem admission_conflict_free:
  assumes "valid_accesses cands" "hm_inv (sa_slots acc)"
  shows "let (kept, d) = foldl admit ([], detector_new) cands in
    conflict_free kept \<and>
    (check_conflicts d a acc = Returns {} \<longleftrightarrow>
       (\<forall>i<length kept. fst (kept ! i) \<noteq> a \<longrightarrow> \<not> conflicting (snd (kept ! i)) acc))"
  using admit_run [OF assms(1)] check_empty_iff [OF _ _ assms(2), of _ a] by (auto simp: Let_def)

theorem admission_conflict_free_witness:
  "let (kept, d) = foldl admit ([], detector_new)
      [(1, record_write 9 0 storage_access_default), (2, record_write 9 0 storage_access_default)] in
    conflict_free kept \<and>
    (check_conflicts d 3 (record_read 9 0 storage_access_default) = Returns {} \<longleftrightarrow>
       (\<forall>i<length kept. fst (kept ! i) \<noteq> 3 \<longrightarrow>
          \<not> conflicting (snd (kept ! i)) (record_read 9 0 storage_access_default)))"
  by (rule admission_conflict_free)
    (simp_all add: valid_accesses_def storage_access_default_def access_record)

text \<open>
  The map of writers keeps only the last writer of a slot: outside a
  conflict-free bundle a read that conflicts with an earlier writer is missed when a later
  operation of the reader's own sender has written the slot too.
\<close>

theorem overwritten_writer_missed:
  "let wr = record_write 9 0 storage_access_default;
       rd = record_read 9 0 storage_access_default;
       d = detector_run [(1, wr), (2, wr)]
   in conflicting wr rd \<and> check_conflicts d 2 rd = Returns {} \<and> check_conflicts d 2 wr = Returns {0}"
proof -
  have inv: "hm_inv (sa_slots storage_access_default)" and acc: "access_of storage_access_default = (\<lambda>_. None)"
    by (simp_all add: storage_access_default_def access_of_def fun_eq_iff)
  have "conflicting (record_write 9 0 storage_access_default) (record_read 9 0 storage_access_default)"
    by (auto simp: conflicting_def access_record [OF inv] acc)
  then show ?thesis
    by (simp add: detector_run_def add_operation_def check_conflicts_def add_slot_def Let_def foreign_def
        accessed_slots_def record_write_def record_read_def storage_access_default_def detector_new_def hm_defs)
qed

end
