(* ===== verification/Conformance.thy ===== *)
theory Conformance
  imports Conflict Strategy Validation
begin

text \<open>
  The unit tests of the repository, run on the model: the test modules of
  \<open>crates/types/src/user_operation/v0_7.rs\<close>, \<open>crates/pool/src/reputation.rs\<close>, \<open>pool.rs\<close> and
  \<open>validation.rs\<close>, \<open>crates/builder/src/conflict.rs\<close> and \<open>strategy/router.rs\<close>.  A test is a
  Boolean: false where the test would fail an assertion or unwrap an error.  The hash function
  is a parameter of the tests that build operations.
\<close>

section \<open>Fixtures\<close>

text \<open>\<open>repeat_byte\<close> of addresses and of hashes.\<close>

definition repeat_byte :: "nat \<Rightarrow> u8 \<Rightarrow> 'a::len word" where
  "repeat_byte n b = from_be_bytes (replicate n b)"

abbreviation addr_byte :: "u8 \<Rightarrow> address" where
  "addr_byte \<equiv> repeat_byte 20"

abbreviation hash_byte :: "u8 \<Rightarrow> b256" where
  "hash_byte \<equiv> repeat_byte 32"

definition is_ok :: "'e + 'a \<Rightarrow> bool" where
  "is_ok r \<longleftrightarrow> (case r of Inr _ \<Rightarrow> True | Inl _ \<Rightarrow> False)"

lemma is_ok_simps [simp]: "is_ok (Inr a)" "\<not> is_ok (Inl e)"
  by (simp_all add: is_ok_def)

text \<open>The rest of a test after the \<open>unwrap\<close> of an addition to the pool.\<close>

definition then_added ::
  "(pool_error + b256) \<times> operation_pool \<Rightarrow> (b256 \<Rightarrow> operation_pool \<Rightarrow> bool) \<Rightarrow> bool" where
  "then_added r k = (case r of (Inr h, p) \<Rightarrow> k h p | (Inl _, _) \<Rightarrow> False)"

lemma then_added_simps [simp]:
  "then_added (Inr h, p) k = k h p" "then_added (Inl e, p) k = False"
  by (simp_all add: then_added_def)

section \<open>The user operation\<close>

definition test_pack_unpack_u128_pair :: bool where
  "test_pack_unpack_u128_pair =
     (let high = 1000000; low = 2000000; packed = pack_u128_pair high low; (h, l) = unpack_u128_pair packed
      in h = high \<and> l = low)"

definition roundtrip_uo :: "hashing \<Rightarrow> user_operation" where
  "roundtrip_uo H =
     uo_new H (addr_byte 1) 42 [0xde, 0xad] 100000 200000 50000 30000000000 1000000000 [1, 2]
       (Some (addr_byte 2)) [3] (Some (addr_byte 3)) 100000 50000 [4] (addr_byte 0xEE) 1"

definition test_pack_roundtrip :: "hashing \<Rightarrow> bool" where
  "test_pack_roundtrip H =
     (let uo = roundtrip_uo H; packed = pack uo; unpacked = unpack H packed (addr_byte 0xEE) 1
      in uo_sender uo = uo_sender unpacked \<and> uo_nonce uo = uo_nonce unpacked \<and>
         uo_call_gas_limit uo = uo_call_gas_limit unpacked \<and>
         uo_verification_gas_limit uo = uo_verification_gas_limit unpacked \<and>
         uo_max_fee_per_gas uo = uo_max_fee_per_gas unpacked \<and>
         uo_max_priority_fee_per_gas uo = uo_max_priority_fee_per_gas unpacked \<and>
         uo_factory uo = uo_factory unpacked \<and> uo_paymaster uo = uo_paymaster unpacked)"

text \<open>The operation of \<open>test_hash_deterministic\<close> and of the pool and validation tests.\<close>

definition make_uo :: "hashing \<Rightarrow> address \<Rightarrow> u256 \<Rightarrow> u128 \<Rightarrow> u128 \<Rightarrow> user_operation" where
  "make_uo H sndr nonce max_fee priority =
     uo_new H sndr nonce [0xab] 100000 200000 50000 max_fee priority [1]
       None [] None 0 0 [] (addr_byte 0xEE) 1"

definition test_hash_deterministic :: "hashing \<Rightarrow> bool" where
  "test_hash_deterministic H =
     (let uo = make_uo H (addr_byte 1) 1 30000000000 1000000000; h1 = uo_hash H uo; h2 = uo_hash H uo
      in h1 = h2 \<and> h1 \<noteq> 0)"

definition test_id :: "hashing \<Rightarrow> bool" where
  "test_id H =
     (let uo = uo_new H (addr_byte 1) 7 [] 0 0 0 0 0 [] None [] None 0 0 [] 0 1; i = uo_id uo
      in id_sender i = addr_byte 1 \<and> id_nonce i = 7)"

section \<open>Reputation\<close>

definition test_new_entity_is_ok :: bool where
  "test_new_entity_is_ok \<longleftrightarrow> rm_status rm_default (addr_byte 1) = Ok"

definition test_throttle :: bool where
  "test_throttle \<longleftrightarrow>
     (let mgr = rm_new \<lparr>rc_min_ops_for_throttle = 5, rc_throttle_threshold = f64_lit (1 / 2),
                        rc_ban_threshold = f64_lit (1 / 100)\<rparr>;
          addr = addr_byte 1;
          mgr = (record_seen addr ^^ 10) mgr;
          mgr = record_included addr mgr
      in rm_status mgr addr = Throttled)"

definition test_good_reputation :: bool where
  "test_good_reputation \<longleftrightarrow>
     (let addr = addr_byte 1;
          mgr = ((\<lambda>mgr. record_included addr (record_seen addr mgr)) ^^ 20) rm_default
      in rm_status mgr addr = Ok)"

section \<open>The pool\<close>

definition pool_uo :: "hashing \<Rightarrow> u8 \<Rightarrow> u64 \<Rightarrow> u128 \<Rightarrow> user_operation" where
  "pool_uo H sender_byte nonce max_fee = make_uo H (addr_byte sender_byte) (ucast nonce) max_fee 1000000000"

abbreviation fresh_pool :: operation_pool where
  "fresh_pool \<equiv> pool_new pool_config_default"

definition test_add_and_get :: "hashing \<Rightarrow> bool" where
  "test_add_and_get H =
     (let uo = pool_uo H 1 0 30000000000 in
      then_added (pool_add H uo 15000000000 fresh_pool) (\<lambda>hash pool.
        pool_size pool = 1 \<and> get_by_hash pool hash \<noteq> None \<and> get_by_id pool (uo_id uo) \<noteq> None))"

definition test_duplicate_rejected :: "hashing \<Rightarrow> bool" where
  "test_duplicate_rejected H =
     (let uo = pool_uo H 1 0 30000000000 in
      then_added (pool_add H uo 15000000000 fresh_pool) (\<lambda>_ pool.
        case fst (pool_add H uo 15000000000 pool) of Inl (AlreadyKnown _) \<Rightarrow> True | _ \<Rightarrow> False))"

definition test_replacement :: "hashing \<Rightarrow> bool" where
  "test_replacement H =
     then_added (pool_add H (pool_uo H 1 0 30000000000) 15000000000 fresh_pool) (\<lambda>hash1 pool.
     then_added (pool_add H (pool_uo H 1 0 40000000000) 15000000000 pool) (\<lambda>hash2 pool.
       pool_size pool = 1 \<and> get_by_hash pool hash1 = None \<and> get_by_hash pool hash2 \<noteq> None))"

definition test_replacement_underpriced :: "hashing \<Rightarrow> bool" where
  "test_replacement_underpriced H =
     then_added (pool_add H (pool_uo H 1 0 30000000000) 15000000000 fresh_pool) (\<lambda>_ pool.
       case fst (pool_add H (pool_uo H 1 0 31000000000) 15000000000 pool) of
         Inl (ReplacementUnderpriced _ _) \<Rightarrow> True | _ \<Rightarrow> False)"

definition test_remove_by_id_fixes_replacement_bug :: "hashing \<Rightarrow> bool" where
  "test_remove_by_id_fixes_replacement_bug H =
     (let uo1 = pool_uo H 1 0 30000000000; i = uo_id uo1 in
      then_added (pool_add H uo1 15000000000 fresh_pool) (\<lambda>_ pool.
      then_added (pool_add H (pool_uo H 1 0 40000000000) 15000000000 pool) (\<lambda>hash2 pool.
        case remove_by_id i pool of
          (None, _) \<Rightarrow> False
        | (Some removed, pool) \<Rightarrow> pe_hash removed = hash2 \<and> pool_size pool = 0)))"

definition test_best_operations_ordered :: "hashing \<Rightarrow> bool" where
  "test_best_operations_ordered H =
     then_added (pool_add H (pool_uo H 1 0 10000000000) 5000000000 fresh_pool) (\<lambda>_ pool.
     then_added (pool_add H (pool_uo H 2 0 30000000000) 5000000000 pool) (\<lambda>_ pool.
     then_added (pool_add H (pool_uo H 3 0 20000000000) 5000000000 pool) (\<lambda>_ pool.
       let best = best_operations pool 3
       in length best = 3 \<and> pe_submit_gas_price (best ! 1) \<le> pe_submit_gas_price (best ! 0) \<and>
          pe_submit_gas_price (best ! 2) \<le> pe_submit_gas_price (best ! 1))))"

definition test_pool_full :: "hashing \<Rightarrow> bool" where
  "test_pool_full H =
     then_added (pool_add H (pool_uo H 1 0 30000000000) 15000000000
       (pool_new (pool_config_default\<lparr>pc_max_size := 2\<rparr>))) (\<lambda>_ pool.
     then_added (pool_add H (pool_uo H 2 0 30000000000) 15000000000 pool) (\<lambda>_ pool.
       case fst (pool_add H (pool_uo H 3 0 30000000000) 15000000000 pool) of
         Inl (PoolFull _) \<Rightarrow> True | _ \<Rightarrow> False))"

section \<open>Validation\<close>

definition test_chain_spec :: chain_spec where
  "test_chain_spec = chain_spec_dev\<lparr>cs_min_max_priority_fee_per_gas := 0\<rparr>"

definition validated :: "validator \<Rightarrow> user_operation \<Rightarrow> u128 \<Rightarrow> (validation_error + unit) run" where
  "validated v uo base_fee = fst (validator_validate_sync uo base_fee v)"

definition passes :: "validator \<Rightarrow> user_operation \<Rightarrow> bool" where
  "passes v uo \<longleftrightarrow> (case validated v uo 15000000000 of Returns r \<Rightarrow> is_ok r | Panics \<Rightarrow> False)"

abbreviation lone_validator :: validator where
  "lone_validator \<equiv> validator_new test_chain_spec rm_default"

abbreviation pool_validator :: "operation_pool \<Rightarrow> validator" where
  "pool_validator \<equiv> validator_with_pool test_chain_spec rm_default"

definition make_uo_with_nonce :: "hashing \<Rightarrow> u256 \<Rightarrow> user_operation" where
  "make_uo_with_nonce H nonce = make_uo H (addr_byte 1) nonce 30000000000 1000000000"

definition make_valid_uo :: "hashing \<Rightarrow> user_operation" where
  "make_valid_uo H = make_uo H (addr_byte 1) 0 30000000000 1000000000"

definition test_valid_operation :: "hashing \<Rightarrow> bool" where
  "test_valid_operation H = passes lone_validator (make_valid_uo H)"

definition test_zero_sender_rejected :: "hashing \<Rightarrow> bool" where
  "test_zero_sender_rejected H =
     (let uo = uo_new H 0 0 [] 100000 200000 50000 30000000000 1000000000 [] None [] None 0 0 [] 0 1
      in case validated lone_validator uo 15000000000 of Returns (Inl (InvalidSender _)) \<Rightarrow> True | _ \<Rightarrow> False)"

definition test_priority_fee_exceeds_max_fee :: "hashing \<Rightarrow> bool" where
  "test_priority_fee_exceeds_max_fee H =
     (let uo = make_uo H (addr_byte 1) 0 1000000000 2000000000
      in case validated lone_validator uo 500000000 of Returns (Inl (PriorityFeeExceedsMaxFee _ _)) \<Rightarrow> True | _ \<Rightarrow> False)"

definition test_max_fee_too_low :: "hashing \<Rightarrow> bool" where
  "test_max_fee_too_low H =
     (let uo = make_uo H (addr_byte 1) 0 1000000000 500000000
      in case validated lone_validator uo 15000000000 of Returns (Inl (MaxFeeTooLow _ _)) \<Rightarrow> True | _ \<Rightarrow> False)"

definition test_nonce_first_op_accepted :: "hashing \<Rightarrow> bool" where
  "test_nonce_first_op_accepted H = passes (pool_validator fresh_pool) (make_uo_with_nonce H 0)"

definition test_nonce_consecutive_accepted :: "hashing \<Rightarrow> bool" where
  "test_nonce_consecutive_accepted H =
     then_added (pool_add H (make_uo_with_nonce H 0) 15000000000 fresh_pool) (\<lambda>_ pool.
       passes (pool_validator pool) (make_uo_with_nonce H 1))"

definition test_nonce_gap_rejected :: "hashing \<Rightarrow> bool" where
  "test_nonce_gap_rejected H =
     then_added (pool_add H (make_uo_with_nonce H 0) 15000000000 fresh_pool) (\<lambda>_ pool.
       case validated (pool_validator pool) (make_uo_with_nonce H 2) 15000000000 of
         Returns r \<Rightarrow> \<not> is_ok r | Panics \<Rightarrow> False)"

definition test_nonce_replacement_accepted :: "hashing \<Rightarrow> bool" where
  "test_nonce_replacement_accepted H =
     then_added (pool_add H (make_uo_with_nonce H 0) 15000000000 fresh_pool) (\<lambda>_ pool.
       passes (pool_validator pool) (make_uo_with_nonce H 0))"

definition test_nonce_2d_different_keys :: "hashing \<Rightarrow> bool" where
  "test_nonce_2d_different_keys H =
     then_added (pool_add H (make_uo_with_nonce H 0) 15000000000 fresh_pool) (\<lambda>_ pool.
       passes (pool_validator pool) (make_uo_with_nonce H (push_bit 64 1)))"

section \<open>Conflicts\<close>

text \<open>One operation is in the bundle; a second one is checked against it.\<close>

definition conflicts_with ::
  "address \<Rightarrow> storage_access \<Rightarrow> address \<Rightarrow> storage_access \<Rightarrow> nat set run" where
  "conflicts_with sender_a access_a sender_b access_b =
     (case add_operation sender_a access_a detector_new of
        (_, detector) \<Rightarrow> check_conflicts detector sender_b access_b)"

abbreviation contract_c :: address where
  "contract_c \<equiv> addr_byte 0xCC"

definition writes :: "b256 \<Rightarrow> storage_access" where
  "writes s = record_write contract_c s storage_access_default"

definition reads :: "b256 \<Rightarrow> storage_access" where
  "reads s = record_read contract_c s storage_access_default"

definition no_conflict :: "nat set run \<Rightarrow> bool" where
  "no_conflict r \<longleftrightarrow> (case r of Returns conflicts \<Rightarrow> conflicts = {} | Panics \<Rightarrow> False)"

definition conflicts_first :: "nat set run \<Rightarrow> bool" where
  "conflicts_first r \<longleftrightarrow> (case r of Returns conflicts \<Rightarrow> 0 \<in> conflicts | Panics \<Rightarrow> False)"

definition test_no_conflict_independent_ops :: bool where
  "test_no_conflict_independent_ops \<longleftrightarrow>
     no_conflict (conflicts_with (addr_byte 1) (writes (hash_byte 1)) (addr_byte 2) (writes (hash_byte 2)))"

definition test_write_write_conflict :: bool where
  "test_write_write_conflict \<longleftrightarrow>
     conflicts_first (conflicts_with (addr_byte 1) (writes (hash_byte 1)) (addr_byte 2) (writes (hash_byte 1)))"

definition test_write_read_conflict :: bool where
  "test_write_read_conflict \<longleftrightarrow>
     conflicts_first (conflicts_with (addr_byte 1) (writes (hash_byte 1)) (addr_byte 2) (reads (hash_byte 1)))"

definition test_same_sender_no_conflict :: bool where
  "test_same_sender_no_conflict \<longleftrightarrow>
     no_conflict (conflicts_with (addr_byte 1) (writes (hash_byte 1)) (addr_byte 1) (writes (hash_byte 1)))"

definition test_read_read_no_conflict :: bool where
  "test_read_read_no_conflict \<longleftrightarrow>
     no_conflict (conflicts_with (addr_byte 1) (reads (hash_byte 1)) (addr_byte 2) (reads (hash_byte 1)))"

section \<open>The router\<close>

definition success_strategy :: "unit strategy" where
  "success_strategy =
     \<lparr>st_name = ''success'', st_submit = (\<lambda>_ _ w. (Returns (Inr (hash_byte 1)), w)),
      st_cancel = (\<lambda>_ _ w. (Returns (Inr Cancelled), w)), st_supports_soft_cancel = (\<lambda>_. Returns False)\<rparr>"

definition fail_strategy :: "unit strategy" where
  "fail_strategy =
     \<lparr>st_name = ''fail'', st_submit = (\<lambda>_ _ w. (Returns (Inl (StrategyFailed ''always fails'')), w)),
      st_cancel = (\<lambda>_ _ w. (Returns (Inl (StrategyFailed ''always fails'')), w)),
      st_supports_soft_cancel = (\<lambda>_. Returns False)\<rparr>"

definition test_ctx :: submission_context where
  "test_ctx = \<lparr>sc_expected_storage = None, sc_chain_id = 1\<rparr>"

definition test_primary_succeeds :: bool where
  "test_primary_succeeds \<longleftrightarrow>
     (case router_submit [success_strategy, fail_strategy] [] test_ctx (router_new ()) of
        (Returns r, _) \<Rightarrow> is_ok r | (Panics, _) \<Rightarrow> False)"

definition test_failover_to_second :: bool where
  "test_failover_to_second \<longleftrightarrow>
     (case router_submit [fail_strategy, success_strategy] [] test_ctx (router_new ()) of
        (Returns r, primary, _) \<Rightarrow> is_ok r \<and> primary = 1 | (Panics, _) \<Rightarrow> False)"

definition test_all_strategies_fail :: bool where
  "test_all_strategies_fail \<longleftrightarrow>
     (case router_submit [fail_strategy, fail_strategy] [] test_ctx (router_new ()) of
        (Returns r, _) \<Rightarrow> \<not> is_ok r | (Panics, _) \<Rightarrow> False)"

definition test_reset_primary :: bool where
  "test_reset_primary \<longleftrightarrow>
     (case router_submit [fail_strategy, success_strategy] [] test_ctx (router_new ()) of
        (Returns (Inr _), pw) \<Rightarrow> fst pw = 1 \<and> fst (reset_primary pw) = 0 | _ \<Rightarrow> False)"

section \<open>Evaluation\<close>

lemma repeat_byte_inject [simp]:
  "addr_byte b = addr_byte c \<longleftrightarrow> b = c" "hash_byte b = hash_byte c \<longleftrightarrow> b = c"
proof -
  have lists: "replicate 20 b = replicate 20 c \<longleftrightarrow> b = c" "replicate 32 b = replicate 32 c \<longleftrightarrow> b = c"
    by (simp_all add: replicate_eq_replicate)
  show "addr_byte b = addr_byte c \<longleftrightarrow> b = c" "hash_byte b = hash_byte c \<longleftrightarrow> b = c"
    using be160.enc_dec [of "replicate 20 b"] be160.enc_dec [of "replicate 20 c"]
      be256.enc_dec [of "replicate 32 b"] be256.enc_dec [of "replicate 32 c"] lists
    unfolding repeat_byte_def by (metis length_replicate)+
qed

lemma addr_byte_nonzero [simp]: "addr_byte b = 0 \<longleftrightarrow> b = 0"
proof -
  have "be_value (replicate n 0) = 0" for n
    by (induction n) (simp_all add: replicate_append_same [symmetric])
  then have "addr_byte 0 = 0" by (simp add: repeat_byte_def from_be_bytes_def)
  then show ?thesis using repeat_byte_inject(1) [of b 0] by simp
qed

lemma router_tests:
  "test_primary_succeeds" "test_failover_to_second" "test_all_strategies_fail" "test_reset_primary"
  by (simp_all add: test_primary_succeeds_def test_failover_to_second_def test_all_strategies_fail_def
      test_reset_primary_def router_submit_def router_new_def success_strategy_def fail_strategy_def
      reset_primary_def upt_conv_Cons)

lemma conflict_tests:
  "test_no_conflict_independent_ops" "test_write_write_conflict" "test_write_read_conflict"
  "test_same_sender_no_conflict" "test_read_read_no_conflict"
  by (simp_all add: test_no_conflict_independent_ops_def test_write_write_conflict_def test_write_read_conflict_def
      test_same_sender_no_conflict_def test_read_read_no_conflict_def no_conflict_def conflicts_first_def
      conflicts_with_def writes_def reads_def add_operation_def detector_new_def storage_access_default_def
      record_write_def record_read_def accessed_slots_def check_conflicts_def add_slot_def foreign_def
      hm_defs hm_upsert_def)

lemma reputation_good:
  "test_new_entity_is_ok" "test_good_reputation"
proof -
  define step where "step = (\<lambda>mgr. record_included (addr_byte 1) (record_seen (addr_byte 1) mgr))"
  have run: "rm_inv ((step ^^ n) rm_default) \<and> rm_config ((step ^^ n) rm_default) = reputation_config_default \<and>
      seen ((step ^^ n) rm_default) (addr_byte 1) = of_nat n \<and>
      included ((step ^^ n) rm_default) (addr_byte 1) = of_nat n" for n
    by (induction n) (simp_all add: step_def rm_default_def counters_record_seen counters_record_included)
  have "rm_status ((step ^^ 20) rm_default) (addr_byte 1) = Ok"
    using run [of 20] by (simp add: rm_status_counters default_status_cases)
  then show "test_good_reputation" by (simp add: test_good_reputation_def step_def)
  show "test_new_entity_is_ok" by (simp add: test_new_entity_is_ok_def rm_default_def)
qed

lemma f64_lit_half: "f64_round (1 / 2) = 1 / 2"
  by code_simp

lemma reputation_throttle: "test_throttle"
proof -
  define cfg where "cfg = \<lparr>rc_min_ops_for_throttle = 5, rc_throttle_threshold = f64_lit (1 / 2),
      rc_ban_threshold = f64_lit (1 / 100)\<rparr>"
  have run: "rm_inv ((record_seen (addr_byte 1) ^^ n) (rm_new cfg)) \<and>
      rm_config ((record_seen (addr_byte 1) ^^ n) (rm_new cfg)) = cfg \<and>
      seen ((record_seen (addr_byte 1) ^^ n) (rm_new cfg)) (addr_byte 1) = of_nat n \<and>
      included ((record_seen (addr_byte 1) ^^ n) (rm_new cfg)) (addr_byte 1) = 0" for n
    by (induction n) (simp_all add: counters_record_seen)
  have "f64_ratio 1 10 = Finite (f64_round (1 / 10))"
    using f64_round_of_nat [of 1] f64_round_of_nat [of 10] by (simp add: f64_ratio_def f64_of_u64_def)
  then have "entry_status cfg \<lparr>re_ops_seen = 10, re_ops_included = 1\<rparr> = Throttled"
    by (simp add: entry_status_def cfg_def f64_lit_def f64_lit_half f64_lit_tenth f64_lit_hundredth)
  then show ?thesis
    using run [of 10]
    by (simp add: test_throttle_def cfg_def [symmetric] rm_status_counters counters_record_included)
qed

lemma make_uo_simps [simp]:
  "uo_sender (make_uo H a n f g) = a" "uo_nonce (make_uo H a n f g) = n"
  "uo_max_fee_per_gas (make_uo H a n f g) = f" "uo_max_priority_fee_per_gas (make_uo H a n f g) = g"
  "uo_entities (make_uo H a n f g) = [entity_account a]"
  "uo_verification_gas_limit (make_uo H a n f g) = 200000" "uo_pre_verification_gas (make_uo H a n f g) = 50000"
  "uo_call_data (make_uo H a n f g) = [0xab]"
  by (simp_all add: make_uo_def uo_new_def uo_entities_def Let_def)

lemma make_uo_hash [simp]: "uo_hash H (make_uo H a n f g) = compute_hash H (make_uo H a n f g)"
  by (simp add: make_uo_def uo_hash_def)

lemma data_tests:
  "test_pack_unpack_u128_pair" "test_pack_roundtrip H" "test_id H"
  by (simp_all add: test_pack_unpack_u128_pair_def test_pack_roundtrip_def test_id_def
      unpack_pack_fields pack_normal_def uo_id_def id_new_def)

text \<open>
  The operations of the pool tests as they are hashed, and what their tests need of the hash
  function: it separates them, and the operation of \<open>test_hash_deterministic\<close> does not hash to zero.
\<close>

definition tests_hashed_apart :: "hashing \<Rightarrow> bool" where
  "tests_hashed_apart H \<longleftrightarrow>
     distinct (map (compute_hash H)
       [pool_uo H 1 0 10000000000, pool_uo H 1 0 30000000000, pool_uo H 1 0 31000000000,
        pool_uo H 1 0 40000000000, pool_uo H 2 0 30000000000, pool_uo H 3 0 20000000000,
        pool_uo H 3 0 30000000000]) \<and>
     compute_hash H (make_uo H (addr_byte 1) 1 30000000000 1000000000) \<noteq> 0"

lemmas pool_test_defs =
  pool_add_def add_checked_def insert_new_def remove_inner_def pool_size_def get_by_hash_def get_by_id_def
  pool_new_def pool_config_default_def pool_entry_new_def min_bump_def uo_effective_gas_price_def
  hm_defs

lemma pool_uo_id [simp]: "uo_id (pool_uo H s n f) = \<lparr>id_sender = addr_byte s, id_nonce = ucast n\<rparr>"
  by (simp add: pool_uo_def uo_id_def id_new_def)

lemma pool_uo_simps [simp]:
  "uo_hash H (pool_uo H s n f) = compute_hash H (pool_uo H s n f)" "uo_max_fee_per_gas (pool_uo H s n f) = f"
  "uo_max_priority_fee_per_gas (pool_uo H s n f) = 1000000000"
  by (simp_all add: pool_uo_def)

lemma tests_hashed_apart_simps:
  assumes "tests_hashed_apart H"
  shows "compute_hash H (pool_uo H 1 0 31000000000) \<noteq> compute_hash H (pool_uo H 1 0 30000000000)"
    "compute_hash H (pool_uo H 1 0 40000000000) \<noteq> compute_hash H (pool_uo H 1 0 30000000000)"
    "compute_hash H (pool_uo H 1 0 30000000000) \<noteq> compute_hash H (pool_uo H 1 0 40000000000)"
    "compute_hash H (pool_uo H 2 0 30000000000) \<noteq> compute_hash H (pool_uo H 1 0 30000000000)"
    "compute_hash H (pool_uo H 2 0 30000000000) \<noteq> compute_hash H (pool_uo H 1 0 10000000000)"
    "compute_hash H (pool_uo H 3 0 20000000000) \<noteq> compute_hash H (pool_uo H 1 0 10000000000)"
    "compute_hash H (pool_uo H 3 0 20000000000) \<noteq> compute_hash H (pool_uo H 2 0 30000000000)"
    "compute_hash H (pool_uo H 3 0 30000000000) \<noteq> compute_hash H (pool_uo H 1 0 30000000000)"
    "compute_hash H (pool_uo H 3 0 30000000000) \<noteq> compute_hash H (pool_uo H 2 0 30000000000)"
    "compute_hash H (make_uo H (addr_byte 1) 1 30000000000 1000000000) \<noteq> 0"
  using assms unfolding tests_hashed_apart_def by auto

lemma pool_tests_1:
  "test_add_and_get H" "test_duplicate_rejected H"
  by (simp_all add: test_add_and_get_def test_duplicate_rejected_def Let_def pool_test_defs)

lemma pool_tests_2:
  assumes "tests_hashed_apart H"
  shows "test_replacement_underpriced H" "test_replacement H" "test_pool_full H"
    "test_remove_by_id_fixes_replacement_bug H"
  by (simp_all add: test_replacement_underpriced_def test_replacement_def test_pool_full_def
      test_remove_by_id_fixes_replacement_bug_def remove_by_id_def
      Let_def pool_test_defs order_cmp_Equal tests_hashed_apart_simps [OF assms]
      tests_hashed_apart_simps [OF assms, symmetric])

text \<open>An operation of a sender the pool does not know is added when there is room.\<close>

lemma pool_add_new_sender:
  assumes "pool_inv H p" "size (entries_of p) < pc_max_size (pl_config p)" "0 < pc_max_ops_per_sender (pl_config p)"
    and new: "\<forall>e\<in>#entries_of p. pe_hash e \<noteq> uo_hash H uo \<and> id_sender (pe_id e) \<noteq> uo_sender uo"
  shows "pool_add H uo b p = (Inr (uo_hash H uo), insert_new H uo b p)"
    and "pool_inv H (insert_new H uo b p)"
    and "entries_of (insert_new H uo b p) = add_mset (new_entry H uo b p) (entries_of p)"
proof -
  have h: "hm_get (pl_by_hash p) (uo_hash H uo) = None"
    using new by_hash_iff [OF assms(1), of "uo_hash H uo"] by (meson not_Some_eq)
  have "id_sender (uo_id uo) = uo_sender uo" by simp
  then have i: "hm_get (pl_by_id p) (uo_id uo) = None"
    using new by_id_iff [OF assms(1), of "uo_id uo"] by (metis not_Some_eq)
  have "filter_mset (\<lambda>e. id_sender (pe_id e) = uo_sender uo) (entries_of p) = {#}"
    using new by auto
  then have "sender_ops p (uo_sender uo) = 0" by (simp add: sender_ops_def)
  then show "pool_add H uo b p = (Inr (uo_hash H uo), insert_new H uo b p)"
    and "pool_inv H (insert_new H uo b p)"
    using assms(2,3) h i insert_new_inv [OF assms(1) h i]
    by (simp_all add: pool_add_eq [OF assms(1)] add_checked_eq [OF assms(1)] pool_size_entries [OF assms(1)])
  show "entries_of (insert_new H uo b p) = add_mset (new_entry H uo b p) (entries_of p)"
    using assms(1) h by (rule insert_new_entries)
qed

lemma pool_tests_3:
  assumes "tests_hashed_apart H"
  shows "test_best_operations_ordered H"
proof -
  note apart = tests_hashed_apart_simps [OF assms] tests_hashed_apart_simps [OF assms, symmetric]
  let ?b = 5000000000 and ?u1 = "pool_uo H 1 0 10000000000" and ?u2 = "pool_uo H 2 0 30000000000"
    and ?u3 = "pool_uo H 3 0 20000000000"
  define p1 where "p1 = insert_new H ?u1 ?b fresh_pool"
  define p2 where "p2 = insert_new H ?u2 ?b p1"
  define p3 where "p3 = insert_new H ?u3 ?b p2"
  have sender: "uo_sender (pool_uo H s n f) = addr_byte s" for s n f by (simp add: pool_uo_def)
  have e0: "entries_of fresh_pool = {#}" by (simp add: entries_of_def pool_new_def)
  have cfg: "pl_config fresh_pool = pool_config_default" by (simp add: pool_new_def)
  have cfgs: "pc_max_size pool_config_default = 4096" "pc_max_ops_per_sender pool_config_default = 4"
    by (simp_all add: pool_config_default_def)
  have 1: "pool_add H ?u1 ?b fresh_pool = (Inr (uo_hash H ?u1), p1)" "pool_inv H p1"
    "entries_of p1 = {#new_entry H ?u1 ?b fresh_pool#}"
    using pool_add_new_sender [of H fresh_pool ?u1 ?b] by (simp_all add: p1_def cfg cfgs e0)
  have 2: "pool_add H ?u2 ?b p1 = (Inr (uo_hash H ?u2), p2)" "pool_inv H p2"
    "entries_of p2 = {#new_entry H ?u2 ?b p1, new_entry H ?u1 ?b fresh_pool#}"
    using pool_add_new_sender [OF 1(2), of ?u2 ?b]
    by (simp_all add: p2_def p1_def [THEN arg_cong, of pl_config] cfg cfgs 1(3) apart sender)
  have 3: "pool_add H ?u3 ?b p2 = (Inr (uo_hash H ?u3), p3)" "pool_inv H p3" "size (entries_of p3) = 3"
    using pool_add_new_sender [OF 2(2), of ?u3 ?b]
    by (simp_all add: p3_def p2_def [THEN arg_cong, of pl_config] p1_def [THEN arg_cong, of pl_config]
        cfg cfgs 2(3) apart sender)
  obtain a b c where "pl_ordered p3 = [a, b, c]"
    using 3(3) by (auto simp: entries_of_def numeral_3_eq_3 length_Suc_conv)
  then show ?thesis
    using pool_invD(4) [OF 3(2)]
    by (auto simp: test_best_operations_ordered_def best_operations_def 1(1) 2(1) 3(1) order_cmp_Less)
qed

lemma validated_eq:
  "validated v uo b = fst (validate_sync (vd_chain_spec v) (vd_pool v) uo b (vd_reputation v))"
  by (simp add: validated_def validator_validate_sync_def split: prod.split)

lemma validator_simps [simp]:
  "vd_chain_spec (validator_new cs m) = cs" "vd_pool (validator_new cs m) = None"
  "vd_reputation (validator_new cs m) = m" "vd_chain_spec (validator_with_pool cs m p) = cs"
  "vd_pool (validator_with_pool cs m p) = Some p" "vd_reputation (validator_with_pool cs m p) = m"
  by (simp_all add: validator_new_def validator_with_pool_def)

lemma validated_accepts:
  assumes "validate_static_fields test_chain_spec uo = Inr ()"
    and "validate_gas_price test_chain_spec uo 15000000000 = Inr ()"
  shows "passes lone_validator uo"
    and "validate_nonce (Some p) uo = Inr () \<Longrightarrow> passes (pool_validator p) uo"
  using assms validate_sync_accepts [of test_chain_spec None uo 15000000000 rm_default]
    validate_sync_accepts [of test_chain_spec "Some p" uo 15000000000 rm_default]
  by (simp_all add: passes_def validated_eq rm_default_def validate_nonce_def)

lemma make_uo_static: "a \<noteq> 0 \<Longrightarrow> 0 < f \<Longrightarrow> g \<le> f \<Longrightarrow> validate_static_fields test_chain_spec (make_uo H a n f g) = Inr ()"
  by (simp add: validate_static_ok static_ok_def test_chain_spec_def chain_spec_dev_def)

lemma make_uo_gas:
  "validate_gas_price test_chain_spec (make_uo H a n 30000000000 1000000000) 15000000000 = Inr ()"
  by (simp add: validate_gas_price_ok covers_def uo_gas_fees_def test_chain_spec_def)

lemma test_chain_spec_min [simp]: "cs_min_max_priority_fee_per_gas test_chain_spec = 0"
  by (simp add: test_chain_spec_def)

lemma validation_tests_1:
  "test_valid_operation H" "test_zero_sender_rejected H" "test_priority_fee_exceeds_max_fee H"
  "test_max_fee_too_low H" "test_nonce_first_op_accepted H"
proof -
  show "test_valid_operation H"
    unfolding test_valid_operation_def make_valid_uo_def
    by (rule validated_accepts) (simp_all add: make_uo_static make_uo_gas validate_nonce_def)
  show "test_zero_sender_rejected H"
    by (simp add: test_zero_sender_rejected_def validated_eq validate_sync_def validate_static_fields_def)
  show "test_priority_fee_exceeds_max_fee H"
    by (simp add: test_priority_fee_exceeds_max_fee_def validated_eq validate_sync_def validate_static_fields_def
        Let_def)
  show "test_max_fee_too_low H"
    by (simp add: test_max_fee_too_low_def validated_eq validate_sync_def make_uo_static validate_gas_price_def
        covers_def uo_gas_fees_def Let_def)
  show "test_nonce_first_op_accepted H"
    unfolding test_nonce_first_op_accepted_def make_uo_with_nonce_def
    by (rule validated_accepts)
      (simp_all add: make_uo_static make_uo_gas validate_nonce_def get_by_id_def max_nonce_sequence_def
        pool_new_def hm_defs)
qed

lemma nonce_uo_id: "uo_id (make_uo_with_nonce H n) = \<lparr>id_sender = addr_byte 1, id_nonce = n\<rparr>"
  by (simp add: make_uo_with_nonce_def uo_id_def id_new_def)

text \<open>The pool that holds nonce zero of the sender, as the nonce tests set it up.\<close>

lemma nonce_test_pool:
  "pool_add H (make_uo_with_nonce H 0) 15000000000 fresh_pool =
     (Inr (uo_hash H (make_uo_with_nonce H 0)),
      insert_new H (make_uo_with_nonce H 0) 15000000000 fresh_pool)"
  by (simp add: pool_test_defs Let_def)

lemma nonce_test_ids:
  "hm_get (pl_by_id (insert_new H (make_uo_with_nonce H 0) 15000000000 fresh_pool)) i =
     (if i = \<lparr>id_sender = addr_byte 1, id_nonce = 0\<rparr>
      then Some (new_entry H (make_uo_with_nonce H 0) 15000000000 fresh_pool) else None)"
  "hm_keys (pl_by_id (insert_new H (make_uo_with_nonce H 0) 15000000000 fresh_pool)) =
     [\<lparr>id_sender = addr_byte 1, id_nonce = 0\<rparr>]"
  by (simp_all add: insert_new_def pool_new_def Let_def hm_defs make_uo_with_nonce_def uo_id_def id_new_def)

lemma validation_tests_2:
  "test_nonce_consecutive_accepted H" "test_nonce_gap_rejected H" "test_nonce_replacement_accepted H"
  "test_nonce_2d_different_keys H"
proof -
  let ?p = "insert_new H (make_uo_with_nonce H 0) 15000000000 fresh_pool"
  have add: "then_added (pool_add H (make_uo_with_nonce H 0) 15000000000 fresh_pool) k = k (uo_hash H (make_uo_with_nonce H 0)) ?p" for k
    by (simp add: nonce_test_pool)
  have nonce: "validate_nonce (Some ?p) (make_uo_with_nonce H n) =
      (if n = 0 \<or> drop_bit 64 n \<noteq> 0 \<or> (ucast n :: u64) = 1 then Inr ()
       else Inl (ValidationOther (InvalidNonceSequence 1 (addr_byte 1) 0 (ucast n))))" for n
    by (auto simp: validate_nonce_def get_by_id_def max_nonce_sequence_def nonce_test_ids nonce_uo_id
        nonce_key_def nonce_sequence_eq Let_def)
  have passes_at: "passes (pool_validator ?p) (make_uo_with_nonce H n)" if "validate_nonce (Some ?p) (make_uo_with_nonce H n) = Inr ()" for n
    using that by (intro validated_accepts) (simp_all add: make_uo_with_nonce_def make_uo_static make_uo_gas)
  show "test_nonce_consecutive_accepted H" "test_nonce_replacement_accepted H"
    by (simp_all add: test_nonce_consecutive_accepted_def test_nonce_replacement_accepted_def add passes_at nonce)
  show "test_nonce_2d_different_keys H"
    by (simp add: test_nonce_2d_different_keys_def add passes_at nonce)
  have "validate_static_fields test_chain_spec (make_uo_with_nonce H 2) = Inr ()"
    "validate_gas_price test_chain_spec (make_uo_with_nonce H 2) 15000000000 = Inr ()"
    by (simp_all add: make_uo_with_nonce_def make_uo_static make_uo_gas)
  then show "test_nonce_gap_rejected H"
    by (simp add: test_nonce_gap_rejected_def add validated_eq validate_sync_def nonce)
qed

section \<open>All tests\<close>

text \<open>
  The 32 tests pass on the model for every hash function that separates the seven operations
  the tests add to a pool and does not hash the tested operation to zero.  This is a check of
  the model against the repository's own examples; the general statements are in the theories
  of the components.
\<close>

definition unit_tests :: "hashing \<Rightarrow> bool list" where
  "unit_tests H =
     [test_pack_unpack_u128_pair, test_pack_roundtrip H, test_hash_deterministic H, test_id H,
      test_new_entity_is_ok, test_throttle, test_good_reputation,
      test_add_and_get H, test_duplicate_rejected H, test_replacement H, test_replacement_underpriced H,
      test_remove_by_id_fixes_replacement_bug H, test_best_operations_ordered H, test_pool_full H,
      test_valid_operation H, test_zero_sender_rejected H, test_priority_fee_exceeds_max_fee H,
      test_max_fee_too_low H, test_nonce_first_op_accepted H, test_nonce_consecutive_accepted H,
      test_nonce_gap_rejected H, test_nonce_replacement_accepted H, test_nonce_2d_different_keys H,
      test_no_conflict_independent_ops, test_write_write_conflict, test_write_read_conflict,
      test_same_sender_no_conflict, test_read_read_no_conflict,
      test_primary_succeeds, test_failover_to_second, test_all_strategies_fail, test_reset_primary]"

lemma hash_test: "tests_hashed_apart H \<Longrightarrow> test_hash_deterministic H"
  by (simp add: test_hash_deterministic_def tests_hashed_apart_simps Let_def)

lemma unit_tests_pass:
  assumes "tests_hashed_apart H"
  shows "list_all (\<lambda>passed. passed) (unit_tests H)"
  by (simp add: unit_tests_def data_tests hash_test [OF assms] reputation_good reputation_throttle pool_tests_1
      pool_tests_2 [OF assms] pool_tests_3 [OF assms] validation_tests_1 validation_tests_2
      conflict_tests router_tests)

text \<open>A hash function that reads the sender and the gas fees of the encoded operation.\<close>

definition fee_hashing :: hashing where
  "fee_hashing =
     \<lparr>keccak256 = (\<lambda>bs. from_be_bytes (take 32 bs)),
      abi_encode = (\<lambda>p. replicate 15 1 @ [hd (to_be_bytes (pk_sender p))] @ drop 16 (pk_gas_fees p))\<rparr>"

lemma fee_hash:
  "compute_hash fee_hashing (make_uo H (addr_byte b) n f g) =
     from_be_bytes (replicate 15 1 @ [b] @ to_be_bytes f)"
proof -
  have "to_be_bytes (addr_byte b) = replicate 20 b"
    unfolding repeat_byte_def by (rule be160.enc_dec) simp
  moreover have "to_be_bytes (from_be_bytes (replicate 15 1 @ [b] @ to_be_bytes f) :: b256) =
      replicate 15 1 @ [b] @ to_be_bytes f"
    by (rule be256.enc_dec) simp
  ultimately show ?thesis
    by (simp add: compute_hash_def fee_hashing_def pack_def pack_u128_pair_def make_uo_def uo_new_def Let_def)
qed

lemma fee_hash_inject:
  fixes f f' :: u128
  shows "(from_be_bytes (replicate 15 1 @ [b] @ to_be_bytes f) :: b256) =
       from_be_bytes (replicate 15 1 @ [b'] @ to_be_bytes f') \<longleftrightarrow> b = b' \<and> f = f'"
proof -
  have "to_be_bytes (from_be_bytes (replicate 15 1 @ [b] @ to_be_bytes f) :: b256) =
      replicate 15 1 @ [b] @ to_be_bytes f" for b and f :: u128
    by (rule be256.enc_dec) simp
  then show ?thesis
    by (metis append_Cons append_Nil list.inject be128.dec_enc same_append_eq)
qed

lemma fee_hashing_apart: "tests_hashed_apart fee_hashing"
proof -
  have "be_value (replicate n 0) = 0" for n
    by (induction n) (simp_all add: replicate_append_same [symmetric])
  then have zero: "to_be_bytes (0 :: b256) = replicate 32 0"
    using be256.enc_dec [of "replicate 32 0"] by (simp add: from_be_bytes_def)
  have "from_be_bytes (replicate 15 1 @ 1 # to_be_bytes f) \<noteq> (0 :: b256)" for f :: u128
  proof
    assume "from_be_bytes (replicate 15 1 @ 1 # to_be_bytes f) = (0 :: b256)"
    then have "replicate 15 1 @ 1 # to_be_bytes f = replicate 32 (0 :: u8)"
      using be256.enc_dec [of "replicate 15 1 @ 1 # to_be_bytes f"] zero by simp
    then show False by (simp add: numeral_eq_Suc)
  qed
  then show ?thesis
    by (simp add: tests_hashed_apart_def pool_uo_def fee_hash fee_hash_inject [simplified])
qed

end
