(* ===== verification/Spec2Isabelle.thy ===== *)
theory Spec2Isabelle
  imports Chain_Polls Rpc_Queries Drain Status_Tracker Pool_Threads Event_Bus Event_Hashes Rpc_Server Rpc_Threads Conformance
begin

text \<open>
  Bunzo, an ERC-4337 bundler: a verification library beside the Rust sources of \<open>src/\<close>.

  The program.  Clients send user operations to a JSON-RPC server (\<open>crates/rpc\<close>), which
  validates them and puts them into a pool (\<open>crates/pool\<close>).  A bundler task
  (\<open>crates/builder\<close>) takes the best operations of the pool, simulates them as a bundle,
  drops the ones the simulation blames, signs the bundle (\<open>crates/signer\<close>), submits it to a
  node (\<open>crates/provider\<close>), and waits until it is mined, replaced with higher fees or
  dropped.  \<open>bin/bunzo/src/main.rs\<close> builds these parts around one shared pool.

  How the theories follow the code.  Each theory opens with a text that names its source.

    \<^item> \<open>Prelude\<close>, \<open>Hash_Map\<close>, \<open>BTree_Set\<close>, \<open>Machine_Bytes\<close>, \<open>F64\<close>: what the sources use of the Rust
      standard library: integers as words of their width, wrapping as in the release profile,
      saturating arithmetic, panics as values (\<open>run\<close>), \<open>HashMap\<close> as an association list behind
      the locale \<open>hash_map\<close>, \<open>BTreeSet\<close> over a total comparison (locale \<open>total_cmp\<close>), big-endian
      byte codecs (locale \<open>codec\<close>), binary64 rounding.
    \<^item> \<open>Chain_Types\<close> and \<open>User_Operation\<close>: \<open>crates/types\<close>: fees, entities, chain specifications,
      events, errors; the user operation, its packed form, its hash and its id.  \<open>Messages\<close>: the
      texts of errors and \<open>Display\<close> implementations of every crate; \<open>Event_Bus\<close>: \<open>EventBus\<close> of
      \<open>event.rs\<close>.
    \<^item> \<open>Reputation\<close>, \<open>Op_Pool\<close>, \<open>Pool_Threads\<close>, \<open>Validation\<close>, \<open>Chain_Watcher\<close>, \<open>Chain_Polls\<close>,
      \<open>Status_Tracker\<close>:
      \<open>crates/pool/src/\<close> \<open>reputation.rs\<close>, \<open>pool.rs\<close> (twice: each call as one step, and lock by
      lock), \<open>validation.rs\<close>, \<open>chain.rs\<close> (its operations, then whole runs of the watcher),
      \<open>status.rs\<close>.
    \<^item> \<open>Provider_Api\<close>, \<open>Gas_Oracle\<close>, \<open>Contracts\<close>, \<open>Alloy_Node\<close>, \<open>Entry_Point\<close>:
      \<open>crates/provider/src/\<close> \<open>traits.rs\<close>, \<open>gas_oracle.rs\<close>, \<open>contracts.rs\<close>, \<open>alloy/evm.rs\<close>,
      \<open>alloy/entry_point.rs\<close> with \<open>alloy/bundle_handler.rs\<close>.
    \<^item> \<open>Conflict\<close>, \<open>Proposer\<close>, \<open>Tracker\<close>, \<open>Strategy\<close>, \<open>Bundler_Task\<close>: \<open>crates/builder/src/\<close>
      \<open>conflict.rs\<close>, \<open>proposer.rs\<close> and \<open>bundle.rs\<close>, \<open>tracker.rs\<close>, \<open>sender.rs\<close> and \<open>strategy/\<close>,
      \<open>task.rs\<close> and \<open>lib.rs\<close>; \<open>Drain\<close>: the task over the proposer, until the pool is empty.
    \<^item> \<open>Signer\<close>: \<open>crates/signer/src/\<close>.  \<open>Rpc\<close>, \<open>Rpc_Queries\<close> and
      \<open>Rpc_Server\<close>: \<open>crates/rpc/src/\<close> \<open>eth.rs\<close> and \<open>error.rs\<close>, then \<open>server.rs\<close> as the answers to a
      sequence of requests.  \<open>Rpc_Threads\<close>: submissions step by step, interleaved.
    \<^item> \<open>Startup\<close> and \<open>Program\<close>: \<open>main.rs\<close> and \<open>server.rs\<close>: the parts as \<open>main\<close> wires them, and the
      running program.  \<open>Event_Hashes\<close>: the hashes of the server against those of ERC-4337.
    \<^item> \<open>Conformance\<close>: the unit tests of \<open>v0_7.rs\<close>, \<open>reputation.rs\<close>, \<open>pool.rs\<close>, \<open>validation.rs\<close>,
      \<open>conflict.rs\<close> and \<open>router.rs\<close>, run on the model.

  State.  A Rust struct is a record and its methods are functions on the record; an enum is
  a datatype; \<open>Result\<close> is a sum with the error on the left; a panic is the value \<open>Panics\<close>.
  The node is not part of the program: its state is a type variable, a provider is a record
  of functions that answer and move that state, and a theorem for every provider holds for
  every behaviour of the node, changes between two requests included.  Hashing, the ABI
  coders, signatures and the alloy client are library code: they are parameters
  (\<open>hashing\<close>, \<open>abi\<close>, \<open>key_library\<close>, \<open>alloy_node\<close>), and what a theorem needs of them is a named
  hypothesis (\<open>decodes_hex\<close>).  The clock is an argument.

  What the lemmas show.

    \<^item> Data: packing and unpacking of operations, what the hash commits to, fee arithmetic.
    \<^item> Pool: one invariant ties the two indexes, the ordered set and the counters together;
      every operation keeps it, \<open>add\<close> refines an abstract map with replacement, and the best
      operations are those of the highest price, then those accepted first over the whole run.
      Between threads the calls are sequences of lock acquisitions: a call left alone implements
      the abstract map, the size limit can be exceeded by one operation for each other thread at
      most, the id index can lose an operation, and a replacement can lose the one it replaces.
    \<^item> Reputation: the floating-point thresholds equal exact integer comparisons for counters
      below 2^53; decay empties the tracker.
    \<^item> Validation and RPC: what is accepted, what is counted, what is returned, which nonces
      the pool can hold, and how many operations of a sender the program ever accepts, one
      request at a time and interleaved lock by lock; a submission left alone against the
      abstract pool; racing requests can leave a gap in the nonces; receipts
      say what the entry point emitted; an estimate reports call gas in wei; queries never
      disturb submissions; what an error object says; the hash of the server is not the one
      of the standard, so standard events are not recognised.
    \<^item> Tests: the model is checked against the 32 unit tests of six modules.
    \<^item> Watcher: over any run, failed polls included, no block is skipped, and what a failed poll
      announced is announced again.
    \<^item> Bundles: accounting of a proposal, its last simulation, the number of simulations; storage
      conflicts found by the detector; fees of the oracle.
    \<^item> Task: an invariant of the state machine over all schedules, the life of a bundle from its
      proposal to the removal of its operations, when a transaction is abandoned, the nonce of
      replacements; with a
      cooperating node every pool is emptied in six steps per bundle.
    \<^item> Node clients: revert data in error texts, validation data, AlloyEvmProvider.
    \<^item> Program: the server and the task over one pool, submissions served one after another:
      every bundled operation is in the history of accepted submissions, was in order when it was
      accepted, and has the wire format the entry point expects; an operation leaves the pool
      only when a simulation has blamed it or its bundle was mined.

  Two grains of concurrency.  \<open>Bundler_Task\<close>, \<open>Program\<close> and \<open>Rpc\<close> take a submission or a call of
  the pool as one step: \<open>Bundler_Task.reaches\<close> lets the rest of the program change the pool in
  any consistent way between steps and while a handler awaits the node, and \<open>Program\<close> puts the
  server there, with submissions one after another.  \<open>Pool_Threads\<close> and \<open>Rpc_Threads\<close> take every
  lock acquisition as a step and interleave them freely; what holds at the first grain and
  fails at the second (consistent indexes, consecutive nonces, the size limit, that a refused
  replacement changes nothing) is stated there with the schedule that breaks it.

  The interfaces between components are locales, interpreted on the model's own
  definitions: \<open>hash_map\<close>, \<open>total_cmp\<close>, \<open>codec\<close>, \<open>fee_contract\<close> (gas oracle to proposer),
  \<open>proposer_contract\<close> and \<open>strategy_contract\<close> (proposer and strategies to the task).

  Bounds and termination.  Loops of the code are structural recursions: the retry loop of
  the proposer counts down \<open>max_retries\<close> (at most \<open>max_retries + 1\<close> simulations are proved), the
  router tries each strategy once, a pool call takes at most 14 locks and a submission makes at
  most 23 accesses to shared state (the base fee, 2 questions to the pool, 3 entities asked and
  3 counted, 14 locks).  The loops that run until shutdown are step relations without a bound.  \<open>usize\<close> lengths are natural numbers.

  Not modelled: argument parsing, logging, metrics, the HTTP server, tokio timers and
  shutdown, the broadcast channel, serde derives, how the library prints addresses and hashes
  (the parameter \<open>texts\<close>), the texts of log lines, private key parsing, and module
  declarations.  The gas oracle's atomics are one state: only the bundler task asks it.
\<close>

end
